(* ===== verification/Prelude.thy ===== *)
theory Prelude
  imports "HOL-Library.AList" "HOL-Library.Multiset"
begin

section \<open>Shared vocabulary: exceptions, results, dictionaries, runs\<close>

text \<open>
  This theory holds what every component of the model uses: the Python exceptions that the
  package raises or lets through, the result type of a call that may raise, Python's
  \<open>repr\<close> of a string (it occurs in error messages), dictionaries that keep insertion order,
  and runs of a labelled machine with the locale that turns a step-wise argument into a
  statement about every run.
\<close>

subsection \<open>Exceptions and results\<close>

text \<open>
  \<open>ExitRequest\<close> stands for the exceptions that derive from \<open>BaseException\<close> only
  (\<open>KeyboardInterrupt\<close>, \<open>SystemExit\<close>, \<open>asyncio.CancelledError\<close>): an
  \<^verbatim>\<open>except Exception\<close> clause does not catch them. \<open>UserError\<close> is any other
  exception raised by a callable that the caller of the package supplies.
\<close>

datatype exn =
    ValueError string
  | KeyError string
  | RuntimeError string
  | TimeoutError string
  | QueueEmpty
  | QueueFull
  | QueueShutDown
  | BrokenBarrierError
  | ShutdownStartedError string
  | CircuitOpenError string
  | UserError string
  | ExitRequest string

type_synonym 'a result = "exn + 'a"

fun is_exception :: "exn \<Rightarrow> bool" where
  "is_exception (ExitRequest _) = False"
| "is_exception _ = True"

text \<open>The exception that a cancelled asyncio task gets at the await where it waits.\<close>

definition cancelled :: exn where
  "cancelled = ExitRequest ''CancelledError''"

lemma cancelled_not_exception [simp]: "\<not> is_exception cancelled"
  by (simp add: cancelled_def)

text \<open>The exception that a signal raises in a thread, wherever that thread waits.\<close>

definition interrupt :: exn where
  "interrupt = ExitRequest ''KeyboardInterrupt''"

lemma interrupt_not_exception [simp]: "\<not> is_exception interrupt"
  by (simp add: interrupt_def)

type_synonym tid = nat

named_theorems op_simps \<open>the atomic effect of each operation, branch by branch\<close>

subsection \<open>Python's \<open>repr\<close> of a string\<close>

text \<open>
  A string is a list of code points below 256. \<open>repr\<close> quotes with an apostrophe unless the
  text holds an apostrophe and no double quote, and escapes the quote, the backslash, the
  three common control characters and everything that is not printable.
\<close>

definition hex_digit :: "nat \<Rightarrow> char" where
  "hex_digit n = ''0123456789abcdef'' ! n"

definition py_printable :: "char \<Rightarrow> bool" where
  "py_printable c = (let n = of_char c :: nat in 32 \<le> n \<and> n < 127 \<or> 161 \<le> n \<and> n \<noteq> 173)"

definition repr_char :: "char \<Rightarrow> char \<Rightarrow> string" where
  "repr_char quote c =
     (if c = quote \<or> c = CHR 0x5C then [CHR 0x5C, c]
      else if c = CHR 0x0A then [CHR 0x5C, CHR ''n'']
      else if c = CHR 0x0D then [CHR 0x5C, CHR ''r'']
      else if c = CHR 0x09 then [CHR 0x5C, CHR ''t'']
      else if py_printable c then [c]
      else [CHR 0x5C, CHR ''x'', hex_digit ((of_char c :: nat) div 16),
            hex_digit ((of_char c :: nat) mod 16)])"

definition py_repr :: "string \<Rightarrow> string" where
  "py_repr s =
     (let quote = (if CHR 0x27 \<in> set s \<and> CHR 0x22 \<notin> set s then CHR 0x22 else CHR 0x27)
      in [quote] @ concat (map (repr_char quote) s) @ [quote])"

subsection \<open>Decimal printing of an integer\<close>

fun nat_digits :: "nat \<Rightarrow> string" where
  "nat_digits n =
     (if n < 10 then [char_of (48 + n)] else nat_digits (n div 10) @ [char_of (48 + n mod 10)])"

declare nat_digits.simps [simp del]

definition py_str_int :: "int \<Rightarrow> string" where
  "py_str_int i = (if i < 0 then CHR ''-'' # nat_digits (nat (- i)) else nat_digits (nat i))"

lemma nat_digits_nonempty [simp]: "nat_digits n \<noteq> []"
  by (subst nat_digits.simps) simp

lemma py_str_int_nonempty [simp]: "py_str_int i \<noteq> []"
  by (simp add: py_str_int_def)

lemma apfst_eq: "apfst f p = (f (fst p), snd p)"
  by (cases p) simp

subsection \<open>Dictionaries in insertion order\<close>

text \<open>
  A Python dictionary is an association list with distinct keys: \<open>AList.update\<close> overwrites
  the value of a present key in place and appends a new key, which is the order Python
  keeps; \<open>map_of\<close> is \<open>dict.get\<close>.
\<close>

type_synonym ('k, 'v) dict = "('k \<times> 'v) list"

abbreviation keys_of :: "('k, 'v) dict \<Rightarrow> 'k list" where
  "keys_of d \<equiv> map fst d"

abbreviation wf_dict :: "('k, 'v) dict \<Rightarrow> bool" where
  "wf_dict d \<equiv> distinct (keys_of d)"

lemma map_of_update [simp]: "map_of (AList.update k v d) = (map_of d)(k \<mapsto> v)"
  by (simp add: update_conv')

lemma keys_of_update:
  "keys_of (AList.update k v d) = (if k \<in> set (keys_of d) then keys_of d else keys_of d @ [k])"
  by (induction d) auto

lemma wf_dict_update [simp]: "wf_dict d \<Longrightarrow> wf_dict (AList.update k v d)"
  by (auto simp: keys_of_update)

lemma map_of_None_keys: "map_of d k = None \<longleftrightarrow> k \<notin> set (keys_of d)"
  by (simp add: map_of_eq_None_iff)

lemma map_of_Some_keys: "map_of d k = Some v \<Longrightarrow> k \<in> set (keys_of d)"
  by (force dest: map_of_SomeD)

lemma list_ex_key [simp]: "list_ex (\<lambda>(k, _). k = x) d \<longleftrightarrow> x \<in> fst ` set d"
  by (force simp: list_ex_iff image_iff)

lemma map_of_delete_key [simp]: "map_of (AList.delete k d) = (map_of d)(k := None)"
  by (simp add: delete_conv')

lemma wf_dict_delete [simp]: "wf_dict d \<Longrightarrow> wf_dict (AList.delete k d)"
  by (rule distinct_delete)

lemma length_update:
  "length (AList.update k v d) = (if k \<in> set (keys_of d) then length d else Suc (length d))"
  by (induction d) auto

lemma map_of_graph: "map_of (map (\<lambda>k. (k, f k)) ks) = (\<lambda>k. if k \<in> set ks then Some (f k) else None)"
  by (induction ks) auto

text \<open>A dictionary display or comprehension: the pairs are stored from left to right.\<close>

definition dict_of :: "('k \<times> 'v) list \<Rightarrow> ('k, 'v) dict" where
  "dict_of kvs = foldl (\<lambda>d (k, v). AList.update k v d) [] kvs"

lemma update_new: "k \<notin> set (keys_of d) \<Longrightarrow> AList.update k v d = d @ [(k, v)]"
  by (induction d) auto

lemma dict_of_distinct: "wf_dict kvs \<Longrightarrow> dict_of kvs = kvs"
proof -
  have "wf_dict (d @ kvs) \<Longrightarrow> foldl (\<lambda>d (k, v). AList.update k v d) d kvs = d @ kvs" for d
  proof (induction kvs arbitrary: d)
    case (Cons x kvs)
    obtain k v where "x = (k, v)" by fastforce
    with Cons.prems Cons.IH[of "d @ [x]"] show ?case by (auto simp: update_new)
  qed simp
  from this[of "[]"] show "wf_dict kvs \<Longrightarrow> dict_of kvs = kvs" by (simp add: dict_of_def)
qed

subsection \<open>Replacing one element of a list\<close>

lemma mset_concat_update:
  "i < length xs \<Longrightarrow>
   mset (concat (map g (xs[i := v]))) + mset (g (xs ! i)) = mset (concat (map g xs)) + mset (g v)"
proof (induction xs arbitrary: i)
  case (Cons x xs)
  then show ?case by (cases i) (auto simp: ac_simps)
qed simp

lemma length_concat_update:
  "i < length xs \<Longrightarrow>
   length (concat (map g (xs[i := v]))) + length (g (xs ! i)) = length (concat (map g xs)) + length (g v)"
  using arg_cong[OF mset_concat_update, of i xs size g v] by simp

subsection \<open>Runs of a labelled machine\<close>

text \<open>
  A machine is a partial step function: \<open>step s e\<close> is \<open>None\<close> when event \<open>e\<close> is not
  enabled in state \<open>s\<close>. A schedule is a list of events; \<open>runs\<close> follows it and is
  \<open>None\<close> as soon as an event is not enabled. An interleaving of threads is a schedule.
\<close>

fun runs :: "('s \<Rightarrow> 'e \<Rightarrow> 's option) \<Rightarrow> 's \<Rightarrow> 'e list \<Rightarrow> 's option" where
  "runs step s [] = Some s"
| "runs step s (e # es) = (case step s e of None \<Rightarrow> None | Some s' \<Rightarrow> runs step s' es)"

lemma runs_append:
  "runs step s (es @ fs) = (case runs step s es of None \<Rightarrow> None | Some s' \<Rightarrow> runs step s' fs)"
  by (induction es arbitrary: s) (auto split: option.splits)

lemma runs_snoc:
  "runs step s (es @ [e]) = (case runs step s es of None \<Rightarrow> None | Some s' \<Rightarrow> step s' e)"
  by (simp add: runs_append split: option.split)

text \<open>A step-by-step simulation carries over to runs.\<close>

lemma runs_simulation:
  assumes sim: "\<And>s e s'. step s e = Some s' \<Longrightarrow> step' (f s) (g e) = Some (f s')"
    and run: "runs step s es = Some s'"
  shows "runs step' (f s) (map g es) = Some (f s')"
  using run
proof (induction es arbitrary: s)
  case (Cons e es)
  then obtain s1 where "step s e = Some s1" "runs step s1 es = Some s'"
    by (auto split: option.splits)
  with sim Cons.IH show ?case by simp
qed simp

inductive reachable :: "('s \<Rightarrow> 'e \<Rightarrow> 's option) \<Rightarrow> 's \<Rightarrow> 's \<Rightarrow> bool" for step s0 where
  reach_init: "reachable step s0 s0"
| reach_step: "reachable step s0 s \<Longrightarrow> step s e = Some s' \<Longrightarrow> reachable step s0 s'"

lemma reachable_runs: "reachable step s0 s \<Longrightarrow> \<exists>es. runs step s0 es = Some s"
proof (induction rule: reachable.induct)
  case reach_init
  have "runs step s0 [] = Some s0" by simp
  then show ?case by blast
next
  case (reach_step s e s')
  then obtain es where "runs step s0 es = Some s" by blast
  with reach_step.hyps have "runs step s0 (es @ [e]) = Some s'" by (simp add: runs_snoc)
  then show ?case by blast
qed

lemma runs_reachable: "runs step s0 es = Some s \<Longrightarrow> reachable step s0 s"
proof (induction es arbitrary: s rule: rev_induct)
  case Nil
  then show ?case by (simp add: reachable.reach_init)
next
  case (snoc e es)
  then show ?case by (auto simp: runs_snoc split: option.splits intro: reachable.reach_step)
qed

text \<open>
  The interface of a component whose steps keep a relation between the schedule so far and
  the state. \<open>start_ok\<close> says which start states are meant, so that one interpretation
  serves every start state.
\<close>

locale traced_machine =
  fixes step :: "'s \<Rightarrow> 'e \<Rightarrow> 's option"
    and start_ok :: "'s \<Rightarrow> bool"
    and related :: "'s \<Rightarrow> 'e list \<Rightarrow> 's \<Rightarrow> bool"
  assumes related_start: "start_ok s0 \<Longrightarrow> related s0 [] s0"
    and related_step:
      "start_ok s0 \<Longrightarrow> related s0 es s \<Longrightarrow> step s e = Some s' \<Longrightarrow> related s0 (es @ [e]) s'"
begin

lemma every_run:
  "start_ok s0 \<Longrightarrow> runs step s0 es = Some s \<Longrightarrow> related s0 es s"
proof (induction es arbitrary: s rule: rev_induct)
  case Nil
  then show ?case using related_start by simp
next
  case (snoc e es)
  then show ?case using related_step by (fastforce simp: runs_snoc split: option.splits)
qed

end

text \<open>The special case of a state invariant.\<close>

locale invariant_machine =
  fixes step :: "'s \<Rightarrow> 'e \<Rightarrow> 's option"
    and start_ok :: "'s \<Rightarrow> bool"
    and inv :: "'s \<Rightarrow> bool"
  assumes inv_start: "start_ok s0 \<Longrightarrow> inv s0"
    and inv_step: "inv s \<Longrightarrow> step s e = Some s' \<Longrightarrow> inv s'"
begin

sublocale traced: traced_machine step start_ok "\<lambda>_ _. inv"
  by unfold_locales (auto intro: inv_start inv_step)

lemma invariant: "start_ok s0 \<Longrightarrow> runs step s0 es = Some s \<Longrightarrow> inv s"
  by (rule traced.every_run)

end

end
