(* ===== verification/Locked_Object.thy ===== *)
theory Locked_Object
  imports Prelude
begin

section \<open>Objects protected by one lock\<close>

text \<open>
  The standard library's \<open>Lock\<close> and the way the package uses it: a method validates its
  arguments without the lock, then runs a \<^verbatim>\<open>with self._lock:\<close> block. The block is a
  sequence of single accesses to the shared fields, so a scheduler may switch threads
  between any two accesses; the lock is released on every way out of the block, a raise
  included. The machine \<open>lock_step\<close> interleaves any number of threads that call the
  methods of one object, and \<open>linearizable\<close> shows that every interleaving has the
  results and the final state of a sequential run.
\<close>

subsection \<open>Methods\<close>

datatype (dead 's, 'r) body =
    Return 'r
  | Access "'s \<Rightarrow> 's \<times> ('s, 'r) body"

datatype (dead 's, 'r) meth =
    Immediate 'r
  | WithLock "('s, 'r) body"

text \<open>One read or one write of a shared field.\<close>

definition get_field :: "('s \<Rightarrow> 'a) \<Rightarrow> ('a \<Rightarrow> ('s, 'r) body) \<Rightarrow> ('s, 'r) body" where
  "get_field g k = Access (\<lambda>s. (s, k (g s)))"

definition set_field :: "('s \<Rightarrow> 's) \<Rightarrow> ('s, 'r) body \<Rightarrow> ('s, 'r) body" where
  "set_field u b = Access (\<lambda>s. (u s, b))"

text \<open>A block run alone, from its first access to its return.\<close>

primrec exec_body :: "('s, 'r) body \<Rightarrow> 's \<Rightarrow> 'r \<times> 's" where
  "exec_body (Return r) = (\<lambda>s. (r, s))"
| "exec_body (Access f) =
     (\<lambda>s. case map_prod (\<lambda>x. x) exec_body (f s) of (s', g) \<Rightarrow> g s')"

fun exec_meth :: "('s, 'r) meth \<Rightarrow> 's \<Rightarrow> 'r \<times> 's" where
  "exec_meth (Immediate r) s = (r, s)"
| "exec_meth (WithLock b) s = exec_body b s"

lemma exec_Access [simp]:
  "exec_body (Access f) s = exec_body (snd (f s)) (fst (f s))"
  by (cases "f s") simp

declare exec_body.simps(2) [simp del]

lemma exec_get_field [simp]: "exec_body (get_field g k) s = exec_body (k (g s)) s"
  by (simp add: get_field_def)

lemma exec_set_field [simp]: "exec_body (set_field u b) s = exec_body b (u s)"
  by (simp add: set_field_def)

lemma exec_map_body [simp]: "exec_body (map_body f b) s = apfst f (exec_body b s)"
  by (induction b arbitrary: s) (auto simp: snds.simps)

lemma exec_map_meth [simp]: "exec_meth (map_meth f m) s = apfst f (exec_meth m s)"
  by (cases m) auto

lemma apfst_result [simp]: "apfst f p = (r, s) \<longleftrightarrow> (\<exists>r0. p = (r0, s) \<and> r = f r0)"
  by (cases p) auto

subsection \<open>Threads around the lock\<close>

datatype ('op, dead 's, 'r) phase =
    Idle
  | Called 'op
  | Inside 'op "('s, 'r) body"
  | Finished 'op 'r

text \<open>
  \<open>log\<close> is a history variable: the calls in the order in which they left the object, each
  with its thread and its result. No step reads it.
\<close>

record ('op, 's, 'r) locked =
  shared :: 's
  holder :: "tid option"
  phase :: "tid \<Rightarrow> ('op, 's, 'r) phase"
  log :: "(tid \<times> 'op \<times> 'r) list"

datatype 'op sched =
    Invoke tid 'op
  | Step tid

definition fresh_object :: "'s \<Rightarrow> ('op, 's, 'r) locked" where
  "fresh_object s = \<lparr>shared = s, holder = None, phase = (\<lambda>_. Idle), log = []\<rparr>"

fun lock_step ::
  "('op \<Rightarrow> ('s, 'r) meth) \<Rightarrow> ('op, 's, 'r) locked \<Rightarrow> 'op sched \<Rightarrow> ('op, 's, 'r) locked option"
where
  "lock_step meth_of m (Invoke t x) =
     (case phase m t of
        Idle \<Rightarrow> Some (m\<lparr>phase := (phase m)(t := Called x)\<rparr>)
      | _ \<Rightarrow> None)"
| "lock_step meth_of m (Step t) =
     (case phase m t of
        Idle \<Rightarrow> None
      | Called x \<Rightarrow>
          (case meth_of x of
             Immediate r \<Rightarrow>
               Some (m\<lparr>phase := (phase m)(t := Finished x r), log := log m @ [(t, x, r)]\<rparr>)
           | WithLock b \<Rightarrow>
               (if holder m = None
                then Some (m\<lparr>phase := (phase m)(t := Inside x b), holder := Some t\<rparr>)
                else None))
      | Inside x b \<Rightarrow>
          (case b of
             Return r \<Rightarrow>
               Some (m\<lparr>phase := (phase m)(t := Finished x r), holder := None,
                       log := log m @ [(t, x, r)]\<rparr>)
           | Access f \<Rightarrow>
               Some (m\<lparr>shared := fst (f (shared m)),
                       phase := (phase m)(t := Inside x (snd (f (shared m))))\<rparr>))
      | Finished x r \<Rightarrow> Some (m\<lparr>phase := (phase m)(t := Idle)\<rparr>))"

text \<open>
  A sequential run of the logged calls: each call alone, in the order of the log, has the
  logged result.
\<close>

fun replay ::
  "('op \<Rightarrow> ('s, 'r) meth) \<Rightarrow> 's \<Rightarrow> (tid \<times> 'op \<times> 'r) list \<Rightarrow> 's \<Rightarrow> bool"
where
  "replay meth_of s [] s' = (s' = s)"
| "replay meth_of s ((t, x, r) # l) s' =
     (fst (exec_meth (meth_of x) s) = r \<and> replay meth_of (snd (exec_meth (meth_of x) s)) l s')"

lemma replay_snoc:
  "replay meth_of s (l @ [(t, x, r)]) s' \<longleftrightarrow>
     (\<exists>s1. replay meth_of s l s1 \<and> exec_meth (meth_of x) s1 = (r, s'))"
  by (induction l arbitrary: s) (auto simp: prod_eq_iff)

lemma replay_det: "replay meth_of s l s1 \<Longrightarrow> replay meth_of s l s2 \<Longrightarrow> s1 = s2"
  by (induction l arbitrary: s) auto

subsection \<open>Mutual exclusion and linearizability\<close>

text \<open>
  The invariant: the holder is exactly the thread inside the block, and what it still has
  to do takes the shared state to where its whole method would take the state that the log
  leads to.
\<close>

definition pending ::
  "('op \<Rightarrow> ('s, 'r) meth) \<Rightarrow> ('op, 's, 'r) locked \<Rightarrow> 's \<Rightarrow> bool" where
  "pending meth_of m s1 =
     (case holder m of
        None \<Rightarrow> s1 = shared m
      | Some t \<Rightarrow> (\<exists>x b. phase m t = Inside x b \<and>
                   exec_meth (meth_of x) s1 = exec_body b (shared m)))"

definition lock_inv ::
  "('op \<Rightarrow> ('s, 'r) meth) \<Rightarrow> 's \<Rightarrow> ('op, 's, 'r) locked \<Rightarrow> bool" where
  "lock_inv meth_of s0 m \<longleftrightarrow>
     (\<forall>t. (\<exists>x b. phase m t = Inside x b) \<longleftrightarrow> holder m = Some t) \<and>
     (\<exists>s1. replay meth_of s0 (log m) s1 \<and> pending meth_of m s1)"

lemma lock_inv_fresh: "lock_inv meth_of s0 (fresh_object s0)"
  by (simp add: lock_inv_def fresh_object_def pending_def)

lemma lock_inv_step:
  assumes inv: "lock_inv meth_of s0 m" and step: "lock_step meth_of m e = Some m'"
  shows "lock_inv meth_of s0 m'"
proof -
  from inv obtain s1 where only: "\<And>t. (\<exists>x b. phase m t = Inside x b) \<longleftrightarrow> holder m = Some t"
    and rep: "replay meth_of s0 (log m) s1" and pend: "pending meth_of m s1"
    by (auto simp: lock_inv_def)
  show ?thesis
  proof (cases e)
    case (Invoke t x)
    with step have m': "m' = m\<lparr>phase := (phase m)(t := Called x)\<rparr>" and idle: "phase m t = Idle"
      by (auto split: phase.splits)
    from idle only[of t] have "holder m \<noteq> Some t" by auto
    then show ?thesis using only rep pend m'
      by (auto simp: lock_inv_def pending_def split: option.splits)
  next
    case (Step t)
    show ?thesis
    proof (cases "phase m t")
      case Idle
      with step Step show ?thesis by simp
    next
      case (Called x)
      from Called only[of t] have nh: "holder m \<noteq> Some t" by auto
      show ?thesis
      proof (cases "meth_of x")
        case (Immediate r)
        with step Step Called
        have m': "m' = m\<lparr>phase := (phase m)(t := Finished x r), log := log m @ [(t, x, r)]\<rparr>"
          by simp
        from rep Immediate have "replay meth_of s0 (log m @ [(t, x, r)]) s1"
          by (auto simp: replay_snoc)
        with only pend nh m' show ?thesis
          by (auto simp: lock_inv_def pending_def split: option.splits)
      next
        case (WithLock b)
        with step Step Called have hn: "holder m = None"
          and m': "m' = m\<lparr>phase := (phase m)(t := Inside x b), holder := Some t\<rparr>"
          by (auto split: if_splits)
        with only rep pend WithLock show ?thesis
          by (auto simp: lock_inv_def pending_def)
      qed
    next
      case (Inside x b)
      with only[of t] have hs: "holder m = Some t" by auto
      with pend Inside have ex: "exec_meth (meth_of x) s1 = exec_body b (shared m)"
        by (simp add: pending_def)
      show ?thesis
      proof (cases b)
        case (Return r)
        with step Step Inside
        have m': "m' = m\<lparr>phase := (phase m)(t := Finished x r), holder := None,
                        log := log m @ [(t, x, r)]\<rparr>" by simp
        from rep ex Return have "replay meth_of s0 (log m @ [(t, x, r)]) (shared m)"
          by (auto simp: replay_snoc)
        moreover from only hs have "\<forall>u. u \<noteq> t \<longrightarrow> (\<forall>x b. phase m u \<noteq> Inside x b)"
          by (metis option.inject)
        ultimately show ?thesis using m' by (auto simp: lock_inv_def pending_def)
      next
        case (Access f)
        with step Step Inside
        have m': "m' = m\<lparr>shared := fst (f (shared m)),
                        phase := (phase m)(t := Inside x (snd (f (shared m))))\<rparr>" by simp
        with only hs rep ex Access show ?thesis
          by (auto simp: lock_inv_def pending_def)
      qed
    next
      case (Finished x r)
      with step Step have m': "m' = m\<lparr>phase := (phase m)(t := Idle)\<rparr>" by simp
      from Finished only[of t] have "holder m \<noteq> Some t" by auto
      then show ?thesis using only rep pend m'
        by (auto simp: lock_inv_def pending_def split: option.splits)
    qed
  qed
qed

lemma lock_inv_runs: "runs (lock_step meth_of) (fresh_object s0) es = Some m \<Longrightarrow> lock_inv meth_of s0 m"
proof (induction es arbitrary: m rule: rev_induct)
  case Nil
  then show ?case using lock_inv_fresh by auto
next
  case (snoc e es)
  then show ?case by (auto simp: runs_snoc intro: lock_inv_step split: option.splits)
qed

text \<open>Two threads are never inside the block at once.\<close>

lemma mutual_exclusion:
  assumes "runs (lock_step meth_of) (fresh_object s0) es = Some m"
    and "phase m t = Inside x b" and "phase m u = Inside y c"
  shows "t = u"
proof -
  from lock_inv_runs[OF assms(1)] have "\<forall>t. (\<exists>x b. phase m t = Inside x b) \<longleftrightarrow> holder m = Some t"
    by (simp add: lock_inv_def)
  with assms(2,3) have "holder m = Some t" "holder m = Some u" by blast+
  then show ?thesis by simp
qed

text \<open>
  Every interleaving is a sequential run: the logged calls, each run alone in the order of
  the log, give the logged results and, whenever the lock is free, the shared state.
\<close>

lemma linearizable:
  assumes "runs (lock_step meth_of) (fresh_object s0) es = Some m" and "holder m = None"
  shows "replay meth_of s0 (log m) (shared m)"
  using lock_inv_runs[OF assms(1)] assms(2) by (auto simp: lock_inv_def pending_def)

text \<open>
  A thread inside the block can always run to its end without another thread moving: the
  block has finitely many accesses and the lock is released.
\<close>

lemma holder_can_finish:
  "phase m t = Inside x b \<Longrightarrow> holder m = Some t \<Longrightarrow>
   \<exists>n m' r. runs (lock_step meth_of) m (replicate n (Step t)) = Some m' \<and> holder m' = None \<and>
        phase m' t = Finished x r \<and> exec_body b (shared m) = (r, shared m')"
proof (induction b arbitrary: m)
  case (Return r)
  let ?m' = "m\<lparr>phase := (phase m)(t := Finished x r), holder := None, log := log m @ [(t, x, r)]\<rparr>"
  from Return have "runs (lock_step meth_of) m (replicate 1 (Step t)) = Some ?m'" by simp
  moreover have "holder ?m' = None" "phase ?m' t = Finished x r"
    "exec_body (Return r) (shared m) = (r, shared ?m')" by simp_all
  ultimately show ?case by blast
next
  case (Access f)
  let ?m1 = "m\<lparr>shared := fst (f (shared m)), phase := (phase m)(t := Inside x (snd (f (shared m))))\<rparr>"
  have "snd (f (shared m)) \<in> Basic_BNFs.snds (f (shared m))" by (simp add: snds.simps)
  then have "\<exists>n m' r. runs (lock_step meth_of) ?m1 (replicate n (Step t)) = Some m' \<and> holder m' = None \<and>
        phase m' t = Finished x r \<and> exec_body (snd (f (shared m))) (shared ?m1) = (r, shared m')"
    by (rule Access.IH[rotated]) (use Access.prems in auto)
  then obtain n m' r where "runs (lock_step meth_of) ?m1 (replicate n (Step t)) = Some m'"
    "holder m' = None" "phase m' t = Finished x r"
    "exec_body (snd (f (shared m))) (shared ?m1) = (r, shared m')" by blast
  moreover from this Access.prems
  have "runs (lock_step meth_of) m (replicate (Suc n) (Step t)) = Some m'" by simp
  ultimately show ?case by (intro exI[of _ "Suc n"] exI[of _ m'] exI[of _ r]) simp
qed

text \<open>No state is stuck: as long as some call is under way, some thread can move.\<close>

lemma no_deadlock:
  assumes run: "runs (lock_step meth_of) (fresh_object s0) es = Some m" and busy: "phase m t \<noteq> Idle"
  shows "\<exists>u m'. lock_step meth_of m (Step u) = Some m'"
proof (cases "holder m")
  case None
  with busy show ?thesis
    by (cases "phase m t") (auto split: meth.splits body.splits intro!: exI[of _ t])
next
  case (Some u)
  with lock_inv_runs[OF run] obtain x b where "phase m u = Inside x b"
    unfolding lock_inv_def by blast
  then show ?thesis by (cases b) (auto intro!: exI[of _ u])
qed

subsection \<open>The interface of a lock-protected object\<close>

text \<open>
  What a client of this theory provides: its methods, the start states that its constructor
  returns, and a relation between the log and the state that each call, run alone, keeps.
  What it gets: the relation for every interleaving.
\<close>

locale lock_protected =
  fixes meth_of :: "'op \<Rightarrow> ('s, 'r) meth"
    and start_ok :: "'s \<Rightarrow> bool"
    and rel :: "'s \<Rightarrow> (tid \<times> 'op \<times> 'r) list \<Rightarrow> 's \<Rightarrow> bool"
  assumes rel_start: "start_ok s0 \<Longrightarrow> rel s0 [] s0"
    and rel_call: "start_ok s0 \<Longrightarrow> rel s0 l s \<Longrightarrow> exec_meth (meth_of x) s = (r, s') \<Longrightarrow>
                     rel s0 (l @ [(t, x, r)]) s'"
begin

lemma sequential: "start_ok s0 \<Longrightarrow> replay meth_of s0 l s \<Longrightarrow> rel s0 l s"
proof (induction l arbitrary: s rule: rev_induct)
  case Nil
  then show ?case using rel_start by simp
next
  case (snoc c l)
  obtain t x r where c: "c = (t, x, r)" by (cases c)
  from snoc.prems(2) c obtain s1 where "replay meth_of s0 l s1" "exec_meth (meth_of x) s1 = (r, s)"
    by (auto simp: replay_snoc)
  with snoc.IH[OF snoc.prems(1)] rel_call[OF snoc.prems(1)] c show ?case by blast
qed

lemma interleaved:
  "start_ok s0 \<Longrightarrow> runs (lock_step meth_of) (fresh_object s0) es = Some m \<Longrightarrow> holder m = None \<Longrightarrow>
   rel s0 (log m) (shared m)"
  by (rule sequential, assumption, rule linearizable)

lemma interleaved_always:
  assumes "start_ok s0" and "runs (lock_step meth_of) (fresh_object s0) es = Some m"
  shows "\<exists>s. rel s0 (log m) s"
  using lock_inv_runs[OF assms(2)] sequential[OF assms(1)] by (auto simp: lock_inv_def)

end

end
