(* ===== verification/Inventory.thy ===== *)
theory Inventory
  imports Locked_Object
begin

section \<open>inventoryreservation: reserving limited stock\<close>

text \<open>
  Models \<^verbatim>\<open>inventoryreservation/inventory.py\<close>. The state is the dictionary
  \<open>_stock\<close>; \<open>reserve\<close>, \<open>available\<close> and \<open>snapshot\<close> are methods of a lock-protected
  object. The lemmas give each method's effect on every branch and, through the locale of
  lock-protected objects, conservation of stock under any interleaving of callers.
\<close>

subsection \<open>State and methods\<close>

record inventory =
  stock :: "(string, int) dict"

definition init_inventory :: "(string, int) dict \<Rightarrow> inventory result" where
  "init_inventory items =
     (if items = [] then Inl (ValueError ''stock must not be empty'')
      else if list_ex (\<lambda>(product_id, _). product_id = '''') items
        then Inl (ValueError ''product IDs must not be empty'')
      else if list_ex (\<lambda>(_, quantity). quantity < 0) items
        then Inl (ValueError ''stock quantities must not be negative'')
      else Inr \<lparr>stock = items\<rparr>)"

definition stock_for :: "string \<Rightarrow> inventory \<Rightarrow> int result" where
  "stock_for product_id s =
     (if product_id = '''' then Inl (ValueError ''product ID must not be empty'')
      else case map_of (stock s) product_id of
             None \<Rightarrow> Inl (KeyError (''unknown product ID: '' @ py_repr product_id))
           | Some available \<Rightarrow> Inr available)"

definition reserve :: "string \<Rightarrow> int \<Rightarrow> (inventory, bool result) meth" where
  "reserve product_id quantity =
     (if quantity \<le> 0
      then Immediate (Inl (ValueError ''quantity must be greater than zero''))
      else WithLock
        (get_field (stock_for product_id) (\<lambda>found.
           case found of
             Inl e \<Rightarrow> Return (Inl e)
           | Inr available \<Rightarrow>
               if available < quantity then Return (Inr False)
               else set_field
                      (\<lambda>s. s\<lparr>stock := AList.update product_id (available - quantity) (stock s)\<rparr>)
                      (Return (Inr True)))))"

definition available :: "string \<Rightarrow> (inventory, int result) meth" where
  "available product_id = WithLock (get_field (stock_for product_id) Return)"

definition snapshot :: "(inventory, (string, int) dict) meth" where
  "snapshot = WithLock (get_field stock Return)"

text \<open>The object as the callers see it: its operations and their replies.\<close>

datatype inventory_op =
    Reserve string int
  | Available string
  | Snapshot

datatype inventory_reply =
    Reserved "bool result"
  | Stock "int result"
  | Counts "(string, int) dict"

fun inventory_meth :: "inventory_op \<Rightarrow> (inventory, inventory_reply) meth" where
  "inventory_meth (Reserve product_id quantity) = map_meth Reserved (reserve product_id quantity)"
| "inventory_meth (Available product_id) = map_meth Stock (available product_id)"
| "inventory_meth Snapshot = map_meth Counts snapshot"

subsection \<open>The effect of each method\<close>

lemma stock_for_Inr:
  "stock_for p s = Inr n \<longleftrightarrow> p \<noteq> '''' \<and> map_of (stock s) p = Some n"
  by (auto simp: stock_for_def split: option.splits)

lemma exec_reserve [op_simps]:
  "exec_meth (reserve p q) s =
     (if q \<le> 0 then (Inl (ValueError ''quantity must be greater than zero''), s)
      else case stock_for p s of
             Inl e \<Rightarrow> (Inl e, s)
           | Inr n \<Rightarrow>
               if n < q then (Inr False, s)
               else (Inr True, s\<lparr>stock := AList.update p (n - q) (stock s)\<rparr>))"
  by (cases "stock_for p s") (simp_all add: reserve_def)

lemma exec_available [op_simps]: "exec_meth (available p) s = (stock_for p s, s)"
  by (simp add: available_def)

lemma exec_snapshot [op_simps]: "exec_meth snapshot s = (stock s, s)"
  by (simp add: snapshot_def)

lemma reserve_success:
  "exec_meth (reserve p q) s = (Inr True, s') \<longleftrightarrow>
     0 < q \<and> p \<noteq> '''' \<and>
     (\<exists>n. map_of (stock s) p = Some n \<and> q \<le> n \<and> s' = s\<lparr>stock := AList.update p (n - q) (stock s)\<rparr>)"
  by (auto simp: op_simps stock_for_Inr split: sum.split)
    (auto simp: stock_for_def split: option.splits if_splits)

lemma reserve_otherwise:
  "exec_meth (reserve p q) s = (r, s') \<Longrightarrow> r \<noteq> Inr True \<Longrightarrow> s' = s"
  by (auto simp: op_simps split: sum.splits if_splits)

subsection \<open>Conservation of stock\<close>

text \<open>The units of a product that the successful reservations of a log took.\<close>

fun units_taken :: "string \<Rightarrow> tid \<times> inventory_op \<times> inventory_reply \<Rightarrow> int" where
  "units_taken p (_, Reserve p' q, Reserved (Inr True)) = (if p' = p then q else 0)"
| "units_taken p _ = 0"

definition reserved_units ::
  "(tid \<times> inventory_op \<times> inventory_reply) list \<Rightarrow> string \<Rightarrow> int" where
  "reserved_units l p = sum_list (map (units_taken p) l)"

definition wf_inventory :: "inventory \<Rightarrow> bool" where
  "wf_inventory s \<longleftrightarrow> wf_dict (stock s) \<and> (\<forall>(p, n) \<in> set (stock s). p \<noteq> '''' \<and> 0 \<le> n)"

definition conserved ::
  "inventory \<Rightarrow> (tid \<times> inventory_op \<times> inventory_reply) list \<Rightarrow> inventory \<Rightarrow> bool" where
  "conserved s0 l s \<longleftrightarrow>
     keys_of (stock s) = keys_of (stock s0) \<and>
     (\<forall>p. map_of (stock s) p = map_option (\<lambda>n. n - reserved_units l p) (map_of (stock s0) p)) \<and>
     (\<forall>p n. map_of (stock s) p = Some n \<longrightarrow> 0 \<le> n)"

lemma init_inventory_wf: "wf_dict items \<Longrightarrow> init_inventory items = Inr s \<Longrightarrow> wf_inventory s"
  by (fastforce simp: init_inventory_def wf_inventory_def list_ex_iff split: if_splits)

lemma reserved_units_snoc [simp]:
  "reserved_units (l @ [c]) p = reserved_units l p + units_taken p c"
  by (simp add: reserved_units_def)

lemma conserved_start: "wf_inventory s0 \<Longrightarrow> conserved s0 [] s0"
  by (auto simp: conserved_def wf_inventory_def reserved_units_def option.map_ident
      dest: map_of_SomeD)

lemma units_taken_other: "r \<noteq> Reserved (Inr True) \<Longrightarrow> units_taken p (t, x, r) = 0"
  by (cases "(p, (t, x, r))" rule: units_taken.cases) auto

lemma conserved_call:
  assumes con: "conserved s0 l s" and call: "exec_meth (inventory_meth x) s = (r, s')"
  shows "conserved s0 (l @ [(t, x, r)]) s'"
proof (cases "r = Reserved (Inr True)")
  case True
  with call obtain p q n where x: "x = Reserve p q" and n: "map_of (stock s) p = Some n" "q \<le> n"
    and s': "s' = s\<lparr>stock := AList.update p (n - q) (stock s)\<rparr>"
    by (cases x) (auto simp: reserve_success)
  from con n have "map_of (stock s0) p = Some (n + reserved_units l p)"
    by (auto simp: conserved_def)
  with con n True x s' show ?thesis
    by (auto simp: conserved_def keys_of_update dest: map_of_Some_keys)
next
  case False
  with call have "s' = s"
    by (cases x) (auto simp: exec_available exec_snapshot dest: reserve_otherwise)
  with con False show ?thesis by (simp add: conserved_def units_taken_other)
qed

interpretation inv_object: lock_protected inventory_meth wf_inventory conserved
  by unfold_locales (auto intro: conserved_start conserved_call)

subsection \<open>Properties\<close>

text \<open>
  C1. Under every interleaving of any number of callers of \<open>reserve\<close>, \<open>available\<close> and
  \<open>snapshot\<close>, whenever the lock is free the stock of each product is its initial count minus
  exactly the units of the reservations that returned true, and it is never negative.
\<close>

theorem stock_is_conserved:
  assumes "wf_dict items" and "init_inventory items = Inr s0"
    and "runs (lock_step inventory_meth) (fresh_object s0) schedule = Some m"
    and "holder m = None"
  shows "map_of (stock (shared m)) p =
           map_option (\<lambda>n. n - reserved_units (log m) p) (map_of items p) \<and>
         (\<forall>n. map_of (stock (shared m)) p = Some n \<longrightarrow> 0 \<le> n)"
proof -
  have "stock s0 = items" using assms(2) by (auto simp: init_inventory_def split: if_splits)
  with inv_object.interleaved[OF init_inventory_wf[OF assms(1,2)] assms(3,4)]
  show ?thesis by (simp add: conserved_def)
qed

text \<open>Two callers ask for three of four units; the second gets none.\<close>

definition two_callers :: "inventory_op sched list" where
  "two_callers =
     [Invoke 0 (Reserve ''sku'' 3), Invoke 1 (Reserve ''sku'' 3), Step 1, Step 1, Step 1, Step 1,
      Step 0, Step 0, Step 0]"

theorem stock_is_conserved_witness:
  "\<exists>m. runs (lock_step inventory_meth) (fresh_object \<lparr>stock = [(''sku'', 4)]\<rparr>) two_callers = Some m \<and>
       holder m = None \<and>
       map_of (stock (shared m)) ''sku'' =
         map_option (\<lambda>n. n - reserved_units (log m) ''sku'') (map_of [(''sku'', 4)] ''sku'') \<and>
       map_of (stock (shared m)) ''sku'' = Some 1"
proof -
  define m where "m = the (runs (lock_step inventory_meth)
    (fresh_object \<lparr>stock = [(''sku'', 4)]\<rparr>) two_callers)"
  have run: "runs (lock_step inventory_meth) (fresh_object \<lparr>stock = [(''sku'', 4)]\<rparr>) two_callers = Some m"
    and free: "holder m = None" and one: "map_of (stock (shared m)) ''sku'' = Some 1"
    by (simp_all add: m_def two_callers_def fresh_object_def reserve_def get_field_def set_field_def
        stock_for_def)
  have init: "init_inventory [(''sku'', 4)] = Inr \<lparr>stock = [(''sku'', 4)]\<rparr>"
    by (simp add: init_inventory_def)
  show ?thesis
    using stock_is_conserved[OF _ init run free, of "''sku''"] run free one by auto
qed

end
