(* ===== verification/Webhook.thy ===== *)
theory Webhook
  imports Locked_Object
begin

section \<open>paymentwebhook: applying each payment event once\<close>

text \<open>
  Models \<^verbatim>\<open>paymentwebhook/processor.py\<close>: the set of processed event IDs and the
  running total, updated under one lock. The specification \<open>first_deliveries\<close> keeps the
  first delivery of each event; the relation \<open>applied_once\<close> says that the state is what
  these deliveries alone would give.
\<close>

subsection \<open>State and methods\<close>

record payment_summary =
  processed_events :: nat
  summary_total :: int

record webhook =
  processed_ids :: "string set"
  total_cents :: int

definition init_webhook :: webhook where
  "init_webhook = \<lparr>processed_ids = {}, total_cents = 0\<rparr>"

definition process :: "string \<Rightarrow> int \<Rightarrow> (webhook, bool result) meth" where
  "process event_id amount_cents =
     (if event_id = '''' then Immediate (Inl (ValueError ''event_id must not be empty''))
      else if amount_cents \<le> 0
        then Immediate (Inl (ValueError ''amount_cents must be greater than zero''))
      else WithLock
        (get_field (\<lambda>s. event_id \<in> processed_ids s) (\<lambda>seen.
           if seen then Return (Inr False)
           else set_field (\<lambda>s. s\<lparr>processed_ids := insert event_id (processed_ids s)\<rparr>)
             (get_field total_cents (\<lambda>total.
                set_field (\<lambda>s. s\<lparr>total_cents := total + amount_cents\<rparr>)
                  (Return (Inr True)))))))"

definition summary :: "(webhook, payment_summary) meth" where
  "summary =
     WithLock (get_field (\<lambda>s. card (processed_ids s)) (\<lambda>n.
       get_field total_cents (\<lambda>total.
         Return \<lparr>processed_events = n, summary_total = total\<rparr>)))"

definition processed_event_ids :: "(webhook, string set) meth" where
  "processed_event_ids = WithLock (get_field processed_ids Return)"

datatype webhook_op =
    Process string int
  | Summary
  | Processed_ids

datatype webhook_reply =
    Applied "bool result"
  | Totals payment_summary
  | Ids "string set"

fun webhook_meth :: "webhook_op \<Rightarrow> (webhook, webhook_reply) meth" where
  "webhook_meth (Process e a) = map_meth Applied (process e a)"
| "webhook_meth Summary = map_meth Totals summary"
| "webhook_meth Processed_ids = map_meth Ids processed_event_ids"

subsection \<open>The effect of each method\<close>

lemma exec_process [op_simps]:
  "exec_meth (process e a) s =
     (if e = '''' then (Inl (ValueError ''event_id must not be empty''), s)
      else if a \<le> 0 then (Inl (ValueError ''amount_cents must be greater than zero''), s)
      else if e \<in> processed_ids s then (Inr False, s)
      else (Inr True, s\<lparr>processed_ids := insert e (processed_ids s),
                        total_cents := total_cents s + a\<rparr>))"
  by (simp add: process_def)

lemma exec_summary [op_simps]:
  "exec_meth summary s =
     (\<lparr>processed_events = card (processed_ids s), summary_total = total_cents s\<rparr>, s)"
  by (simp add: summary_def)

lemma exec_processed_event_ids [op_simps]:
  "exec_meth processed_event_ids s = (processed_ids s, s)"
  by (simp add: processed_event_ids_def)

subsection \<open>Specification: the first delivery of each event\<close>

fun first_deliveries :: "string set \<Rightarrow> (string \<times> int) list \<Rightarrow> (string \<times> int) list" where
  "first_deliveries seen [] = []"
| "first_deliveries seen ((e, a) # ds) =
     (if e \<in> seen then first_deliveries seen ds
      else (e, a) # first_deliveries (insert e seen) ds)"

text \<open>The deliveries of a log that passed validation, in log order.\<close>

fun valid_delivery :: "tid \<times> webhook_op \<times> webhook_reply \<Rightarrow> (string \<times> int) list" where
  "valid_delivery (_, Process e a, Applied (Inr _)) = [(e, a)]"
| "valid_delivery _ = []"

definition deliveries :: "(tid \<times> webhook_op \<times> webhook_reply) list \<Rightarrow> (string \<times> int) list" where
  "deliveries l = concat (map valid_delivery l)"

lemma deliveries_snoc [simp]: "deliveries (l @ [c]) = deliveries l @ valid_delivery c"
  by (simp add: deliveries_def)

lemma first_deliveries_snoc:
  "first_deliveries seen (ds @ [(e, a)]) =
     first_deliveries seen ds @ (if e \<in> seen \<union> fst ` set ds then [] else [(e, a)])"
  by (induction seen ds rule: first_deliveries.induct) auto

lemma set_first_deliveries: "fst ` set (first_deliveries seen ds) = fst ` set ds - seen"
  by (induction seen ds rule: first_deliveries.induct) auto

lemma distinct_first_deliveries: "distinct (map fst (first_deliveries seen ds))"
proof (induction seen ds rule: first_deliveries.induct)
  case (2 seen e a ds)
  have "e \<notin> fst ` set (first_deliveries (insert e seen) ds)"
    by (simp add: set_first_deliveries)
  with 2 show ?case by simp
qed simp

lemma card_first_deliveries: "length (first_deliveries {} ds) = card (fst ` set ds)"
  using distinct_card[OF distinct_first_deliveries[of "{}" ds]] set_first_deliveries[of "{}" ds]
  by simp

definition applied_once ::
  "webhook \<Rightarrow> (tid \<times> webhook_op \<times> webhook_reply) list \<Rightarrow> webhook \<Rightarrow> bool" where
  "applied_once s0 l s \<longleftrightarrow>
     processed_ids s = fst ` set (deliveries l) \<and>
     total_cents s = sum_list (map snd (first_deliveries {} (deliveries l)))"

lemma applied_once_call:
  "applied_once s0 l s \<Longrightarrow> exec_meth (webhook_meth x) s = (r, s') \<Longrightarrow>
   applied_once s0 (l @ [(t, x, r)]) s'"
  by (cases x)
    (auto simp: applied_once_def op_simps first_deliveries_snoc split: if_splits, force)

lemma applied_once_start: "applied_once s0 [] init_webhook"
  by (simp add: applied_once_def init_webhook_def deliveries_def)

interpretation hook: lock_protected webhook_meth "\<lambda>s0. s0 = init_webhook" applied_once
  by unfold_locales (auto intro: applied_once_start applied_once_call)

subsection \<open>Properties\<close>

text \<open>
  C10. Under every interleaving of workers that deliver payment events, repeated ones included,
  the total is the sum of the amounts of the first delivery of each event, and the processed
  IDs and the count that \<open>summary\<close> reports are those of these first deliveries.
\<close>

theorem payments_applied_once:
  assumes "runs (lock_step webhook_meth) (fresh_object init_webhook) schedule = Some m"
    and "holder m = None"
  shows "total_cents (shared m) = sum_list (map snd (first_deliveries {} (deliveries (log m)))) \<and>
         processed_ids (shared m) = fst ` set (deliveries (log m)) \<and>
         fst (exec_meth summary (shared m)) =
           \<lparr>processed_events = length (first_deliveries {} (deliveries (log m))),
            summary_total = sum_list (map snd (first_deliveries {} (deliveries (log m))))\<rparr>"
  using hook.interleaved[OF refl assms]
  by (simp add: applied_once_def op_simps card_first_deliveries)

text \<open>Two workers deliver the same event; a third delivers another.\<close>

definition redelivery :: "webhook_op sched list" where
  "redelivery =
     [Invoke 0 (Process ''evt_1'' 500), Invoke 1 (Process ''evt_1'' 500),
      Invoke 2 (Process ''evt_2'' 250)] @
     replicate 6 (Step 1) @ replicate 3 (Step 0) @ replicate 6 (Step 2)"

theorem payments_applied_once_witness:
  "\<exists>m. runs (lock_step webhook_meth) (fresh_object init_webhook) redelivery = Some m \<and>
       holder m = None \<and> total_cents (shared m) = 750 \<and>
       total_cents (shared m) = sum_list (map snd (first_deliveries {} (deliveries (log m))))"
proof -
  define m where "m = the (runs (lock_step webhook_meth) (fresh_object init_webhook) redelivery)"
  have run: "runs (lock_step webhook_meth) (fresh_object init_webhook) redelivery = Some m"
    and free: "holder m = None" and total: "total_cents (shared m) = 750"
    by (simp_all add: m_def redelivery_def fresh_object_def process_def get_field_def
        set_field_def init_webhook_def eval_nat_numeral)
  from payments_applied_once[OF run free] run free total show ?thesis by blast
qed

end
