(* ===== verification/Leaderboard.thy ===== *)
theory Leaderboard
  imports Locked_Object "HOL-Library.Char_ord" "HOL-Library.List_Lexorder"
    "HOL-Library.Product_Lexorder"
begin

section \<open>leaderboard: best scores and rankings\<close>

text \<open>
  Models \<^verbatim>\<open>leaderboard/scores.py\<close>: a dictionary from players to their best score,
  and \<open>top\<close>, which sorts its items by descending score and ascending player ID. Strings and
  pairs are compared lexicographically, as Python compares them.
\<close>

subsection \<open>State and methods\<close>

record score_entry =
  player_id :: string
  score :: int

record leaderboard =
  scores :: "(string, int) dict"

definition init_leaderboard :: leaderboard where
  "init_leaderboard = \<lparr>scores = []\<rparr>"

definition record_score :: "string \<Rightarrow> int \<Rightarrow> (leaderboard, unit result) meth" where
  "record_score player new_score =
     (if player = '''' then Immediate (Inl (ValueError ''player_id must not be empty''))
      else if new_score < 0 then Immediate (Inl (ValueError ''score must not be negative''))
      else WithLock
        (get_field (\<lambda>s. map_of (scores s) player) (\<lambda>previous_score.
           if previous_score = None \<or> new_score > the previous_score
           then set_field (\<lambda>s. s\<lparr>scores := AList.update player new_score (scores s)\<rparr>)
                  (Return (Inr ()))
           else Return (Inr ()))))"

definition score_for :: "string \<Rightarrow> (leaderboard, int option result) meth" where
  "score_for player =
     (if player = '''' then Immediate (Inl (ValueError ''player_id must not be empty''))
      else WithLock (get_field (\<lambda>s. map_of (scores s) player) (\<lambda>v. Return (Inr v))))"

definition rank_key :: "string \<times> int \<Rightarrow> int \<times> string" where
  "rank_key item = (- snd item, fst item)"

definition to_entry :: "string \<times> int \<Rightarrow> score_entry" where
  "to_entry item = \<lparr>player_id = fst item, score = snd item\<rparr>"

definition top_scores :: "int \<Rightarrow> (leaderboard, score_entry list result) meth" where
  "top_scores limit =
     (if limit \<le> 0 then Immediate (Inl (ValueError ''limit must be greater than zero''))
      else WithLock
        (get_field scores (\<lambda>items.
           Return (Inr (map to_entry (take (nat limit) (sort_key rank_key items)))))))"

definition scores_snapshot :: "(leaderboard, (string, int) dict) meth" where
  "scores_snapshot = WithLock (get_field scores Return)"

datatype leaderboard_op =
    Record string int
  | Score_for string
  | Top int
  | Scores

datatype leaderboard_reply =
    Recorded "unit result"
  | Best "int option result"
  | Ranking "score_entry list result"
  | All_scores "(string, int) dict"

fun leaderboard_meth :: "leaderboard_op \<Rightarrow> (leaderboard, leaderboard_reply) meth" where
  "leaderboard_meth (Record p n) = map_meth Recorded (record_score p n)"
| "leaderboard_meth (Score_for p) = map_meth Best (score_for p)"
| "leaderboard_meth (Top k) = map_meth Ranking (top_scores k)"
| "leaderboard_meth Scores = map_meth All_scores scores_snapshot"

subsection \<open>The effect of each method\<close>

lemma exec_record_score [op_simps]:
  "exec_meth (record_score p n) s =
     (if p = '''' then (Inl (ValueError ''player_id must not be empty''), s)
      else if n < 0 then (Inl (ValueError ''score must not be negative''), s)
      else case map_of (scores s) p of
             None \<Rightarrow> (Inr (), s\<lparr>scores := AList.update p n (scores s)\<rparr>)
           | Some k \<Rightarrow> if n > k then (Inr (), s\<lparr>scores := AList.update p n (scores s)\<rparr>)
                        else (Inr (), s))"
  by (auto simp: record_score_def split: option.split)

lemma exec_score_for [op_simps]:
  "exec_meth (score_for p) s =
     (if p = '''' then (Inl (ValueError ''player_id must not be empty''), s)
      else (Inr (map_of (scores s) p), s))"
  by (simp add: score_for_def)

lemma exec_top_scores [op_simps]:
  "exec_meth (top_scores k) s =
     (if k \<le> 0 then (Inl (ValueError ''limit must be greater than zero''), s)
      else (Inr (map to_entry (take (nat k) (sort_key rank_key (scores s)))), s))"
  by (simp add: top_scores_def)

lemma exec_scores_snapshot [op_simps]: "exec_meth scores_snapshot s = (scores s, s)"
  by (simp add: scores_snapshot_def)

subsection \<open>Specification: the highest recorded score\<close>

text \<open>The scores of a player that a log recorded after validation.\<close>

fun recorded_score :: "string \<Rightarrow> tid \<times> leaderboard_op \<times> leaderboard_reply \<Rightarrow> int set" where
  "recorded_score p (_, Record p' n, Recorded (Inr _)) = (if p' = p then {n} else {})"
| "recorded_score p _ = {}"

definition recorded ::
  "(tid \<times> leaderboard_op \<times> leaderboard_reply) list \<Rightarrow> string \<Rightarrow> int set" where
  "recorded l p = (\<Union>c \<in> set l. recorded_score p c)"

definition best_of :: "int set \<Rightarrow> int option" where
  "best_of A = (if A = {} then None else Some (Max A))"

definition best_scores ::
  "leaderboard \<Rightarrow> (tid \<times> leaderboard_op \<times> leaderboard_reply) list \<Rightarrow> leaderboard \<Rightarrow> bool" where
  "best_scores s0 l s \<longleftrightarrow>
     wf_dict (scores s) \<and> (\<forall>p. finite (recorded l p)) \<and>
     (\<forall>p. map_of (scores s) p = best_of (recorded l p))"

lemma recorded_snoc [simp]: "recorded (l @ [c]) p = recorded l p \<union> recorded_score p c"
  by (auto simp: recorded_def)

lemma recorded_score_other:
  "(\<And>n. r = Recorded (Inr ()) \<Longrightarrow> x \<noteq> Record p n) \<Longrightarrow> recorded_score p (t, x, r) = {}"
  by (cases "(p, (t, x, r))" rule: recorded_score.cases) auto

lemma best_of_insert:
  "finite A \<Longrightarrow> best_of (insert n A) =
     (case best_of A of None \<Rightarrow> Some n | Some k \<Rightarrow> Some (max n k))"
  by (simp add: best_of_def)

lemma best_scores_record:
  assumes "best_scores s0 l s" and "exec_meth (record_score p n) s = (r, s')"
  shows "best_scores s0 (l @ [(t, Record p n, Recorded r)]) s'"
proof (cases r)
  case (Inl e)
  with assms show ?thesis
    by (auto simp: best_scores_def op_simps split: if_splits option.splits)
next
  case (Inr u)
  with assms have valid: "p \<noteq> ''''" "0 \<le> n" by (auto simp: op_simps split: if_splits)
  from assms(1) have best: "map_of (scores s) p = best_of (recorded l p)"
    and fin: "finite (recorded l p)" by (auto simp: best_scores_def)
  show ?thesis
  proof (cases "map_of (scores s) p")
    case None
    with assms valid Inr best fin show ?thesis
      by (auto simp: best_scores_def op_simps best_of_insert)
  next
    case (Some k)
    with assms valid Inr best fin show ?thesis
      by (auto simp: best_scores_def op_simps best_of_insert max_def split: if_splits)
  qed
qed

lemma best_scores_call:
  assumes "best_scores s0 l s" and "exec_meth (leaderboard_meth x) s = (r, s')"
  shows "best_scores s0 (l @ [(t, x, r)]) s'"
proof (cases x)
  case (Record p n)
  with assms best_scores_record show ?thesis by fastforce
qed (use assms in \<open>auto simp: best_scores_def op_simps split: if_splits\<close>)

lemma best_scores_start: "best_scores s0 [] init_leaderboard"
  by (simp add: best_scores_def init_leaderboard_def recorded_def best_of_def)

interpretation board: lock_protected leaderboard_meth "\<lambda>s0. s0 = init_leaderboard" best_scores
  by unfold_locales (auto intro: best_scores_start best_scores_call)

subsection \<open>Rankings\<close>

definition ranks_before :: "score_entry \<Rightarrow> score_entry \<Rightarrow> bool" where
  "ranks_before a b \<longleftrightarrow>
     score b < score a \<or> score a = score b \<and> player_id a < player_id b"

lemma rank_key_less: "rank_key a < rank_key b \<longleftrightarrow> ranks_before (to_entry a) (to_entry b)"
  by (auto simp: rank_key_def ranks_before_def to_entry_def less_prod_def)

lemma inj_rank_key: "inj rank_key"
  by (rule injI) (auto simp: rank_key_def prod_eq_iff)

lemma ranking_strict:
  assumes "wf_dict d"
  shows "sorted_wrt ranks_before (map to_entry (sort_key rank_key d))"
proof -
  have "distinct (map rank_key (sort_key rank_key d))"
    using assms inj_on_subset[OF inj_rank_key, of "set d"] by (simp add: distinct_map)
  then have "sorted_wrt (<) (map rank_key (sort_key rank_key d))"
    by (simp add: strict_sorted_iff)
  then show ?thesis by (simp add: sorted_wrt_map rank_key_less)
qed

lemma sorted_wrt_split:
  "sorted_wrt P xs \<Longrightarrow> a \<in> set (take k xs) \<Longrightarrow> b \<in> set (drop k xs) \<Longrightarrow> P a b"
  by (metis append_take_drop_id sorted_wrt_append)

subsection \<open>Properties\<close>

text \<open>
  Under every interleaving of callers, each player's stored score is the highest score ever
  recorded for that player, and a player with no accepted score is not on the board.
\<close>

lemma best_score_kept:
  assumes "runs (lock_step leaderboard_meth) (fresh_object init_leaderboard) schedule = Some m"
    and "holder m = None"
  shows "map_of (scores (shared m)) p =
           (if recorded (log m) p = {} then None else Some (Max (recorded (log m) p)))"
  using board.interleaved[OF refl assms] by (simp add: best_scores_def best_of_def)

definition three_scores :: "leaderboard_op sched list" where
  "three_scores =
     [Invoke 0 (Record ''ada'' 7), Invoke 1 (Record ''ada'' 9), Invoke 2 (Record ''bob'' 9)] @
     replicate 4 (Step 1) @ replicate 3 (Step 0) @ replicate 4 (Step 2)"

lemma best_score_kept_witness:
  "\<exists>m. runs (lock_step leaderboard_meth) (fresh_object init_leaderboard) three_scores = Some m \<and>
       holder m = None \<and> map_of (scores (shared m)) ''ada'' = Some 9 \<and>
       map_of (scores (shared m)) ''ada'' = Some (Max (recorded (log m) ''ada''))"
proof -
  define m where "m = the (runs (lock_step leaderboard_meth) (fresh_object init_leaderboard) three_scores)"
  have run: "runs (lock_step leaderboard_meth) (fresh_object init_leaderboard) three_scores = Some m"
    and free: "holder m = None" and nine: "map_of (scores (shared m)) ''ada'' = Some 9"
    by (simp_all add: m_def three_scores_def fresh_object_def record_score_def get_field_def
        set_field_def init_leaderboard_def eval_nat_numeral)
  from best_score_kept[OF run free, of "''ada''"] nine run free show ?thesis
    by (metis option.distinct(1))
qed

text \<open>
  C37. \<open>top(limit)\<close> returns the strict ranking's first \<open>limit\<close> entries: they are entries of the
  board in strictly ranked order, there are as many as the limit or the board allows, and every
  entry that is left out ranks after every entry that is returned.
\<close>

theorem top_is_best:
  assumes "wf_dict (scores s)" and "0 < limit"
    and "exec_meth (top_scores limit) s = (Inr best, s')"
  shows "s' = s \<and> sorted_wrt ranks_before best \<and>
         set best \<subseteq> to_entry ` set (scores s) \<and>
         length best = min (nat limit) (length (scores s)) \<and>
         (\<forall>a \<in> set best. \<forall>b \<in> to_entry ` set (scores s) - set best. ranks_before a b)"
proof -
  let ?ranking = "map to_entry (sort_key rank_key (scores s))"
  from assms(2,3) have s': "s' = s" and best: "best = take (nat limit) ?ranking"
    by (auto simp: op_simps take_map)
  have strict: "sorted_wrt ranks_before ?ranking" by (rule ranking_strict[OF assms(1)])
  have entries: "set ?ranking = to_entry ` set (scores s)" by simp
  have "ranks_before a b" if "a \<in> set best" "b \<in> set ?ranking - set best" for a b
  proof (rule sorted_wrt_split[OF strict])
    show "a \<in> set (take (nat limit) ?ranking)" using that best by simp
    from that(2) have "b \<in> set (take (nat limit) ?ranking @ drop (nat limit) ?ranking)" by simp
    then show "b \<in> set (drop (nat limit) ?ranking)" using that(2) best by (simp only: set_append) blast
  qed
  moreover have "set best \<subseteq> set ?ranking" unfolding best by (rule set_take_subset)
  moreover have "sorted_wrt ranks_before best" using strict best by (simp add: sorted_wrt_take)
  ultimately show ?thesis using s' best entries by (simp add: min.commute)
qed

theorem top_is_best_witness:
  "exec_meth (top_scores 2) \<lparr>scores = [(''bob'', 9), (''eve'', 3), (''ada'', 9)]\<rparr> =
     (Inr [\<lparr>player_id = ''ada'', score = 9\<rparr>, \<lparr>player_id = ''bob'', score = 9\<rparr>],
      \<lparr>scores = [(''bob'', 9), (''eve'', 3), (''ada'', 9)]\<rparr>) \<and>
   sorted_wrt ranks_before [\<lparr>player_id = ''ada'', score = 9\<rparr>, \<lparr>player_id = ''bob'', score = 9\<rparr>]"
proof -
  have run: "exec_meth (top_scores 2) \<lparr>scores = [(''bob'', 9), (''eve'', 3), (''ada'', 9)]\<rparr> =
     (Inr [\<lparr>player_id = ''ada'', score = 9\<rparr>, \<lparr>player_id = ''bob'', score = 9\<rparr>],
      \<lparr>scores = [(''bob'', 9), (''eve'', 3), (''ada'', 9)]\<rparr>)"
    by (simp add: op_simps rank_key_def to_entry_def less_eq_prod_def less_eq_list_code less_char_def)
  from top_is_best[OF _ _ run] run show ?thesis by simp
qed

end
