(* ===== verification/Feature_Flags.thy ===== *)
theory Feature_Flags
  imports Locked_Object
begin

section \<open>featureflags: a flag snapshot behind a reentrant lock\<close>

text \<open>
  Models \<^verbatim>\<open>featureflags/flags.py\<close>. The lock is a \<open>threading.RLock\<close>: its owner may
  acquire it again, and it is free only when it has been released as often. The machine's
  holder is the owner; \<open>depth\<close> is the owner's recursion level, which \<open>enabled_flags\<close> raises
  to two while it calls \<open>is_enabled\<close> for each name.
\<close>

subsection \<open>State and methods\<close>

record feature_flags =
  flags :: "(string, bool) dict"
  depth :: nat

definition validate_flags :: "(string, bool) dict \<Rightarrow> unit result" where
  "validate_flags items =
     (if list_ex (\<lambda>(name, _). name = '''') items
      then Inl (ValueError ''flag names must not be empty'') else Inr ())"

definition init_flags :: "(string, bool) dict \<Rightarrow> feature_flags result" where
  "init_flags items =
     (case validate_flags items of
        Inl e \<Rightarrow> Inl e
      | Inr _ \<Rightarrow> Inr \<lparr>flags = items, depth = 0\<rparr>)"

definition rlock_enter :: "(feature_flags, 'r) body \<Rightarrow> (feature_flags, 'r) body" where
  "rlock_enter = set_field (\<lambda>s. s\<lparr>depth := depth s + 1\<rparr>)"

definition rlock_exit :: "(feature_flags, 'r) body \<Rightarrow> (feature_flags, 'r) body" where
  "rlock_exit = set_field (\<lambda>s. s\<lparr>depth := depth s - 1\<rparr>)"

text \<open>The block of \<open>is_enabled\<close>, with what its caller does with the result.\<close>

definition is_enabled_block ::
  "string \<Rightarrow> (bool result \<Rightarrow> (feature_flags, 'r) body) \<Rightarrow> (feature_flags, 'r) body" where
  "is_enabled_block name k =
     (if name = '''' then k (Inl (ValueError ''flag name must not be empty''))
      else rlock_enter (get_field (\<lambda>s. map_of (flags s) name) (\<lambda>found.
             rlock_exit (k (Inr (case found of None \<Rightarrow> False | Some enabled \<Rightarrow> enabled))))))"

definition is_enabled :: "string \<Rightarrow> (feature_flags, bool result) meth" where
  "is_enabled name =
     (if name = '''' then Immediate (Inl (ValueError ''flag name must not be empty''))
      else WithLock (is_enabled_block name Return))"

definition replace_all :: "(string, bool) dict \<Rightarrow> (feature_flags, unit result) meth" where
  "replace_all items =
     (case validate_flags items of
        Inl e \<Rightarrow> Immediate (Inl e)
      | Inr _ \<Rightarrow> WithLock (rlock_enter
          (set_field (\<lambda>s. s\<lparr>flags := items\<rparr>) (rlock_exit (Return (Inr ()))))))"

fun collect_enabled ::
  "string list \<Rightarrow> string set \<Rightarrow> (feature_flags, string set result) body" where
  "collect_enabled [] names = rlock_exit (Return (Inr names))"
| "collect_enabled (name # rest) names =
     is_enabled_block name (\<lambda>r.
       case r of
         Inl e \<Rightarrow> rlock_exit (Return (Inl e))
       | Inr enabled \<Rightarrow> collect_enabled rest (if enabled then insert name names else names))"

definition enabled_flags :: "(feature_flags, string set result) meth" where
  "enabled_flags =
     WithLock (rlock_enter
       (get_field (\<lambda>s. keys_of (flags s)) (\<lambda>names. collect_enabled names {})))"

definition flags_snapshot :: "(feature_flags, (string, bool) dict) meth" where
  "flags_snapshot = WithLock (rlock_enter (get_field flags (\<lambda>d. rlock_exit (Return d))))"

datatype flags_op =
    Is_enabled string
  | Replace_all "(string, bool) dict"
  | Enabled_flags
  | Flags_snapshot

datatype flags_reply =
    Enabled "bool result"
  | Replaced "unit result"
  | Names "string set result"
  | Flags "(string, bool) dict"

fun flags_meth :: "flags_op \<Rightarrow> (feature_flags, flags_reply) meth" where
  "flags_meth (Is_enabled name) = map_meth Enabled (is_enabled name)"
| "flags_meth (Replace_all items) = map_meth Replaced (replace_all items)"
| "flags_meth Enabled_flags = map_meth Names enabled_flags"
| "flags_meth Flags_snapshot = map_meth Flags flags_snapshot"

subsection \<open>The effect of each method\<close>

definition flag_on :: "(string, bool) dict \<Rightarrow> string \<Rightarrow> bool" where
  "flag_on d name = (map_of d name = Some True)"

definition enabled_names :: "(string, bool) dict \<Rightarrow> string set" where
  "enabled_names d = {name. flag_on d name}"

lemma flag_default:
  "(case map_of d name of None \<Rightarrow> False | Some enabled \<Rightarrow> enabled) = flag_on d name"
  by (auto simp: flag_on_def split: option.split)

lemma exec_rlock_enter [simp]:
  "exec_body (rlock_enter b) s = exec_body b (s\<lparr>depth := depth s + 1\<rparr>)"
  by (simp add: rlock_enter_def)

lemma exec_rlock_exit [simp]:
  "exec_body (rlock_exit b) s = exec_body b (s\<lparr>depth := depth s - 1\<rparr>)"
  by (simp add: rlock_exit_def)

lemma exec_is_enabled_block [simp]:
  "name \<noteq> '''' \<Longrightarrow>
   exec_body (is_enabled_block name k) s = exec_body (k (Inr (flag_on (flags s) name))) s"
  by (simp add: is_enabled_block_def flag_default)

lemma exec_is_enabled [op_simps]:
  "exec_meth (is_enabled name) s =
     (if name = '''' then (Inl (ValueError ''flag name must not be empty''), s)
      else (Inr (flag_on (flags s) name), s))"
  by (simp add: is_enabled_def)

lemma exec_replace_all [op_simps]:
  "exec_meth (replace_all items) s =
     (if '''' \<in> set (keys_of items)
      then (Inl (ValueError ''flag names must not be empty''), s)
      else (Inr (), s\<lparr>flags := items\<rparr>))"
  by (auto simp: replace_all_def validate_flags_def)

lemma exec_collect_enabled:
  "'''' \<notin> set names \<Longrightarrow>
   exec_body (collect_enabled names acc) s =
     (Inr (acc \<union> {name \<in> set names. flag_on (flags s) name}), s\<lparr>depth := depth s - 1\<rparr>)"
  by (induction names arbitrary: acc) auto

lemma exec_enabled_flags [op_simps]:
  assumes "'''' \<notin> set (keys_of (flags s))"
  shows "exec_meth enabled_flags s = (Inr (enabled_names (flags s)), s)"
proof -
  have "{name \<in> set (keys_of (flags s)). flag_on (flags s) name} = enabled_names (flags s)"
    by (auto simp: enabled_names_def flag_on_def dest: map_of_Some_keys)
  with assms show ?thesis by (simp add: enabled_flags_def exec_collect_enabled)
qed

lemma exec_flags_snapshot [op_simps]: "exec_meth flags_snapshot s = (flags s, s)"
  by (simp add: flags_snapshot_def)

subsection \<open>Specification: the flags that the last accepted refresh installed\<close>

fun refreshed ::
  "(string, bool) dict \<Rightarrow> tid \<times> flags_op \<times> flags_reply \<Rightarrow> (string, bool) dict" where
  "refreshed d (_, Replace_all items, Replaced (Inr _)) = items"
| "refreshed d _ = d"

definition installed_flags ::
  "(string, bool) dict \<Rightarrow> (tid \<times> flags_op \<times> flags_reply) list \<Rightarrow> (string, bool) dict" where
  "installed_flags d l = foldl refreshed d l"

fun reads_snapshot :: "(string, bool) dict \<Rightarrow> flags_op \<Rightarrow> flags_reply \<Rightarrow> bool" where
  "reads_snapshot d Enabled_flags r = (r = Names (Inr (enabled_names d)))"
| "reads_snapshot d Flags_snapshot r = (r = Flags d)"
| "reads_snapshot d (Is_enabled name) r = (name \<noteq> '''' \<longrightarrow> r = Enabled (Inr (flag_on d name)))"
| "reads_snapshot d (Replace_all items) r = True"

definition snapshot_reads ::
  "feature_flags \<Rightarrow> (tid \<times> flags_op \<times> flags_reply) list \<Rightarrow> feature_flags \<Rightarrow> bool" where
  "snapshot_reads s0 l s \<longleftrightarrow>
     flags s = installed_flags (flags s0) l \<and> depth s = 0 \<and> '''' \<notin> set (keys_of (flags s)) \<and>
     (\<forall>l1 t x r l2. l = l1 @ (t, x, r) # l2 \<longrightarrow>
        reads_snapshot (installed_flags (flags s0) l1) x r)"

definition flags_start :: "feature_flags \<Rightarrow> bool" where
  "flags_start s \<longleftrightarrow> depth s = 0 \<and> '''' \<notin> set (keys_of (flags s))"

lemma init_flags_start: "init_flags items = Inr s \<Longrightarrow> flags_start s \<and> flags s = items"
  by (auto simp: init_flags_def validate_flags_def flags_start_def split: if_splits)

lemma installed_flags_snoc [simp]:
  "installed_flags d (l @ [c]) = refreshed (installed_flags d l) c"
  by (simp add: installed_flags_def)

lemma flags_call_effect:
  assumes "depth s = 0" and "'''' \<notin> set (keys_of (flags s))"
    and "exec_meth (flags_meth x) s = (r, s')"
  shows "flags s' = refreshed (flags s) (t, x, r) \<and> depth s' = 0 \<and>
         '''' \<notin> set (keys_of (flags s')) \<and> reads_snapshot (flags s) x r"
  using assms by (cases x) (auto simp: op_simps split: if_splits)

lemma snapshot_reads_call:
  assumes rel: "snapshot_reads s0 l s" and call: "exec_meth (flags_meth x) s = (r, s')"
  shows "snapshot_reads s0 (l @ [(t, x, r)]) s'"
proof -
  from rel have cur: "flags s = installed_flags (flags s0) l" "depth s = 0"
    "'''' \<notin> set (keys_of (flags s))" by (auto simp: snapshot_reads_def)
  from flags_call_effect[OF cur(2,3) call, of t] cur(1)
  have eff: "flags s' = installed_flags (flags s0) (l @ [(t, x, r)])" "depth s' = 0"
    "'''' \<notin> set (keys_of (flags s'))" "reads_snapshot (installed_flags (flags s0) l) x r"
    by auto
  have "reads_snapshot (installed_flags (flags s0) l1) y q"
    if "l @ [(t, x, r)] = l1 @ (u, y, q) # l2" for l1 u y q l2
  proof (cases l2 rule: rev_cases)
    case Nil
    with that eff(4) show ?thesis by simp
  next
    case (snoc l2' c)
    with that rel show ?thesis by (auto simp: snapshot_reads_def)
  qed
  with eff(1-3) show ?thesis unfolding snapshot_reads_def by blast
qed

lemma snapshot_reads_start: "flags_start s0 \<Longrightarrow> snapshot_reads s0 [] s0"
  by (simp add: snapshot_reads_def flags_start_def installed_flags_def)

interpretation flag_object: lock_protected flags_meth flags_start snapshot_reads
  by unfold_locales (auto intro: snapshot_reads_start snapshot_reads_call)

subsection \<open>Properties\<close>

text \<open>
  C35. Under every interleaving of readers and refreshers, each completed read answers from one
  whole snapshot, the one installed by the last accepted \<open>replace_all\<close> before it:
  \<open>enabled_flags\<close>, which takes the lock again for every name, never mixes two snapshots and
  never raises.
\<close>

theorem reads_one_snapshot:
  assumes "init_flags items = Inr s0"
    and "runs (lock_step flags_meth) (fresh_object s0) schedule = Some m"
    and "log m = before @ (t, x, r) # after"
  shows "(x = Enabled_flags \<longrightarrow> r = Names (Inr (enabled_names (installed_flags items before)))) \<and>
         (x = Flags_snapshot \<longrightarrow> r = Flags (installed_flags items before)) \<and>
         (\<forall>name. x = Is_enabled name \<and> name \<noteq> '''' \<longrightarrow>
            r = Enabled (Inr (flag_on (installed_flags items before) name)))"
proof -
  from init_flags_start[OF assms(1)] have start: "flags_start s0" and items: "flags s0 = items"
    by auto
  from flag_object.interleaved_always[OF start assms(2)] assms(3) items
  have "reads_snapshot (installed_flags items before) x r"
    by (auto simp: snapshot_reads_def)
  then show ?thesis by auto
qed

text \<open>A refresh arrives while \<open>enabled_flags\<close> is under way; it has to wait.\<close>

definition refresh_during_read :: "flags_op sched list" where
  "refresh_during_read =
     [Invoke 0 Enabled_flags, Invoke 1 (Replace_all [(''b'', True)])] @
     replicate 11 (Step 0) @ replicate 5 (Step 1)"

theorem reads_one_snapshot_witness:
  "\<exists>m s0. init_flags [(''a'', True), (''b'', False)] = Inr s0 \<and>
     runs (lock_step flags_meth) (fresh_object s0) refresh_during_read = Some m \<and>
     log m = [(0, Enabled_flags, Names (Inr {''a''})),
              (1, Replace_all [(''b'', True)], Replaced (Inr ()))] \<and>
     Names (Inr {''a''}) =
       Names (Inr (enabled_names (installed_flags [(''a'', True), (''b'', False)] [])))"
proof -
  let ?items = "[(''a'', True), (''b'', False)]"
  let ?s0 = "\<lparr>flags = ?items, depth = 0\<rparr>"
  define m where "m = the (runs (lock_step flags_meth) (fresh_object ?s0) refresh_during_read)"
  have init: "init_flags ?items = Inr ?s0" by (simp add: init_flags_def validate_flags_def)
  have run: "runs (lock_step flags_meth) (fresh_object ?s0) refresh_during_read = Some m"
    and log: "log m = [] @ (0, Enabled_flags, Names (Inr {''a''})) #
              [(1, Replace_all [(''b'', True)], Replaced (Inr ()))]"
    by (simp_all add: m_def refresh_during_read_def fresh_object_def enabled_flags_def
        is_enabled_block_def replace_all_def validate_flags_def rlock_enter_def rlock_exit_def
        get_field_def set_field_def eval_nat_numeral)
  from reads_one_snapshot[OF init run log] init run log show ?thesis by auto
qed

end
