(* ===== verification/Seat_Booking.thy ===== *)
theory Seat_Booking
  imports Locked_Object
begin

section \<open>asyncseatbooking: one booking per seat\<close>

text \<open>
  Models \<^verbatim>\<open>asyncseatbooking/booking.py\<close>. The lock is an \<open>asyncio.Lock\<close> and the
  callers are tasks of one event loop; a task switch can happen at fewer points than a thread
  switch, so every execution is one of the interleavings of the lock machine. Two
  dictionaries hold the bookings, by booking ID and by seat; \<open>seats_consistent\<close> says that
  they agree, and \<open>owner_of\<close> is the one abstract map that they represent together.
\<close>

subsection \<open>State and methods\<close>

record seat_booking =
  booking_id :: string
  customer_id :: string
  seat_id :: string

record booking_state =
  seat_ids :: "string set"
  bookings_by_id :: "(string, seat_booking) dict"
  booking_ids_by_seat :: "(string, string) dict"

definition init_booking :: "string set \<Rightarrow> booking_state result" where
  "init_booking ids =
     (if ids = {} then Inl (ValueError ''seat_ids must not be empty'')
      else if '''' \<in> ids then Inl (ValueError ''seat_ids must not contain empty values'')
      else Inr \<lparr>seat_ids = ids, bookings_by_id = [], booking_ids_by_seat = []\<rparr>)"

text \<open>
  The set of seats is frozen when the object is built, so \<open>book\<close> and \<open>booking_for_seat\<close>
  read it without the lock.
\<close>

definition book ::
  "string set \<Rightarrow> string \<Rightarrow> string \<Rightarrow> string \<Rightarrow> (booking_state, bool result) meth" where
  "book known booking customer seat =
     (if booking = '''' then Immediate (Inl (ValueError ''booking_id must not be empty''))
      else if customer = '''' then Immediate (Inl (ValueError ''customer_id must not be empty''))
      else if seat \<notin> known then Immediate (Inl (ValueError ''seat_id must be a known seat''))
      else WithLock
        (get_field (\<lambda>s. map_of (bookings_by_id s) booking) (\<lambda>used.
           if used \<noteq> None then Return (Inr False)
           else get_field (\<lambda>s. map_of (booking_ids_by_seat s) seat) (\<lambda>taken.
             if taken \<noteq> None then Return (Inr False)
             else set_field (\<lambda>s. s\<lparr>bookings_by_id :=
                      AList.update booking
                        \<lparr>booking_id = booking, customer_id = customer, seat_id = seat\<rparr>
                        (bookings_by_id s)\<rparr>)
                  (set_field (\<lambda>s. s\<lparr>booking_ids_by_seat :=
                      AList.update seat booking (booking_ids_by_seat s)\<rparr>)
                    (Return (Inr True)))))))"

definition cancel :: "string \<Rightarrow> (booking_state, bool result) meth" where
  "cancel booking =
     (if booking = '''' then Immediate (Inl (ValueError ''booking_id must not be empty''))
      else WithLock
        (get_field (\<lambda>s. map_of (bookings_by_id s) booking) (\<lambda>found.
           set_field (\<lambda>s. s\<lparr>bookings_by_id := AList.delete booking (bookings_by_id s)\<rparr>)
             (case found of
                None \<Rightarrow> Return (Inr False)
              | Some b \<Rightarrow>
                  get_field (\<lambda>s. map_of (booking_ids_by_seat s) (seat_id b)) (\<lambda>entry.
                    if entry = None then Return (Inl (KeyError (py_repr (seat_id b))))
                    else set_field (\<lambda>s. s\<lparr>booking_ids_by_seat :=
                             AList.delete (seat_id b) (booking_ids_by_seat s)\<rparr>)
                           (Return (Inr True)))))))"

definition booking_for_seat ::
  "string set \<Rightarrow> string \<Rightarrow> (booking_state, seat_booking option result) meth" where
  "booking_for_seat known seat =
     (if seat \<notin> known then Immediate (Inl (ValueError ''seat_id must be a known seat''))
      else WithLock
        (get_field (\<lambda>s. map_of (booking_ids_by_seat s) seat) (\<lambda>found.
           case found of
             None \<Rightarrow> Return (Inr None)
           | Some booking \<Rightarrow>
               get_field (\<lambda>s. map_of (bookings_by_id s) booking) (\<lambda>b.
                 case b of
                   None \<Rightarrow> Return (Inl (KeyError (py_repr booking)))
                 | Some b' \<Rightarrow> Return (Inr (Some b'))))))"

definition booked_seats :: "(booking_state, string set) meth" where
  "booked_seats =
     WithLock (get_field (\<lambda>s. set (keys_of (booking_ids_by_seat s))) Return)"

definition available_seats :: "(booking_state, string set) meth" where
  "available_seats =
     WithLock (get_field (\<lambda>s. seat_ids s - set (keys_of (booking_ids_by_seat s))) Return)"

datatype booking_op =
    Book string string string
  | Cancel string
  | Booking_for_seat string
  | Booked_seats
  | Available_seats

datatype booking_reply =
    Booked "bool result"
  | Cancelled "bool result"
  | Booking "seat_booking option result"
  | Seats "string set"

fun booking_meth :: "string set \<Rightarrow> booking_op \<Rightarrow> (booking_state, booking_reply) meth" where
  "booking_meth known (Book b c st) = map_meth Booked (book known b c st)"
| "booking_meth known (Cancel b) = map_meth Cancelled (cancel b)"
| "booking_meth known (Booking_for_seat st) = map_meth Booking (booking_for_seat known st)"
| "booking_meth known Booked_seats = map_meth Seats booked_seats"
| "booking_meth known Available_seats = map_meth Seats available_seats"

subsection \<open>Invariant and abstraction\<close>

text \<open>The two dictionaries, read as maps, are inverse to each other.\<close>

definition agree :: "string set \<Rightarrow> (string \<rightharpoonup> seat_booking) \<Rightarrow> (string \<rightharpoonup> string) \<Rightarrow> bool" where
  "agree known f g \<longleftrightarrow>
     (\<forall>i b. f i = Some b \<longrightarrow> booking_id b = i \<and> seat_id b \<in> known \<and> g (seat_id b) = Some i) \<and>
     (\<forall>st i. g st = Some i \<longrightarrow> (\<exists>b. f i = Some b \<and> seat_id b = st))"

lemma agree_book:
  assumes "agree known f g" and "f i = None" "g st = None" and "st \<in> known"
    and "booking_id bk = i" "seat_id bk = st"
  shows "agree known (f(i \<mapsto> bk)) (g(st \<mapsto> i))"
proof -
  from assms(1,3) have "seat_id b \<noteq> st" if "f j = Some b" for j b
    using that by (auto simp: agree_def)
  moreover from assms(1,2) have "j \<noteq> i" if "g t = Some j" for j t
    using that unfolding agree_def by (metis option.distinct(1))
  ultimately show ?thesis using assms by (auto simp: agree_def)
qed

lemma agree_cancel:
  assumes ag: "agree known f g" and bk: "f i = Some bk"
  shows "agree known (f(i := None)) (g(seat_id bk := None))"
proof -
  from ag have by_id: "\<And>j b. f j = Some b \<Longrightarrow> booking_id b = j \<and> seat_id b \<in> known \<and> g (seat_id b) = Some j"
    and by_seat: "\<And>t j. g t = Some j \<Longrightarrow> \<exists>b. f j = Some b \<and> seat_id b = t"
    by (auto simp: agree_def)
  have "booking_id b = j \<and> seat_id b \<in> known \<and> (g(seat_id bk := None)) (seat_id b) = Some j"
    if "(f(i := None)) j = Some b" for j b
  proof -
    from that have j: "j \<noteq> i" "f j = Some b" by (auto split: if_splits)
    with by_id[OF j(2)] by_id[OF bk] have "seat_id b \<noteq> seat_id bk" by (metis option.inject)
    with by_id[OF j(2)] show ?thesis by simp
  qed
  moreover have "\<exists>b. (f(i := None)) j = Some b \<and> seat_id b = t"
    if "(g(seat_id bk := None)) t = Some j" for t j
  proof -
    from that have t: "t \<noteq> seat_id bk" "g t = Some j" by (auto split: if_splits)
    from by_seat[OF t(2)] bk t(1) show ?thesis by auto
  qed
  ultimately show ?thesis by (auto simp: agree_def)
qed
definition seats_consistent :: "string set \<Rightarrow> booking_state \<Rightarrow> bool" where
  "seats_consistent known s \<longleftrightarrow>
     seat_ids s = known \<and>
     agree known (map_of (bookings_by_id s)) (map_of (booking_ids_by_seat s))"

definition owner_of :: "booking_state \<Rightarrow> string \<Rightarrow> seat_booking option" where
  "owner_of s st =
     (case map_of (booking_ids_by_seat s) st of
        None \<Rightarrow> None
      | Some i \<Rightarrow> map_of (bookings_by_id s) i)"

lemma init_booking_consistent: "init_booking known = Inr s \<Longrightarrow> seats_consistent known s"
  by (auto simp: init_booking_def seats_consistent_def agree_def split: if_splits)

lemma consistent_by_id:
  "seats_consistent known s \<Longrightarrow> map_of (bookings_by_id s) i = Some b \<Longrightarrow>
   booking_id b = i \<and> seat_id b \<in> known \<and> map_of (booking_ids_by_seat s) (seat_id b) = Some i"
  by (auto simp: seats_consistent_def agree_def)

lemma consistent_by_seat:
  "seats_consistent known s \<Longrightarrow> map_of (booking_ids_by_seat s) st = Some i \<Longrightarrow>
   \<exists>b. map_of (bookings_by_id s) i = Some b \<and> seat_id b = st \<and> booking_id b = i"
  unfolding seats_consistent_def agree_def by blast

lemma owner_of_Some:
  assumes con: "seats_consistent known s"
  shows "owner_of s st = Some b \<longleftrightarrow>
           map_of (bookings_by_id s) (booking_id b) = Some b \<and> seat_id b = st"
proof
  assume "owner_of s st = Some b"
  then obtain i where "map_of (booking_ids_by_seat s) st = Some i" "map_of (bookings_by_id s) i = Some b"
    by (auto simp: owner_of_def split: option.splits)
  with consistent_by_seat[OF con] show "map_of (bookings_by_id s) (booking_id b) = Some b \<and> seat_id b = st"
    by fastforce
next
  assume "map_of (bookings_by_id s) (booking_id b) = Some b \<and> seat_id b = st"
  then have by_id: "map_of (bookings_by_id s) (booking_id b) = Some b" and st: "seat_id b = st"
    by simp_all
  from consistent_by_id[OF con by_id] by_id st show "owner_of s st = Some b"
    by (simp add: owner_of_def)
qed

lemma owner_of_None:
  "seats_consistent known s \<Longrightarrow> owner_of s st = None \<longleftrightarrow> map_of (booking_ids_by_seat s) st = None"
  by (cases "map_of (booking_ids_by_seat s) st") (auto simp: owner_of_def dest!: consistent_by_seat)


subsection \<open>The effect of each method, on the abstract map\<close>

text \<open>
  The specification keeps one map from seats to bookings. A booking ID is in use when some
  seat carries it.
\<close>

definition id_in_use :: "(string \<rightharpoonup> seat_booking) \<Rightarrow> string \<Rightarrow> bool" where
  "id_in_use own i \<longleftrightarrow> (\<exists>st b. own st = Some b \<and> booking_id b = i)"

definition release_id :: "(string \<rightharpoonup> seat_booking) \<Rightarrow> string \<Rightarrow> string \<rightharpoonup> seat_booking" where
  "release_id own i =
     (\<lambda>st. case own st of None \<Rightarrow> None | Some b \<Rightarrow> if booking_id b = i then None else Some b)"

fun spec_booking ::
  "string set \<Rightarrow> booking_op \<Rightarrow> (string \<rightharpoonup> seat_booking) \<Rightarrow>
   booking_reply \<times> (string \<rightharpoonup> seat_booking)" where
  "spec_booking known (Book b c st) own =
     (if b = '''' then (Booked (Inl (ValueError ''booking_id must not be empty'')), own)
      else if c = '''' then (Booked (Inl (ValueError ''customer_id must not be empty'')), own)
      else if st \<notin> known then (Booked (Inl (ValueError ''seat_id must be a known seat'')), own)
      else if id_in_use own b \<or> own st \<noteq> None then (Booked (Inr False), own)
      else (Booked (Inr True), own(st \<mapsto> \<lparr>booking_id = b, customer_id = c, seat_id = st\<rparr>)))"
| "spec_booking known (Cancel b) own =
     (if b = '''' then (Cancelled (Inl (ValueError ''booking_id must not be empty'')), own)
      else (Cancelled (Inr (id_in_use own b)), release_id own b))"
| "spec_booking known (Booking_for_seat st) own =
     (if st \<notin> known then (Booking (Inl (ValueError ''seat_id must be a known seat'')), own)
      else (Booking (Inr (own st)), own))"
| "spec_booking known Booked_seats own = (Seats (dom own), own)"
| "spec_booking known Available_seats own = (Seats (known - dom own), own)"

lemma id_in_use_owner:
  assumes con: "seats_consistent known s"
  shows "id_in_use (owner_of s) i \<longleftrightarrow> map_of (bookings_by_id s) i \<noteq> None"
proof
  assume "id_in_use (owner_of s) i"
  then show "map_of (bookings_by_id s) i \<noteq> None"
    by (auto simp: id_in_use_def owner_of_Some[OF con])
next
  assume "map_of (bookings_by_id s) i \<noteq> None"
  then obtain b where b: "map_of (bookings_by_id s) i = Some b" by blast
  from consistent_by_id[OF con b] b show "id_in_use (owner_of s) i"
    by (auto simp: id_in_use_def owner_of_Some[OF con])
qed

lemma dom_owner: "seats_consistent known s \<Longrightarrow> dom (owner_of s) = fst ` set (booking_ids_by_seat s)"
  by (simp add: dom_def owner_of_None map_of_eq_None_iff)

lemma release_unused:
  "\<not> id_in_use own i \<Longrightarrow> release_id own i = own"
  by (auto simp: release_id_def id_in_use_def fun_eq_iff split: option.split)

lemma owner_after_cancel:
  assumes con: "seats_consistent known s" and bk: "map_of (bookings_by_id s) b = Some bk"
  shows "owner_of (s\<lparr>bookings_by_id := AList.delete b (bookings_by_id s),
           booking_ids_by_seat := AList.delete (seat_id bk) (booking_ids_by_seat s)\<rparr>) =
         release_id (owner_of s) b"
proof (rule ext)
  fix st
  let ?s' = "s\<lparr>bookings_by_id := AList.delete b (bookings_by_id s),
           booking_ids_by_seat := AList.delete (seat_id bk) (booking_ids_by_seat s)\<rparr>"
  from consistent_by_id[OF con bk]
  have bk': "map_of (booking_ids_by_seat s) (seat_id bk) = Some b" "booking_id bk = b" by auto
  show "owner_of ?s' st = release_id (owner_of s) b st"
  proof (cases "map_of (booking_ids_by_seat s) st")
    case None
    with bk' show ?thesis by (auto simp: owner_of_def release_id_def)
  next
    case (Some i)
    from consistent_by_seat[OF con Some] obtain bb
      where bb: "map_of (bookings_by_id s) i = Some bb" "seat_id bb = st" "booking_id bb = i"
      by blast
    show ?thesis
    proof (cases "i = b")
      case True
      with bb bk have "st = seat_id bk" by simp
      with Some True bb show ?thesis by (simp add: owner_of_def release_id_def)
    next
      case False
      with Some bk'(1) have "st \<noteq> seat_id bk" by (metis option.inject)
      with Some False bb show ?thesis by (simp add: owner_of_def release_id_def)
    qed
  qed
qed

lemma book_refines:
  assumes con: "seats_consistent known s" and call: "exec_meth (book known b c st) s = (r, s')"
  shows "seats_consistent known s' \<and>
         spec_booking known (Book b c st) (owner_of s) = (Booked r, owner_of s')"
proof (cases "r = Inr True")
  case True
  let ?bk = "\<lparr>booking_id = b, customer_id = c, seat_id = st\<rparr>"
  from call True have ok: "b \<noteq> ''''" "c \<noteq> ''''" "st \<in> known" "map_of (bookings_by_id s) b = None"
      "map_of (booking_ids_by_seat s) st = None"
    and s': "s' = s\<lparr>bookings_by_id := AList.update b ?bk (bookings_by_id s),
                  booking_ids_by_seat := AList.update st b (booking_ids_by_seat s)\<rparr>"
    by (auto simp: book_def split: if_splits)
  have con': "seats_consistent known s'"
    using con ok by (simp add: s' seats_consistent_def agree_book)
  have "owner_of s' = (owner_of s)(st \<mapsto> ?bk)"
    using con ok by (auto simp: s' owner_of_def fun_eq_iff split: option.splits
        dest: consistent_by_seat)
  with con con' ok True show ?thesis by (simp add: id_in_use_owner owner_of_None)
next
  case False
  with call con show ?thesis
    by (auto simp: book_def id_in_use_owner owner_of_None split: if_splits)
qed

lemma cancel_refines:
  assumes con: "seats_consistent known s" and call: "exec_meth (cancel b) s = (r, s')"
  shows "seats_consistent known s' \<and>
         spec_booking known (Cancel b) (owner_of s) = (Cancelled r, owner_of s')"
proof (cases "map_of (bookings_by_id s) b")
  case None
  then have s'': "AList.delete b (bookings_by_id s) = bookings_by_id s"
    by (auto simp: map_of_None_keys intro: delete_id)
  from None con have unused: "\<not> id_in_use (owner_of s) b" by (simp add: id_in_use_owner)
  with call con None s'' show ?thesis
    by (auto simp: cancel_def release_unused split: if_splits)
next
  case (Some bk)
  from consistent_by_id[OF con Some] have bk: "booking_id bk = b"
    "map_of (booking_ids_by_seat s) (seat_id bk) = Some b" by auto
  show ?thesis
  proof (cases "b = ''''")
    case True
    with call con show ?thesis by (auto simp: cancel_def)
  next
    case False
    with call Some bk have r: "r = Inr True"
      and s': "s' = s\<lparr>bookings_by_id := AList.delete b (bookings_by_id s),
                    booking_ids_by_seat := AList.delete (seat_id bk) (booking_ids_by_seat s)\<rparr>"
      by (auto simp: cancel_def)
    have con': "seats_consistent known s'"
      using con Some by (simp add: s' seats_consistent_def agree_cancel)
    have "owner_of s' = release_id (owner_of s) b"
      using owner_after_cancel[OF con Some] s' by simp
    with con con' Some False r show ?thesis by (simp add: id_in_use_owner)
  qed
qed

lemma booking_refines:
  assumes con: "seats_consistent known s" and call: "exec_meth (booking_meth known x) s = (r, s')"
  shows "seats_consistent known s' \<and> spec_booking known x (owner_of s) = (r, owner_of s')"
proof (cases x)
  case (Book b c st)
  with assms book_refines show ?thesis by (simp only: booking_meth.simps exec_map_meth apfst_result) blast
next
  case (Cancel b)
  with assms cancel_refines show ?thesis by (simp only: booking_meth.simps exec_map_meth apfst_result) blast
next
  case (Booking_for_seat st)
  with assms show ?thesis
    by (auto simp: booking_for_seat_def owner_of_def split: if_splits option.splits
        dest: consistent_by_seat)
next
  case Booked_seats
  with assms show ?thesis by (auto simp: booked_seats_def dom_owner)
next
  case Available_seats
  moreover from con have "seat_ids s = known" by (simp add: seats_consistent_def)
  ultimately show ?thesis using assms by (auto simp: available_seats_def dom_owner)
qed

subsection \<open>The refinement for every interleaving\<close>

fun spec_replay ::
  "string set \<Rightarrow> (string \<rightharpoonup> seat_booking) \<Rightarrow> (tid \<times> booking_op \<times> booking_reply) list \<Rightarrow>
   (string \<rightharpoonup> seat_booking) \<Rightarrow> bool"
where
  "spec_replay known own [] own' = (own' = own)"
| "spec_replay known own ((t, x, r) # l) own' =
     (fst (spec_booking known x own) = r \<and>
      spec_replay known (snd (spec_booking known x own)) l own')"

lemma spec_replay_snoc:
  "spec_replay known own (l @ [(t, x, r)]) own' \<longleftrightarrow>
     (\<exists>own1. spec_replay known own l own1 \<and> spec_booking known x own1 = (r, own'))"
  by (induction l arbitrary: own) (auto simp: prod_eq_iff)

definition refines_map ::
  "string set \<Rightarrow> booking_state \<Rightarrow> (tid \<times> booking_op \<times> booking_reply) list \<Rightarrow> booking_state \<Rightarrow> bool"
where
  "refines_map known s0 l s \<longleftrightarrow>
     seats_consistent known s \<and> spec_replay known (owner_of s0) l (owner_of s)"

lemma refines_map_call:
  "refines_map known s0 l s \<Longrightarrow> exec_meth (booking_meth known x) s = (r, s') \<Longrightarrow>
   refines_map known s0 (l @ [(t, x, r)]) s'"
  using booking_refines by (auto simp: refines_map_def spec_replay_snoc)

interpretation seats: lock_protected "booking_meth known" "seats_consistent known" "refines_map known"
  for known
  by unfold_locales (simp add: refines_map_def, erule refines_map_call)

lemma init_owner: "init_booking known = Inr s \<Longrightarrow> owner_of s = Map.empty"
  by (auto simp: init_booking_def owner_of_def split: if_splits)

subsection \<open>Properties\<close>

text \<open>
  C6. The two dictionaries implement one map from seats to bookings: under every interleaving of
  \<open>book\<close>, \<open>cancel\<close> and the queries, the logged results are those of the specification run on
  that map, which never raises \<open>KeyError\<close>, and it ends in the map that the state represents.
\<close>

theorem bookings_refine_map:
  assumes "init_booking known = Inr s0"
    and "runs (lock_step (booking_meth known)) (fresh_object s0) schedule = Some m"
    and "holder m = None"
  shows "spec_replay known Map.empty (log m) (owner_of (shared m))"
  using seats.interleaved[OF init_booking_consistent[OF assms(1)] assms(2,3)] init_owner[OF assms(1)]
  by (simp add: refines_map_def)

text \<open>Two customers want the same seat; the loser tries again after a cancellation.\<close>

definition seat_race :: "booking_op sched list" where
  "seat_race =
     [Invoke 0 (Book ''b1'' ''ann'' ''A1''), Invoke 1 (Book ''b2'' ''joe'' ''A1'')] @
     replicate 6 (Step 0) @ replicate 5 (Step 1) @
     [Step 0, Invoke 0 (Cancel ''b1'')] @ replicate 6 (Step 0) @
     [Invoke 1 (Book ''b2'' ''joe'' ''A1'')] @ replicate 6 (Step 1)"

lemmas booking_eval =
  fresh_object_def book_def cancel_def get_field_def set_field_def init_booking_def eval_nat_numeral

definition hall :: booking_state where
  "hall = \<lparr>seat_ids = {''A1'', ''A2''}, bookings_by_id = [], booking_ids_by_seat = []\<rparr>"

definition after_race :: "(booking_op, booking_state, booking_reply) locked" where
  "after_race = the (runs (lock_step (booking_meth {''A1'', ''A2''})) (fresh_object hall) seat_race)"

lemma hall_init: "init_booking {''A1'', ''A2''} = Inr hall"
  by (simp add: init_booking_def hall_def)

lemma race_run:
  "runs (lock_step (booking_meth {''A1'', ''A2''})) (fresh_object hall) seat_race = Some after_race"
  "holder after_race = None"
  "map (snd \<circ> snd) (log after_race) =
     [Booked (Inr True), Booked (Inr False), Cancelled (Inr True), Booked (Inr True)]"
  "owner_of (shared after_race) ''A1'' =
     Some \<lparr>booking_id = ''b2'', customer_id = ''joe'', seat_id = ''A1''\<rparr>"
  by (simp_all add: after_race_def seat_race_def hall_def booking_eval owner_of_def)

theorem bookings_refine_map_witness:
  "map (snd \<circ> snd) (log after_race) =
     [Booked (Inr True), Booked (Inr False), Cancelled (Inr True), Booked (Inr True)] \<and>
   spec_replay {''A1'', ''A2''} Map.empty (log after_race) (owner_of (shared after_race))"
  by (rule conjI[OF race_run(3) bookings_refine_map[OF hall_init race_run(1,2)]])

text \<open>
  No seat is booked twice: under every interleaving, whenever the lock is free, each booked
  seat is a known seat that carries its own booking, and no booking ID owns two seats.
\<close>

lemma seats_booked_once:
  assumes "init_booking known = Inr s0"
    and "runs (lock_step (booking_meth known)) (fresh_object s0) schedule = Some m"
    and "holder m = None"
  shows "(\<forall>st b. owner_of (shared m) st = Some b \<longrightarrow> seat_id b = st \<and> st \<in> known) \<and>
         (\<forall>st st' b b'. owner_of (shared m) st = Some b \<and> owner_of (shared m) st' = Some b' \<and>
            booking_id b = booking_id b' \<longrightarrow> st = st')"
proof -
  from seats.interleaved[OF init_booking_consistent[OF assms(1)] assms(2,3)]
  have con: "seats_consistent known (shared m)" by (simp add: refines_map_def)
  have "seat_id b = st \<and> st \<in> known" if "owner_of (shared m) st = Some b" for st b
    using that consistent_by_id[OF con] by (auto simp only: owner_of_Some[OF con])
  moreover have "st = st'" if "owner_of (shared m) st = Some b" "owner_of (shared m) st' = Some b'"
    "booking_id b = booking_id b'" for st st' b b'
    using that by (simp only: owner_of_Some[OF con]) (metis option.inject)
  ultimately show ?thesis by blast
qed

lemma seats_booked_once_witness:
  "owner_of (shared after_race) ''A1'' =
     Some \<lparr>booking_id = ''b2'', customer_id = ''joe'', seat_id = ''A1''\<rparr> \<and>
   seat_id \<lparr>booking_id = ''b2'', customer_id = ''joe'', seat_id = ''A1''\<rparr> = ''A1'' \<and>
   ''A1'' \<in> {''A1'', ''A2''}"
  using race_run(4)
    conjunct1[OF seats_booked_once[OF hall_init race_run(1,2)], THEN spec, THEN spec, THEN mp, OF race_run(4)]
  by (rule conjI)

end
