(* ===== verification/Monitor.thy ===== *)
theory Monitor
  imports Locked_Object
begin

section \<open>Objects with a condition variable\<close>

text \<open>
  \<open>threading.Condition\<close> and \<open>asyncio.Condition\<close> as the package uses them: the methods run
  under the condition's lock and may call \<open>notify_all\<close>; a waiter calls \<open>wait_for\<close> with one
  fixed predicate. A waiter that finds the predicate false gives the lock up and blocks; it
  runs again when it has been notified or when its timeout expires, takes the lock and
  evaluates the predicate anew. The theory \<open>Locked_Object\<close> shows that a block under a lock has
  the effect of its sequential run, so each block is one step here. What this theory adds
  is the absence of lost wake-ups.
\<close>

subsection \<open>The fields of the object and its condition\<close>

record 'f guarded =
  attrs :: 'f
  signalled :: bool

definition notify_all :: "('f guarded, 'r) body \<Rightarrow> ('f guarded, 'r) body" where
  "notify_all = set_field (\<lambda>s. s\<lparr>signalled := True\<rparr>)"

definition get_f :: "('f \<Rightarrow> 'a) \<Rightarrow> ('a \<Rightarrow> ('f guarded, 'r) body) \<Rightarrow> ('f guarded, 'r) body" where
  "get_f g = get_field (\<lambda>s. g (attrs s))"

definition set_f :: "('f \<Rightarrow> 'f) \<Rightarrow> ('f guarded, 'r) body \<Rightarrow> ('f guarded, 'r) body" where
  "set_f u = set_field (\<lambda>s. s\<lparr>attrs := u (attrs s)\<rparr>)"

lemma exec_notify_all [simp]:
  "exec_body (notify_all b) s = exec_body b (s\<lparr>signalled := True\<rparr>)"
  by (simp add: notify_all_def)

lemma exec_get_f [simp]: "exec_body (get_f g k) s = exec_body (k (g (attrs s))) s"
  by (simp add: get_f_def)

lemma exec_set_f [simp]:
  "exec_body (set_f u b) s = exec_body b (s\<lparr>attrs := u (attrs s)\<rparr>)"
  by (simp add: set_f_def)

text \<open>One whole method call: its result, the new fields, and whether it notified.\<close>

definition run_op :: "('f guarded, 'r) meth \<Rightarrow> 'f \<Rightarrow> 'r \<times> 'f \<times> bool" where
  "run_op mth f =
     (case exec_meth mth \<lparr>attrs = f, signalled = False\<rparr> of
        (r, s) \<Rightarrow> (r, attrs s, signalled s))"

lemma run_op_eq:
  "exec_meth mth \<lparr>attrs = f, signalled = False\<rparr> = (r, \<lparr>attrs = f', signalled = n\<rparr>) \<Longrightarrow>
   run_op mth f = (r, f', n)"
  by (simp add: run_op_def)

subsection \<open>Callers and waiters\<close>

datatype waiter = Waiter (timed: bool) (notified: bool)

text \<open>\<open>history\<close> is a history variable: completed calls and completed waits, in order.\<close>

datatype ('op, 'r) outcome =
    Did tid 'op 'r
  | Waited tid bool

record ('op, 'f, 'r) monitor =
  object :: 'f
  waiters :: "tid \<Rightarrow> waiter option"
  history :: "('op, 'r) outcome list"

datatype 'op monitor_event =
    Enter tid 'op
  | Await tid bool
  | Resume tid
  | Expire tid
  | Interrupt tid

definition fresh_monitor :: "'f \<Rightarrow> ('op, 'f, 'r) monitor" where
  "fresh_monitor f = \<lparr>object = f, waiters = (\<lambda>_. None), history = []\<rparr>"

definition wake_all :: "(tid \<Rightarrow> waiter option) \<Rightarrow> tid \<Rightarrow> waiter option" where
  "wake_all w = (\<lambda>t. map_option (\<lambda>x. Waiter (timed x) True) (w t))"

text \<open>
  \<open>allowed\<close> restricts the callers to the calls that the component's protocol lets them make
  (the end of a context manager only after its beginning).
  \<open>late\<close> is what a wait returns when its timeout expires, given the predicate's value at that
  moment: \<open>threading\<close> evaluates the predicate once more and returns it, \<open>asyncio.wait_for\<close>
  raises \<open>TimeoutError\<close> whatever it is. A wait may also be interrupted (its task cancelled, its
  thread by a \<open>KeyboardInterrupt\<close>): it ends by that exception and returns nothing.
\<close>

fun monitor_step ::
  "('op \<Rightarrow> ('f guarded, 'r) meth) \<Rightarrow> ('f \<Rightarrow> 'op \<Rightarrow> bool) \<Rightarrow> ('f \<Rightarrow> bool) \<Rightarrow>
   (bool \<Rightarrow> bool) \<Rightarrow> ('op, 'f, 'r) monitor \<Rightarrow> 'op monitor_event \<Rightarrow> ('op, 'f, 'r) monitor option"
where
  "monitor_step meth_of allowed pred late m (Enter t x) =
     (if waiters m t \<noteq> None \<or> \<not> allowed (object m) x then None
      else case run_op (meth_of x) (object m) of
        (r, f, n) \<Rightarrow>
          Some (m\<lparr>object := f, waiters := (if n then wake_all (waiters m) else waiters m),
                  history := history m @ [Did t x r]\<rparr>))"
| "monitor_step meth_of allowed pred late m (Await t has_timeout) =
     (if waiters m t \<noteq> None then None
      else if pred (object m) then Some (m\<lparr>history := history m @ [Waited t True]\<rparr>)
      else Some (m\<lparr>waiters := (waiters m)(t \<mapsto> Waiter has_timeout False)\<rparr>))"
| "monitor_step meth_of allowed pred late m (Resume t) =
     (case waiters m t of
        None \<Rightarrow> None
      | Some w \<Rightarrow>
          if \<not> notified w then None
          else if pred (object m)
            then Some (m\<lparr>waiters := (waiters m)(t := None),
                         history := history m @ [Waited t True]\<rparr>)
          else Some (m\<lparr>waiters := (waiters m)(t \<mapsto> Waiter (timed w) False)\<rparr>))"
| "monitor_step meth_of allowed pred late m (Expire t) =
     (case waiters m t of
        None \<Rightarrow> None
      | Some w \<Rightarrow>
          if \<not> timed w then None
          else Some (m\<lparr>waiters := (waiters m)(t := None),
                       history := history m @ [Waited t (late (pred (object m)))]\<rparr>))"
| "monitor_step meth_of allowed pred late m (Interrupt t) =
     (if waiters m t = None then None
      else Some (m\<lparr>waiters := (waiters m)(t := None)\<rparr>))"

fun_cases monitor_step_cases:
  "monitor_step meth_of allowed pred late m (Enter t x) = Some m'"
  "monitor_step meth_of allowed pred late m (Await t b) = Some m'"
  "monitor_step meth_of allowed pred late m (Resume t) = Some m'"
  "monitor_step meth_of allowed pred late m (Expire t) = Some m'"
  "monitor_step meth_of allowed pred late m (Interrupt t) = Some m'"

lemma run_op_map [simp]: "run_op (map_meth g mth) f = apfst g (run_op mth f)"
  by (simp add: run_op_def split: prod.split)

lemma wake_all_simps [simp]:
  "wake_all w t = None \<longleftrightarrow> w t = None"
  "wake_all w t = Some x \<Longrightarrow> notified x"
  by (auto simp: wake_all_def)

subsection \<open>The interface of a monitor\<close>

text \<open>
  The laws of the provider: its start states satisfy an invariant that its methods keep,
  and a method that makes the predicate true notifies. The client's gain: as long as the
  predicate is true, every waiter has been notified, so no wake-up is ever lost.
\<close>

locale condition_object =
  fixes meth_of :: "'op \<Rightarrow> ('f guarded, 'r) meth"
    and allowed :: "'f \<Rightarrow> 'op \<Rightarrow> bool"
    and pred :: "'f \<Rightarrow> bool"
    and late :: "bool \<Rightarrow> bool"
    and start_ok :: "'f \<Rightarrow> bool"
    and inv :: "'f \<Rightarrow> 'f \<Rightarrow> bool"
  assumes inv_init: "start_ok f0 \<Longrightarrow> inv f0 f0"
    and inv_op: "inv f0 f \<Longrightarrow> allowed f x \<Longrightarrow> run_op (meth_of x) f = (r, f', n) \<Longrightarrow> inv f0 f'"
    and notifies: "inv f0 f \<Longrightarrow> allowed f x \<Longrightarrow> run_op (meth_of x) f = (r, f', n) \<Longrightarrow>
                   \<not> pred f \<Longrightarrow> pred f' \<Longrightarrow> n"
    and late_sound: "late b \<Longrightarrow> b"
begin

definition sound :: "'f \<Rightarrow> ('op, 'f, 'r) monitor \<Rightarrow> bool" where
  "sound f0 m \<longleftrightarrow> inv f0 (object m) \<and>
     (\<forall>t w. pred (object m) \<and> waiters m t = Some w \<longrightarrow> notified w)"

lemma sound_step:
  assumes "sound f0 m" and "monitor_step meth_of allowed pred late m e = Some m'"
  shows "sound f0 m'"
proof (cases e)
  case (Enter t x)
  obtain r f n where run: "run_op (meth_of x) (object m) = (r, f, n)" by (metis prod_cases3)
  from assms Enter run have ok: "allowed (object m) x" and
    m': "m' = m\<lparr>object := f, waiters := (if n then wake_all (waiters m) else waiters m),
                  history := history m @ [Did t x r]\<rparr>"
    by (auto split: if_splits)
  from assms(1) have i: "inv f0 (object m)" by (simp add: sound_def)
  from inv_op[OF i ok run] notifies[OF i ok run] assms(1) m' show ?thesis
    by (auto simp: sound_def)
qed (use assms in \<open>auto simp: sound_def split: if_splits option.splits\<close>)

lemma sound_runs:
  "start_ok f0 \<Longrightarrow> runs (monitor_step meth_of allowed pred late) (fresh_monitor f0) es = Some m \<Longrightarrow> sound f0 m"
proof (induction es arbitrary: m rule: rev_induct)
  case Nil
  then show ?case using inv_init by (auto simp: sound_def fresh_monitor_def)
next
  case (snoc e es)
  then show ?case using sound_step by (auto simp: runs_snoc split: option.splits)
qed

lemma object_inv:
  "start_ok f0 \<Longrightarrow> runs (monitor_step meth_of allowed pred late) (fresh_monitor f0) es = Some m \<Longrightarrow>
   inv f0 (object m)"
  using sound_runs by (simp add: sound_def)

text \<open>
  No lost wake-up: once the predicate holds, every caller still waiting can return
  \<open>True\<close> by its next step.
\<close>

lemma wake_up_delivered:
  assumes "start_ok f0"
    and "runs (monitor_step meth_of allowed pred late) (fresh_monitor f0) es = Some m"
    and "pred (object m)" and "waiters m t = Some w"
  shows "monitor_step meth_of allowed pred late m (Resume t) =
           Some (m\<lparr>waiters := (waiters m)(t := None), history := history m @ [Waited t True]\<rparr>)"
  using sound_runs[OF assms(1,2)] assms(3,4) by (auto simp: sound_def)

text \<open>A wait that returns \<open>True\<close> has seen the predicate hold.\<close>

lemma waited_true:
  "monitor_step meth_of allowed pred late m e = Some m' \<Longrightarrow> history m' = history m @ [Waited t True] \<Longrightarrow>
   pred (object m) \<and> object m' = object m"
  by (cases e) (auto split: if_splits option.splits prod.splits intro: late_sound)

end

text \<open>A predicate that stays true once it is true.\<close>

locale stable_condition = condition_object +
  assumes stays: "inv f0 f \<Longrightarrow> allowed f x \<Longrightarrow> run_op (meth_of x) f = (r, f', n) \<Longrightarrow> pred f \<Longrightarrow> pred f'"
begin

lemma pred_stays:
  assumes "inv f0 (object m)" and "monitor_step meth_of allowed pred late m e = Some m'" and "pred (object m)"
  shows "pred (object m')"
proof (cases e)
  case (Enter t x)
  obtain r f n where run: "run_op (meth_of x) (object m) = (r, f, n)" by (metis prod_cases3)
  with assms Enter stays[OF assms(1) _ run] show ?thesis by (auto split: if_splits)
qed (use assms in \<open>auto split: if_splits option.splits\<close>)

lemma true_is_final:
  "start_ok f0 \<Longrightarrow> runs (monitor_step meth_of allowed pred late) (fresh_monitor f0) es = Some m \<Longrightarrow>
   Waited t True \<in> set (history m) \<Longrightarrow> pred (object m)"
proof (induction es arbitrary: m rule: rev_induct)
  case Nil
  then show ?case by (auto simp: fresh_monitor_def)
next
  case (snoc e es)
  then obtain m1 where run: "runs (monitor_step meth_of allowed pred late) (fresh_monitor f0) es = Some m1"
    and step: "monitor_step meth_of allowed pred late m1 e = Some m"
    by (auto simp: runs_snoc split: option.splits)
  show ?case
  proof (cases "Waited t True \<in> set (history m1)")
    case True
    with snoc.IH[OF snoc.prems(1) run] pred_stays[OF object_inv[OF snoc.prems(1) run] step]
    show ?thesis by simp
  next
    case False
    with step snoc.prems(3) show ?thesis
      by (cases e) (auto split: if_splits option.splits prod.splits intro: late_sound)
  qed
qed

end

end
