(* ===== verification/Approval.thy ===== *)
theory Approval
  imports Monitor
begin

section \<open>batchapproval: releasing an approved batch\<close>

text \<open>
  Models \<^verbatim>\<open>batchapproval/approval.py\<close> (a \<open>threading.Condition\<close>) and holds the contract
  \<open>approval_class\<close> that this class shares with \<^verbatim>\<open>asyncreviewbatch/review.py\<close>: whoever keeps
  it, on whatever fields, releases its waiters exactly when everybody has approved. The contract
  is interpreted here and, for the async class, in \<open>Review\<close>.
\<close>

subsection \<open>Fields and methods\<close>

record approval =
  required_reviewers :: "string set"
  approved_reviewers :: "string set"

definition init_approval :: "string list \<Rightarrow> approval result" where
  "init_approval reviewers =
     (if set reviewers = {} then Inl (ValueError ''required_reviewers must not be empty'')
      else if '''' \<in> set reviewers then Inl (ValueError ''reviewer names must not be empty'')
      else Inr \<lparr>required_reviewers = set reviewers, approved_reviewers = {}\<rparr>)"

definition is_approved_now :: "approval \<Rightarrow> bool" where
  "is_approved_now f \<longleftrightarrow> required_reviewers f \<subseteq> approved_reviewers f"

definition approve :: "string \<Rightarrow> (approval guarded, bool result) meth" where
  "approve reviewer =
     (if reviewer = '''' then Immediate (Inl (ValueError ''reviewer name must not be empty''))
      else WithLock
        (get_f (\<lambda>f. reviewer \<in> required_reviewers f) (\<lambda>required.
           if \<not> required
           then Return (Inl (ValueError (py_repr reviewer @ '' is not a required reviewer'')))
           else get_f (\<lambda>f. reviewer \<in> approved_reviewers f) (\<lambda>approved.
             if approved then Return (Inr False)
             else set_f (\<lambda>f. f\<lparr>approved_reviewers := insert reviewer (approved_reviewers f)\<rparr>)
               (notify_all (Return (Inr True)))))))"

definition is_approved :: "(approval guarded, bool) meth" where
  "is_approved = WithLock (get_f is_approved_now Return)"

definition approved_by :: "(approval guarded, string set) meth" where
  "approved_by = WithLock (get_f approved_reviewers Return)"

definition remaining_reviewers :: "(approval guarded, string set) meth" where
  "remaining_reviewers =
     WithLock (get_f (\<lambda>f. required_reviewers f - approved_reviewers f) Return)"

datatype approval_op =
    Approve string
  | Is_approved
  | Approved_by
  | Remaining

datatype approval_reply =
    Changed "bool result"
  | Verdict bool
  | Reviewers "string set"

fun approval_meth :: "approval_op \<Rightarrow> (approval guarded, approval_reply) meth" where
  "approval_meth (Approve v) = map_meth Changed (approve v)"
| "approval_meth Is_approved = map_meth Verdict is_approved"
| "approval_meth Approved_by = map_meth Reviewers approved_by"
| "approval_meth Remaining = map_meth Reviewers remaining_reviewers"

text \<open>
  \<open>wait_until_approved\<close>: an expired wait returns the predicate's value at that moment.
\<close>

abbreviation approval_step ::
  "(approval_op, approval, approval_reply) monitor \<Rightarrow> approval_op monitor_event \<Rightarrow>
   (approval_op, approval, approval_reply) monitor option" where
  "approval_step \<equiv> monitor_step approval_meth (\<lambda>_ _. True) is_approved_now (\<lambda>now. now)"

subsection \<open>The effect of each method\<close>

lemma run_approve [op_simps]:
  "run_op (approve v) f =
     (if v = '''' then (Inl (ValueError ''reviewer name must not be empty''), f, False)
      else if v \<notin> required_reviewers f
        then (Inl (ValueError (py_repr v @ '' is not a required reviewer'')), f, False)
      else if v \<in> approved_reviewers f then (Inr False, f, False)
      else (Inr True, f\<lparr>approved_reviewers := insert v (approved_reviewers f)\<rparr>, True))"
  by (simp add: run_op_def approve_def)

lemma run_is_approved [op_simps]: "run_op is_approved f = (is_approved_now f, f, False)"
  by (simp add: run_op_def is_approved_def)

lemma run_approved_by [op_simps]: "run_op approved_by f = (approved_reviewers f, f, False)"
  by (simp add: run_op_def approved_by_def)

lemma run_remaining [op_simps]:
  "run_op remaining_reviewers f = (required_reviewers f - approved_reviewers f, f, False)"
  by (simp add: run_op_def remaining_reviewers_def)

subsection \<open>The contract of an approval class\<close>

text \<open>The reviewers whose call to \<open>approve\<close> returned true.\<close>

definition approvals :: "(approval_op, approval_reply) outcome list \<Rightarrow> string set" where
  "approvals h = {v. \<exists>t. Did t (Approve v) (Changed (Inr True)) \<in> set h}"

lemma approvals_snoc:
  "approvals (h @ [Did t x r]) =
     approvals h \<union> {v. x = Approve v \<and> r = Changed (Inr True)}"
  "approvals (h @ [Waited t b]) = approvals h"
  by (auto simp: approvals_def)

text \<open>
  An object with required and approved reviewers: a call adds a reviewer exactly when it is an
  approval that returns true, only a required one, and then it notifies. A wait that expires
  returns \<open>late now\<close>.
\<close>

locale approval_class =
  fixes meth_of :: "approval_op \<Rightarrow> ('f guarded, approval_reply) meth"
    and required :: "'f \<Rightarrow> string set"
    and approved :: "'f \<Rightarrow> string set"
    and complete :: "'f \<Rightarrow> bool"
    and make :: "string list \<Rightarrow> 'f result"
    and late :: "bool \<Rightarrow> bool"
  assumes made: "make vs = Inr f \<Longrightarrow> required f = set vs \<and> approved f = {}"
    and complete_iff: "complete f \<longleftrightarrow> required f \<subseteq> approved f"
    and required_kept: "run_op (meth_of x) f = (r, f', n) \<Longrightarrow> required f' = required f"
    and approved_by_call: "run_op (meth_of x) f = (r, f', n) \<Longrightarrow>
      approved f' = approved f \<union> {v. x = Approve v \<and> r = Changed (Inr True)}"
    and new_approval: "run_op (meth_of (Approve v)) f = (Changed (Inr True), f', n) \<Longrightarrow>
      v \<in> required f \<and> n"
    and expires_false: "late b \<Longrightarrow> b"
begin

lemma approval_laws:
  assumes "run_op (meth_of x) f = (r, f', n)"
  shows "approved f \<subseteq> required f \<Longrightarrow> approved f' \<subseteq> required f'"
    and "\<not> complete f \<Longrightarrow> complete f' \<Longrightarrow> n"
    and "complete f \<Longrightarrow> complete f'"
proof -
  note law = required_kept[OF assms] approved_by_call[OF assms]
  have new: "v \<in> required f \<and> n" if "x = Approve v" "r = Changed (Inr True)" for v
    using that assms new_approval by blast
  then show "approved f \<subseteq> required f \<Longrightarrow> approved f' \<subseteq> required f'"
    and "\<not> complete f \<Longrightarrow> complete f' \<Longrightarrow> n" and "complete f \<Longrightarrow> complete f'"
    using law by (auto simp: complete_iff)
qed

sublocale waits: stable_condition meth_of "\<lambda>_ _. True" complete late
  "\<lambda>f. approved f = {}" "\<lambda>f0 f. required f = required f0 \<and> approved f \<subseteq> required f"
  by unfold_locales (auto dest: approval_laws required_kept expires_false)

lemma approved_are_approvals:
  "approved f = {} \<Longrightarrow>
   runs (monitor_step meth_of (\<lambda>_ _. True) complete late) (fresh_monitor f) es = Some m \<Longrightarrow>
   approved (object m) = approvals (history m)"
proof (induction es arbitrary: m rule: rev_induct)
  case Nil
  then show ?case by (auto simp: fresh_monitor_def approvals_def)
next
  case (snoc e es)
  then obtain m1 where m1: "runs (monitor_step meth_of (\<lambda>_ _. True) complete late) (fresh_monitor f) es = Some m1"
    and step: "monitor_step meth_of (\<lambda>_ _. True) complete late m1 e = Some m"
    by (auto simp: runs_snoc split: option.splits)
  from snoc.IH[OF snoc.prems(1) m1] have IH: "approved (object m1) = approvals (history m1)" .
  show ?case
  proof (cases e)
    case (Enter t x)
    obtain r f' n where run: "run_op (meth_of x) (object m1) = (r, f', n)" by (metis prod_cases3)
    with step Enter IH approved_by_call[OF run] show ?thesis
      by (auto simp: approvals_snoc split: if_splits)
  qed (use IH step in \<open>auto simp: approvals_snoc split: if_splits option.splits\<close>)
qed

lemma released:
  assumes "make reviewers = Inr f"
    and "runs (monitor_step meth_of (\<lambda>_ _. True) complete late) (fresh_monitor f) schedule = Some m"
  shows "(Waited t True \<in> set (history m) \<longrightarrow> set reviewers \<subseteq> approvals (history m)) \<and>
         (set reviewers \<subseteq> approvals (history m) \<and> waiters m u \<noteq> None \<longrightarrow>
            monitor_step meth_of (\<lambda>_ _. True) complete late m (Resume u) =
              Some (m\<lparr>waiters := (waiters m)(u := None), history := history m @ [Waited u True]\<rparr>))"
proof -
  from made[OF assms(1)] have start: "approved f = {}" and req: "required f = set reviewers" by simp_all
  have "complete (object m) \<longleftrightarrow> set reviewers \<subseteq> approvals (history m)"
    using waits.object_inv[OF start assms(2)] approved_are_approvals[OF start assms(2)] req
    by (simp add: complete_iff)
  with waits.true_is_final[OF start assms(2)] waits.wake_up_delivered[OF start assms(2)]
  show ?thesis by blast
qed

end

interpretation batch: approval_class approval_meth required_reviewers approved_reviewers is_approved_now
  init_approval "\<lambda>now. now"
proof unfold_locales
  show "approved_reviewers f' = approved_reviewers f \<union> {v. x = Approve v \<and> r = Changed (Inr True)}"
    if "run_op (approval_meth x) f = (r, f', n)" for x f r f' n
    using that by (cases x) (auto simp: op_simps split: if_splits)
  show "required_reviewers f' = required_reviewers f"
    if "run_op (approval_meth x) f = (r, f', n)" for x f r f' n
    using that by (cases x) (auto simp: op_simps split: if_splits)
qed (auto simp: init_approval_def is_approved_now_def op_simps split: if_splits)

subsection \<open>Properties\<close>

text \<open>
  C12. \<open>BatchApproval\<close> under every interleaving of reviewers and waiters: a wait that returned
  true means that every required reviewer has approved, and no wake-up is lost, so once every
  required reviewer has approved, each caller still waiting returns true by its next step.
\<close>

theorem batch_released_when_approved:
  assumes "init_approval reviewers = Inr f"
    and "runs approval_step (fresh_monitor f) schedule = Some m"
  shows "(Waited t True \<in> set (history m) \<longrightarrow> set reviewers \<subseteq> approvals (history m)) \<and>
         (set reviewers \<subseteq> approvals (history m) \<and> waiters m u \<noteq> None \<longrightarrow>
            approval_step m (Resume u) =
              Some (m\<lparr>waiters := (waiters m)(u := None), history := history m @ [Waited u True]\<rparr>))"
  using batch.released[OF assms] .

text \<open>One waiter blocks before the second of two approvals, is woken and returns true.\<close>

definition two_reviewers :: approval where
  "two_reviewers = \<lparr>required_reviewers = {''fin'', ''law''}, approved_reviewers = {}\<rparr>"

definition approval_schedule :: "approval_op monitor_event list" where
  "approval_schedule =
     [Enter 1 (Approve ''law''), Await 0 False, Enter 1 (Approve ''law''),
      Enter 2 (Approve ''fin''), Resume 0]"

definition approval_end :: "(approval_op, approval, approval_reply) monitor" where
  "approval_end = the (runs approval_step (fresh_monitor two_reviewers) approval_schedule)"

lemma approval_end_run:
  "init_approval [''fin'', ''law''] = Inr two_reviewers"
  "runs approval_step (fresh_monitor two_reviewers) approval_schedule = Some approval_end"
  "Waited 0 True \<in> set (history approval_end)"
  by (auto simp: approval_end_def approval_schedule_def two_reviewers_def init_approval_def
      fresh_monitor_def run_approve is_approved_now_def wake_all_def)

theorem batch_released_when_approved_witness:
  "Waited 0 True \<in> set (history approval_end) \<and>
   set [''fin'', ''law''] \<subseteq> approvals (history approval_end)"
  using approval_end_run(3) batch_released_when_approved[OF approval_end_run(1,2)] by blast

end
