(* ===== verification/Review.thy ===== *)
theory Review
  imports Approval
begin

section \<open>asyncreviewbatch: releasing an approved batch to waiting tasks\<close>

text \<open>
  Models \<^verbatim>\<open>asyncreviewbatch/review.py\<close>. An \<open>asyncio.Condition\<close> guards the approvals; a method
  holds it from its \<^verbatim>\<open>async with\<close> to its end. The wait checks its timeout first; a timeout that
  expires has raised \<open>TimeoutError\<close> inside, which the method turns into \<open>False\<close>, even when the
  last approval has just arrived. The class keeps the contract \<open>approval_class\<close>.
\<close>

subsection \<open>Fields and methods\<close>

record review_batch =
  required_by_batch :: "string set"
  approved_so_far :: "string set"

definition init_review :: "string list \<Rightarrow> review_batch result" where
  "init_review reviewers =
     (if set reviewers = {} then Inl (ValueError ''required_reviewers must not be empty'')
      else if '''' \<in> set reviewers then Inl (ValueError ''reviewer names must not be empty'')
      else Inr \<lparr>required_by_batch = set reviewers, approved_so_far = {}\<rparr>)"

definition batch_complete :: "review_batch \<Rightarrow> bool" where
  "batch_complete f \<longleftrightarrow> required_by_batch f \<subseteq> approved_so_far f"

definition review_approve :: "string \<Rightarrow> (review_batch guarded, bool result) meth" where
  "review_approve reviewer =
     (if reviewer = '''' then Immediate (Inl (ValueError ''reviewer name must not be empty''))
      else WithLock
        (get_f (\<lambda>f. reviewer \<in> required_by_batch f) (\<lambda>required.
           if \<not> required
           then Return (Inl (ValueError (py_repr reviewer @ '' is not a required reviewer'')))
           else get_f (\<lambda>f. reviewer \<in> approved_so_far f) (\<lambda>approved.
             if approved then Return (Inr False)
             else set_f (\<lambda>f. f\<lparr>approved_so_far := insert reviewer (approved_so_far f)\<rparr>)
               (notify_all (Return (Inr True)))))))"

definition review_is_approved :: "(review_batch guarded, bool) meth" where
  "review_is_approved = WithLock (get_f batch_complete Return)"

definition review_approved_by :: "(review_batch guarded, string set) meth" where
  "review_approved_by = WithLock (get_f approved_so_far Return)"

definition review_remaining :: "(review_batch guarded, string set) meth" where
  "review_remaining = WithLock (get_f (\<lambda>f. required_by_batch f - approved_so_far f) Return)"

fun review_meth :: "approval_op \<Rightarrow> (review_batch guarded, approval_reply) meth" where
  "review_meth (Approve v) = map_meth Changed (review_approve v)"
| "review_meth Is_approved = map_meth Verdict review_is_approved"
| "review_meth Approved_by = map_meth Reviewers review_approved_by"
| "review_meth Remaining = map_meth Reviewers review_remaining"

text \<open>
  The call of \<open>wait_until_approved\<close>: the sign of the timeout is all that matters, the two events
  stand for waiting with and without a timeout.
\<close>

definition review_wait :: "tid \<Rightarrow> int option \<Rightarrow> approval_op monitor_event result" where
  "review_wait t timeout =
     (case timeout of
        None \<Rightarrow> Inr (Await t False)
      | Some seconds \<Rightarrow>
          if seconds < 0 then Inl (ValueError ''timeout must not be negative'')
          else Inr (Await t True))"

abbreviation review_step ::
  "(approval_op, review_batch, approval_reply) monitor \<Rightarrow> approval_op monitor_event \<Rightarrow>
   (approval_op, review_batch, approval_reply) monitor option" where
  "review_step \<equiv> monitor_step review_meth (\<lambda>_ _. True) batch_complete (\<lambda>_. False)"

subsection \<open>The effect of each method\<close>

lemma run_review_approve [op_simps]:
  "run_op (review_approve v) f =
     (if v = '''' then (Inl (ValueError ''reviewer name must not be empty''), f, False)
      else if v \<notin> required_by_batch f
        then (Inl (ValueError (py_repr v @ '' is not a required reviewer'')), f, False)
      else if v \<in> approved_so_far f then (Inr False, f, False)
      else (Inr True, f\<lparr>approved_so_far := insert v (approved_so_far f)\<rparr>, True))"
  by (simp add: run_op_def review_approve_def)

lemma run_review_reads [op_simps]:
  "run_op review_is_approved f = (batch_complete f, f, False)"
  "run_op review_approved_by f = (approved_so_far f, f, False)"
  "run_op review_remaining f = (required_by_batch f - approved_so_far f, f, False)"
  by (simp_all add: run_op_def review_is_approved_def review_approved_by_def review_remaining_def)

interpretation review: approval_class review_meth required_by_batch approved_so_far batch_complete
  init_review "\<lambda>_. False"
proof unfold_locales
  show "approved_so_far f' = approved_so_far f \<union> {v. x = Approve v \<and> r = Changed (Inr True)}"
    if "run_op (review_meth x) f = (r, f', n)" for x f r f' n
    using that by (cases x) (auto simp: op_simps split: if_splits)
  show "required_by_batch f' = required_by_batch f"
    if "run_op (review_meth x) f = (r, f', n)" for x f r f' n
    using that by (cases x) (auto simp: op_simps split: if_splits)
qed (auto simp: init_review_def batch_complete_def op_simps split: if_splits)

subsection \<open>Properties\<close>

text \<open>
  \<open>AsyncReviewBatch\<close> under every interleaving of reviewers and waiting tasks: a wait that
  returned true means that every required reviewer has approved, and no wake-up is lost, so once
  every required reviewer has approved, each task still waiting returns true by its next step.
\<close>

lemma review_released_when_approved:
  assumes "init_review reviewers = Inr f"
    and "runs review_step (fresh_monitor f) schedule = Some m"
  shows "(Waited t True \<in> set (history m) \<longrightarrow> set reviewers \<subseteq> approvals (history m)) \<and>
         (set reviewers \<subseteq> approvals (history m) \<and> waiters m u \<noteq> None \<longrightarrow>
            review_step m (Resume u) =
              Some (m\<lparr>waiters := (waiters m)(u := None), history := history m @ [Waited u True]\<rparr>))"
  using review.released[OF assms] .

definition policy_batch :: review_batch where
  "policy_batch = \<lparr>required_by_batch = {''fin'', ''law''}, approved_so_far = {}\<rparr>"

definition review_end :: "(approval_op, review_batch, approval_reply) monitor" where
  "review_end = the (runs review_step (fresh_monitor policy_batch) approval_schedule)"

lemma review_end_run:
  "init_review [''fin'', ''law''] = Inr policy_batch"
  "runs review_step (fresh_monitor policy_batch) approval_schedule = Some review_end"
  "Waited 0 True \<in> set (history review_end)"
  by (auto simp: review_end_def approval_schedule_def policy_batch_def init_review_def
      fresh_monitor_def run_review_approve batch_complete_def wake_all_def)

lemma review_released_when_approved_witness:
  "Waited 0 True \<in> set (history review_end) \<and>
   set [''fin'', ''law''] \<subseteq> approvals (history review_end)"
  using review_end_run(3) review_released_when_approved[OF review_end_run(1,2)] by blast

end
