(* ===== verification/Tracker.thy ===== *)
theory Tracker
  imports Monitor
begin

section \<open>requesttracker: draining requests before shutdown\<close>

text \<open>
  Models \<^verbatim>\<open>requesttracker/tracker.py\<close>. \<open>track_request\<close> is a context manager: its entry
  either raises or counts the request, and its exit, which runs however the handler ends,
  happens once for each counted entry. The machine keeps the handlers that are between the
  two, so an exit is possible only for such a handler.
\<close>

subsection \<open>Fields and methods\<close>

record tracker =
  active_count :: int
  shutdown_started :: bool

definition init_tracker :: tracker where
  "init_tracker = \<lparr>active_count = 0, shutdown_started = False\<rparr>"

definition is_drained :: "tracker \<Rightarrow> bool" where
  "is_drained f \<longleftrightarrow> active_count f = 0"

text \<open>The two critical sections of \<open>track_request\<close>.\<close>

definition track_entry :: "(tracker guarded, unit result) meth" where
  "track_entry =
     WithLock (get_f shutdown_started (\<lambda>stopping.
       if stopping then Return (Inl (ShutdownStartedError ''shutdown has already started''))
       else get_f active_count (\<lambda>n.
         set_f (\<lambda>f. f\<lparr>active_count := n + 1\<rparr>) (Return (Inr ())))))"

definition track_exit :: "(tracker guarded, unit) meth" where
  "track_exit =
     WithLock (get_f active_count (\<lambda>n.
       set_f (\<lambda>f. f\<lparr>active_count := n - 1\<rparr>)
         (get_f active_count (\<lambda>left.
           if left = 0 then notify_all (Return ()) else Return ()))))"

definition begin_shutdown :: "(tracker guarded, unit) meth" where
  "begin_shutdown =
     WithLock (set_f (\<lambda>f. f\<lparr>shutdown_started := True\<rparr>)
       (get_f active_count (\<lambda>n. if n = 0 then notify_all (Return ()) else Return ())))"

definition active_requests :: "(tracker guarded, int) meth" where
  "active_requests = WithLock (get_f active_count Return)"

definition is_shutting_down :: "(tracker guarded, bool) meth" where
  "is_shutting_down = WithLock (get_f shutdown_started Return)"

datatype tracker_op =
    Track_entry
  | Track_exit
  | Begin_shutdown
  | Active_requests
  | Is_shutting_down

datatype tracker_reply =
    Admitted "unit result"
  | Nothing unit
  | Active int
  | Stopping bool

fun tracker_meth :: "tracker_op \<Rightarrow> (tracker guarded, tracker_reply) meth" where
  "tracker_meth Track_entry = map_meth Admitted track_entry"
| "tracker_meth Track_exit = map_meth Nothing track_exit"
| "tracker_meth Begin_shutdown = map_meth Nothing begin_shutdown"
| "tracker_meth Active_requests = map_meth Active active_requests"
| "tracker_meth Is_shutting_down = map_meth Stopping is_shutting_down"

text \<open>An exit follows a counted entry, so the count is positive when it happens.\<close>

definition tracker_allowed :: "tracker \<Rightarrow> tracker_op \<Rightarrow> bool" where
  "tracker_allowed f x \<longleftrightarrow> (x = Track_exit \<longrightarrow> 0 < active_count f)"

text \<open>\<open>wait_until_drained\<close> is the wait of the monitor, with \<open>is_drained\<close> as its predicate.\<close>

abbreviation drain_step ::
  "(tracker_op, tracker, tracker_reply) monitor \<Rightarrow> tracker_op monitor_event \<Rightarrow>
   (tracker_op, tracker, tracker_reply) monitor option" where
  "drain_step \<equiv> monitor_step tracker_meth tracker_allowed is_drained (\<lambda>now. now)"

subsection \<open>Handlers inside the context manager\<close>

record service =
  tracking :: "(tracker_op, tracker, tracker_reply) monitor"
  handlers :: "tid multiset"

definition fresh_service :: service where
  "fresh_service = \<lparr>tracking = fresh_monitor init_tracker, handlers = {#}\<rparr>"

definition handlers_after :: "tracker \<Rightarrow> tid multiset \<Rightarrow> tracker_op monitor_event \<Rightarrow> tid multiset" where
  "handlers_after f H e =
     (case e of
        Enter t Track_entry \<Rightarrow> if fst (run_op track_entry f) = Inr () then H + {#t#} else H
      | Enter t Track_exit \<Rightarrow> H - {#t#}
      | _ \<Rightarrow> H)"

definition exit_allowed :: "tid multiset \<Rightarrow> tracker_op monitor_event \<Rightarrow> bool" where
  "exit_allowed H e \<longleftrightarrow> (case e of Enter t Track_exit \<Rightarrow> t \<in># H | _ \<Rightarrow> True)"

definition service_step :: "service \<Rightarrow> tracker_op monitor_event \<Rightarrow> service option" where
  "service_step s e =
     (if \<not> exit_allowed (handlers s) e then None
      else case drain_step (tracking s) e of
        None \<Rightarrow> None
      | Some m \<Rightarrow> Some \<lparr>tracking = m,
                        handlers = handlers_after (object (tracking s)) (handlers s) e\<rparr>)"

subsection \<open>The effect of each method\<close>

lemma run_track_entry [op_simps]:
  "run_op track_entry f =
     (if shutdown_started f
      then (Inl (ShutdownStartedError ''shutdown has already started''), f, False)
      else (Inr (), f\<lparr>active_count := active_count f + 1\<rparr>, False))"
  by (simp add: run_op_def track_entry_def)

lemma run_track_exit [op_simps]:
  "run_op track_exit f = ((), f\<lparr>active_count := active_count f - 1\<rparr>, active_count f = 1)"
  by (simp add: run_op_def track_exit_def)

lemma run_begin_shutdown [op_simps]:
  "run_op begin_shutdown f = ((), f\<lparr>shutdown_started := True\<rparr>, active_count f = 0)"
  by (simp add: run_op_def begin_shutdown_def)

lemma run_active_requests [op_simps]: "run_op active_requests f = (active_count f, f, False)"
  by (simp add: run_op_def active_requests_def)

lemma run_is_shutting_down [op_simps]: "run_op is_shutting_down f = (shutdown_started f, f, False)"
  by (simp add: run_op_def is_shutting_down_def)



subsection \<open>The count and the handlers\<close>

definition counted :: "service \<Rightarrow> bool" where
  "counted s \<longleftrightarrow> active_count (object (tracking s)) = int (size (handlers s))"


lemma counted_step:
  assumes "counted s" and "service_step s e = Some s'"
  shows "counted s'"
proof (cases e)
  case (Enter t x)
  with assms show ?thesis
    by (cases x)
      (auto simp: counted_def service_step_def exit_allowed_def handlers_after_def op_simps
        size_Diff_singleton nat_diff_split of_nat_diff size_eq_0_iff_empty
        dest!: multi_member_split split: if_splits)
qed (use assms in \<open>auto simp: counted_def service_step_def exit_allowed_def handlers_after_def
      split: if_splits option.splits\<close>)

lemma counted_start: "counted fresh_service"
  by (simp add: counted_def fresh_service_def fresh_monitor_def init_tracker_def)

interpretation counting: invariant_machine service_step "\<lambda>s. s = fresh_service" counted
  by unfold_locales (auto intro: counted_start counted_step)


lemma drained_no_handler: "counted s \<Longrightarrow> is_drained (object (tracking s)) \<longleftrightarrow> handlers s = {#}"
  by (simp add: counted_def is_drained_def)

lemma shutdown_step:
  assumes "service_step s e = Some s'" and "shutdown_started (object (tracking s))"
  shows "shutdown_started (object (tracking s')) \<and> handlers s' \<subseteq># handlers s"
proof (cases e)
  case (Enter t x)
  with assms show ?thesis
    by (cases x) (auto simp: service_step_def handlers_after_def op_simps split: if_splits)
qed (use assms in \<open>auto simp: service_step_def handlers_after_def split: if_splits option.splits\<close>)

lemma shutdown_runs:
  "runs service_step s es = Some s' \<Longrightarrow> shutdown_started (object (tracking s)) \<Longrightarrow>
   shutdown_started (object (tracking s')) \<and> handlers s' \<subseteq># handlers s"
proof (induction es arbitrary: s)
  case (Cons e es)
  then obtain s1 where "service_step s e = Some s1" "runs service_step s1 es = Some s'"
    by (auto split: option.splits)
  with shutdown_step[of s e s1] Cons.IH[of s1] Cons.prems(2) show ?case
    by (blast intro: subset_mset.order_trans)
qed simp

subsection \<open>Properties\<close>


text \<open>Two handlers run while shutdown begins and a caller waits; both finish.\<close>

definition drain_schedule :: "tracker_op monitor_event list" where
  "drain_schedule =
     [Enter 1 Track_entry, Enter 2 Track_entry, Enter 0 Begin_shutdown, Await 0 False,
      Enter 3 Track_entry, Enter 1 Track_exit, Enter 2 Track_exit]"

definition drain_end :: service where
  "drain_end = the (runs service_step fresh_service drain_schedule)"

lemmas service_eval =
  service_step_def exit_allowed_def handlers_after_def fresh_service_def fresh_monitor_def
  init_tracker_def op_simps is_drained_def tracker_allowed_def wake_all_def

lemma drain_end_run:
  "runs service_step fresh_service drain_schedule = Some drain_end"
  "handlers drain_end = {#}" "waiters (tracking drain_end) 0 \<noteq> None"
  by (simp_all add: drain_end_def drain_schedule_def service_eval)


text \<open>
  Once shutdown has begun it stays, no handler is admitted any more and the handlers under
  way only leave, so a drained service stays drained whatever its callers do.
\<close>

lemma shutdown_is_final:
  assumes "runs service_step fresh_service before = Some s"
    and "shutdown_started (object (tracking s))"
    and "runs service_step s after = Some s'"
  shows "shutdown_started (object (tracking s')) \<and> handlers s' \<subseteq># handlers s \<and>
         fst (run_op track_entry (object (tracking s'))) =
           Inl (ShutdownStartedError ''shutdown has already started'') \<and>
         (is_drained (object (tracking s)) \<longrightarrow> is_drained (object (tracking s')))"
proof -
  note fin = shutdown_runs[OF assms(3,2)]
  from counting.invariant[OF refl assms(1)] have c: "counted s" .
  have "runs service_step fresh_service (before @ after) = Some s'"
    using assms by (simp add: runs_append)
  from counting.invariant[OF refl this] have "counted s'" .
  with fin c show ?thesis by (auto simp: op_simps drained_no_handler)
qed

lemma shutdown_is_final_witness:
  "handlers drain_end \<subseteq># {#1, 2#} \<and> is_drained (object (tracking drain_end))"
proof -
  define mid where "mid = the (runs service_step fresh_service (take 3 drain_schedule))"
  have mid: "runs service_step fresh_service (take 3 drain_schedule) = Some mid"
    "shutdown_started (object (tracking mid))" "handlers mid = {#1, 2#}"
    "runs service_step mid (drop 3 drain_schedule) = Some drain_end"
    by (simp_all add: mid_def drain_end_def drain_schedule_def service_eval add_mset_commute)
  from shutdown_is_final[OF mid(1,2,4)] mid(3) drain_end_run(2) show ?thesis
    using drained_no_handler[OF counting.invariant[OF refl drain_end_run(1)]] by simp
qed

end
