(* ===== verification/Startup.thy ===== *)
theory Startup
  imports Monitor
begin

section \<open>servicestartup: a one-way readiness signal\<close>

text \<open>
  Models \<^verbatim>\<open>servicestartup/startup.py\<close> over \<open>threading.Event\<close>, which is a flag under a
  condition variable: \<open>set\<close> makes it true and notifies, \<open>wait\<close> blocks while it is false. A
  wait whose timeout expires returns false, also when the flag is set at that very moment.
  Nothing clears the flag, so it is an instance of \<open>stable_condition\<close>.
\<close>

record startup =
  ready_flag :: bool

definition init_startup :: startup where
  "init_startup = \<lparr>ready_flag = False\<rparr>"

definition mark_ready :: "(startup guarded, unit) meth" where
  "mark_ready = WithLock (set_f (\<lambda>f. f\<lparr>ready_flag := True\<rparr>) (notify_all (Return ())))"

definition is_ready :: "(startup guarded, bool) meth" where
  "is_ready = WithLock (get_f ready_flag Return)"

datatype startup_op =
    Mark_ready
  | Is_ready

datatype startup_reply =
    Marked unit
  | Ready bool

fun startup_meth :: "startup_op \<Rightarrow> (startup guarded, startup_reply) meth" where
  "startup_meth Mark_ready = map_meth Marked mark_ready"
| "startup_meth Is_ready = map_meth Ready is_ready"

abbreviation startup_step ::
  "(startup_op, startup, startup_reply) monitor \<Rightarrow> startup_op monitor_event \<Rightarrow>
   (startup_op, startup, startup_reply) monitor option" where
  "startup_step \<equiv> monitor_step startup_meth (\<lambda>_ _. True) ready_flag (\<lambda>_. False)"

lemma run_mark_ready [op_simps]: "run_op mark_ready f = ((), f\<lparr>ready_flag := True\<rparr>, True)"
  by (simp add: run_op_def mark_ready_def)

lemma run_is_ready [op_simps]: "run_op is_ready f = (ready_flag f, f, False)"
  by (simp add: run_op_def is_ready_def)

lemma startup_laws:
  assumes "run_op (startup_meth x) f = (r, f', n)"
  shows "\<not> ready_flag f \<Longrightarrow> ready_flag f' \<Longrightarrow> n" and "ready_flag f \<Longrightarrow> ready_flag f'"
  using assms by (cases x; auto simp: op_simps)+

interpretation ready: stable_condition startup_meth "\<lambda>_ _. True" ready_flag "\<lambda>_. False"
  "\<lambda>f. f = init_startup" "\<lambda>_ _. True"
  by unfold_locales (auto dest: startup_laws)

definition ready_recorded :: "(startup_op, startup, startup_reply) monitor \<Rightarrow> bool" where
  "ready_recorded m \<longleftrightarrow>
     (ready_flag (object m) \<longleftrightarrow> (\<exists>t. Did t Mark_ready (Marked ()) \<in> set (history m)))"

lemma ready_recorded_start: "m = fresh_monitor init_startup \<Longrightarrow> ready_recorded m"
  by (simp add: ready_recorded_def fresh_monitor_def init_startup_def)

lemma ready_recorded_step:
  assumes "ready_recorded m" and "startup_step m e = Some m'"
  shows "ready_recorded m'"
proof (cases e)
  case (Enter t x)
  with assms show ?thesis
    by (cases x) (auto simp: ready_recorded_def op_simps split: if_splits)
qed (use assms in \<open>auto simp: ready_recorded_def split: if_splits option.splits\<close>)

interpretation marked: invariant_machine startup_step "\<lambda>m. m = fresh_monitor init_startup" ready_recorded
  by unfold_locales (auto intro: ready_recorded_start ready_recorded_step simp del: monitor_step.simps)

subsection \<open>Properties\<close>

text \<open>
  Readiness is one-way under every interleaving: a wait that returned true means that
  \<open>mark_ready\<close> has been called; once it has been called, every caller still waiting returns
  true by its next step, every later wait returns true without blocking, and \<open>is_ready\<close> stays
  true.
\<close>

lemma readiness_is_one_way:
  assumes "runs startup_step (fresh_monitor init_startup) schedule = Some m"
  shows "(Waited t True \<in> set (history m) \<longrightarrow> (\<exists>u. Did u Mark_ready (Marked ()) \<in> set (history m))) \<and>
         (Did u Mark_ready (Marked ()) \<in> set (history m) \<longrightarrow>
            fst (run_op is_ready (object m)) \<and>
            (waiters m v \<noteq> None \<longrightarrow>
               startup_step m (Resume v) =
                 Some (m\<lparr>waiters := (waiters m)(v := None), history := history m @ [Waited v True]\<rparr>)) \<and>
            (waiters m v = None \<longrightarrow>
               startup_step m (Await v b) = Some (m\<lparr>history := history m @ [Waited v True]\<rparr>)))"
proof -
  have rec: "ready_flag (object m) \<longleftrightarrow> (\<exists>t. Did t Mark_ready (Marked ()) \<in> set (history m))"
    using marked.invariant[OF refl assms] by (simp add: ready_recorded_def)
  have wake: "startup_step m (Resume v) =
      Some (m\<lparr>waiters := (waiters m)(v := None), history := history m @ [Waited v True]\<rparr>)"
    if "ready_flag (object m)" "waiters m v \<noteq> None"
    using ready.wake_up_delivered[OF refl assms that(1)] that(2) by auto
  show ?thesis
    using rec ready.true_is_final[OF refl assms] wake by (auto simp: op_simps simp del: monitor_step.simps(3))
qed

definition startup_schedule :: "startup_op monitor_event list" where
  "startup_schedule =
     [Await 0 False, Await 1 True, Enter 2 Is_ready, Enter 2 Mark_ready, Resume 0, Expire 1]"

definition startup_end :: "(startup_op, startup, startup_reply) monitor" where
  "startup_end = the (runs startup_step (fresh_monitor init_startup) startup_schedule)"

lemma startup_end_run:
  "runs startup_step (fresh_monitor init_startup) startup_schedule = Some startup_end"
  "history startup_end = [Did 2 Is_ready (Ready False), Did 2 Mark_ready (Marked ()),
     Waited 0 True, Waited 1 False]"
  "waiters startup_end 3 = None"
  by (simp_all add: startup_end_def startup_schedule_def fresh_monitor_def init_startup_def op_simps
      wake_all_def)

lemma readiness_is_one_way_witness:
  "fst (run_op is_ready (object startup_end)) \<and>
   startup_step startup_end (Await 3 False) =
     Some (startup_end\<lparr>history := history startup_end @ [Waited 3 True]\<rparr>)"
  using readiness_is_one_way[OF startup_end_run(1)] startup_end_run(2,3)
  by (metis list.set_intros(1,2))

end
