(* ===== verification/Semaphores.thy ===== *)
theory Semaphores
  imports Prelude
begin

section \<open>Semaphores\<close>

text \<open>
  The standard library's \<open>Semaphore\<close>, \<open>BoundedSemaphore\<close> and \<open>asyncio.Semaphore\<close>: a count of
  free permits. \<open>acquire\<close> blocks while the count is zero; with a timeout it gives up, but only
  while it still finds the count at zero. A caller that waits may also be interrupted and
  leaves without a permit (\<open>Withdraw\<close>). A caller may hold several permits, so the leases
  form a multiset; \<open>'t\<close> is the type of the callers' names. The bounded variant raises
  \<open>ValueError\<close> on a release beyond its initial value.
\<close>

record 't lease =
  free :: nat
  waiting :: "'t \<Rightarrow> bool option"
  leased :: "'t multiset"

definition fresh_lease :: "nat \<Rightarrow> 't lease" where
  "fresh_lease n = \<lparr>free = n, waiting = (\<lambda>_. None), leased = {#}\<rparr>"

datatype 't lease_event =
    Request 't bool
  | Grant 't
  | Deny 't
  | Withdraw 't
  | Give_back 't

fun lease_step :: "'t lease \<Rightarrow> 't lease_event \<Rightarrow> 't lease option" where
  "lease_step s (Request t has_timeout) =
     (if waiting s t \<noteq> None then None
      else Some (s\<lparr>waiting := (waiting s)(t \<mapsto> has_timeout)\<rparr>))"
| "lease_step s (Grant t) =
     (if waiting s t = None \<or> free s = 0 then None
      else Some (s\<lparr>free := free s - 1, waiting := (waiting s)(t := None),
                   leased := leased s + {#t#}\<rparr>))"
| "lease_step s (Deny t) =
     (if waiting s t \<noteq> Some True \<or> free s \<noteq> 0 then None
      else Some (s\<lparr>waiting := (waiting s)(t := None)\<rparr>))"
| "lease_step s (Withdraw t) =
     (if waiting s t = None then None
      else Some (s\<lparr>waiting := (waiting s)(t := None)\<rparr>))"
| "lease_step s (Give_back t) =
     (if t \<notin># leased s then None
      else Some (s\<lparr>free := free s + 1, leased := leased s - {#t#}\<rparr>))"

definition bounded_release_raises :: "nat \<Rightarrow> 't lease \<Rightarrow> bool" where
  "bounded_release_raises limit s \<longleftrightarrow> limit \<le> free s"

definition permits_of :: "'t lease \<Rightarrow> nat" where
  "permits_of s = free s + size (leased s)"

lemma lease_step_permits:
  "lease_step s e = Some s' \<Longrightarrow> permits_of s' = permits_of s"
  by (cases e) (auto simp: permits_of_def dest!: multi_member_split split: if_splits)

lemma lease_runs_permits:
  "runs lease_step s es = Some s' \<Longrightarrow> permits_of s' = permits_of s"
  by (induction es arbitrary: s) (auto dest: lease_step_permits split: option.splits)

lemma permits_fresh [simp]: "permits_of (fresh_lease n) = n"
  by (simp add: permits_of_def fresh_lease_def)

text \<open>
  A component that uses a semaphore: each of its steps makes the semaphore take a list of
  its own steps, so permits are neither lost nor made.
\<close>

locale semaphore_client =
  fixes step :: "'s \<Rightarrow> 'e \<Rightarrow> 's option"
    and slots_of :: "'s \<Rightarrow> 't lease"
    and start_ok :: "nat \<Rightarrow> 's \<Rightarrow> bool"
    and uses :: "'s \<Rightarrow> 'e \<Rightarrow> 't lease_event list"
  assumes starts: "start_ok n s \<Longrightarrow> slots_of s = fresh_lease n"
    and simulates: "step s e = Some s' \<Longrightarrow> runs lease_step (slots_of s) (uses s e) = Some (slots_of s')"
begin

lemma permits_kept:
  "runs step s es = Some s' \<Longrightarrow> permits_of (slots_of s') = permits_of (slots_of s)"
proof (induction es arbitrary: s)
  case (Cons e es)
  then obtain s1 where "step s e = Some s1" "runs step s1 es = Some s'"
    by (auto split: option.splits)
  with Cons.IH lease_runs_permits[OF simulates] show ?case by metis
qed simp

lemma permits:
  "start_ok n s0 \<Longrightarrow> runs step s0 es = Some s \<Longrightarrow> free (slots_of s) + size (leased (slots_of s)) = n"
  using permits_kept[of s0 es s] starts[of n s0] by (simp add: permits_of_def fresh_lease_def)

end

end
