(* ===== verification/Machines.thy ===== *)
theory Machines
  imports Prelude
begin

section \<open>Machines that finish, machines that refine\<close>

text \<open>
  Two interfaces over the labelled machines of \<open>Prelude\<close>. \<open>finishing_machine\<close> is for
  components that promise to come to an end (a stop, a close, a batch): some of the events are
  the component's own steps, each of them uses up a measure, and as long as the component has
  not finished one of them is possible. \<open>refined_machine\<close> is for components that implement a
  simpler machine: an abstraction function that maps every concrete step to a run of abstract
  steps.
\<close>

subsection \<open>Coming to an end\<close>

lemma list_all_True [simp]: "list_all (\<lambda>_. True) xs"
  by (simp add: list_all_iff)

text \<open>A measure that adds up what numbered parts have left, and what changing one part does to it.\<close>

lemma sum_update:
  fixes f :: "nat \<Rightarrow> nat"
  assumes "t < n"
  shows "(\<Sum>i<n. (f(t := x)) i) + f t = (\<Sum>i<n. f i) + x"
proof -
  have "sum (f(t := x)) ({..<n} - {t}) = sum f ({..<n} - {t})" by (rule sum.cong) auto
  with assms show ?thesis by (simp add: sum.remove[of "{..<n}" t] del: fun_upd_apply) simp
qed

text \<open>The same for parts in a list, and for counting the parts with a property.\<close>

lemma parts_update:
  fixes f :: "'a \<Rightarrow> nat"
  shows "i < length xs \<Longrightarrow>
    sum_list (map f (xs[i := y])) + f (xs ! i) = sum_list (map f xs) + f y"
proof (induction xs arbitrary: i)
  case (Cons x xs)
  then show ?case by (cases i) auto
qed simp

lemma count_update:
  "i < length xs \<Longrightarrow>
   length (filter P (xs[i := y])) + (if P (xs ! i) then 1 else 0) =
     length (filter P xs) + (if P y then 1 else 0)"
proof (induction xs arbitrary: i)
  case (Cons x xs)
  then show ?case by (cases i) force+
qed simp

text \<open>The same once more, for parts that belong to callers of which only finitely many have work left.\<close>

definition total :: "('c \<Rightarrow> nat) \<Rightarrow> ('t \<Rightarrow> 'c) \<Rightarrow> nat" where
  "total w f = (\<Sum>t | w (f t) \<noteq> 0. w (f t))"

definition finite_work :: "('c \<Rightarrow> nat) \<Rightarrow> ('t \<Rightarrow> 'c) \<Rightarrow> bool" where
  "finite_work w f \<longleftrightarrow> finite {t. w (f t) \<noteq> 0}"

lemma finite_work_update: "finite_work w f \<Longrightarrow> finite_work w (f(u := c))"
  unfolding finite_work_def by (rule finite_subset[of _ "insert u {t. w (f t) \<noteq> 0}"]) auto

lemma total_update:
  assumes "finite_work w f"
  shows "total w (f(u := c)) + w (f u) = total w f + w c"
proof -
  let ?S = "insert u {t. w (f t) \<noteq> 0}"
  have fin: "finite ?S" using assms by (simp add: finite_work_def)
  have on_S: "total w g = (\<Sum>t \<in> ?S. w (g t))" if "\<And>t. t \<notin> ?S \<Longrightarrow> w (g t) = 0" for g
    unfolding total_def
  proof (rule sum.mono_neutral_left[OF fin])
    show "{t. w (g t) \<noteq> 0} \<subseteq> ?S" using that by (metis (mono_tags, lifting) mem_Collect_eq subsetI)
    show "\<forall>t \<in> ?S - {t. w (g t) \<noteq> 0}. w (g t) = 0" by simp
  qed
  have "(\<Sum>t \<in> ?S - {u}. w ((f(u := c)) t)) = (\<Sum>t \<in> ?S - {u}. w (f t))"
    by (rule sum.cong) auto
  moreover have "total w g = w (g u) + (\<Sum>t \<in> ?S - {u}. w (g t))" if "\<And>t. t \<notin> ?S \<Longrightarrow> w (g t) = 0" for g
    using on_S[OF that] sum.remove[OF fin, of u "\<lambda>t. w (g t)"] by simp
  note this[of "f(u := c)"] this[of f]
  ultimately show ?thesis by simp
qed

text \<open>
  \<open>own\<close> are the steps of the component itself, \<open>allowed\<close> all the steps that its surroundings
  may take in between; these may not add to what is left to do.
\<close>

locale finishing_machine =
  fixes step :: "'s \<Rightarrow> 'e \<Rightarrow> 's option"
    and inv :: "'s \<Rightarrow> bool"
    and allowed :: "'e \<Rightarrow> bool"
    and own :: "'e \<Rightarrow> bool"
    and finished :: "'s \<Rightarrow> bool"
    and left :: "'s \<Rightarrow> nat"
  assumes own_allowed: "own e \<Longrightarrow> allowed e"
    and inv_allowed: "inv s \<Longrightarrow> allowed e \<Longrightarrow> step s e = Some s' \<Longrightarrow> inv s'"
    and left_own: "inv s \<Longrightarrow> own e \<Longrightarrow> step s e = Some s' \<Longrightarrow> left s' < left s"
    and left_allowed: "inv s \<Longrightarrow> allowed e \<Longrightarrow> step s e = Some s' \<Longrightarrow> left s' \<le> left s"
    and progress: "inv s \<Longrightarrow> \<not> finished s \<Longrightarrow> \<exists>e. own e \<and> step s e \<noteq> None"
begin

text \<open>However the surroundings interfere, only so many own steps can happen.\<close>

lemma own_steps_bounded:
  "inv s \<Longrightarrow> list_all allowed es \<Longrightarrow> runs step s es = Some s' \<Longrightarrow>
   inv s' \<and> length (filter own es) + left s' \<le> left s"
proof (induction es arbitrary: s)
  case (Cons e es)
  then obtain s1 where s1: "step s e = Some s1" "runs step s1 es = Some s'"
    by (auto split: option.splits)
  with Cons.prems have e: "allowed e" "list_all allowed es" by simp_all
  from inv_allowed[OF Cons.prems(1) e(1) s1(1)] have "inv s1" .
  from Cons.IH[OF this e(2) s1(2)]
    left_allowed[OF Cons.prems(1) e(1) s1(1)] left_own[OF Cons.prems(1) _ s1(1)]
  show ?case by (cases "own e") auto
qed simp

text \<open>A schedule that lets the component take steps until it cannot has finished it.\<close>

lemma stuck_is_finished:
  "inv s \<Longrightarrow> \<forall>e. own e \<longrightarrow> step s e = None \<Longrightarrow> finished s"
  by (rule ccontr) (auto dest: progress)

text \<open>And such a schedule exists, within the bound.\<close>

lemma can_finish:
  "inv s \<Longrightarrow> \<exists>es s'. list_all own es \<and> runs step s es = Some s' \<and> finished s' \<and> length es \<le> left s"
proof (induction "left s" arbitrary: s rule: less_induct)
  case less
  show ?case
  proof (cases "finished s")
    case True
    then show ?thesis by (intro exI[of _ "[]"] exI[of _ s]) simp
  next
    case False
    with progress less.prems obtain e s1 where e: "own e" "step s e = Some s1" by blast
    from left_own[OF less.prems e] have less_left: "left s1 < left s" .
    from less.hyps[OF this inv_allowed[OF less.prems own_allowed[OF e(1)] e(2)]]
    obtain es s' where "list_all own es" "runs step s1 es = Some s'" "finished s'" "length es \<le> left s1"
      by blast
    with e less_left show ?thesis by (intro exI[of _ "e # es"] exI[of _ s']) simp
  qed
qed

text \<open>The three together, for a state reached by allowed steps.\<close>

lemma comes_to_an_end:
  assumes "inv s" and "list_all allowed es" and "runs step s es = Some s'"
  shows "length (filter own es) + left s' \<le> left s \<and>
         ((\<forall>e. own e \<longrightarrow> step s' e = None) \<longrightarrow> finished s') \<and>
         (\<exists>rest t. list_all own rest \<and> runs step s' rest = Some t \<and> finished t \<and> length rest \<le> left s')"
proof -
  from own_steps_bounded[OF assms] have inv: "inv s'" and len: "length (filter own es) + left s' \<le> left s"
    by simp_all
  from can_finish[OF inv] stuck_is_finished[OF inv] len show ?thesis by simp
qed

end

subsection \<open>Refinement\<close>

text \<open>
  The abstract events of a concrete run: \<open>visible\<close> gives those of one step; a step that does
  not show amounts to none.
\<close>

fun visible_run ::
  "('s \<Rightarrow> 'e \<Rightarrow> 's option) \<Rightarrow> ('s \<Rightarrow> 'e \<Rightarrow> 'f list) \<Rightarrow> 's \<Rightarrow> 'e list \<Rightarrow> 'f list" where
  "visible_run step visible s [] = []"
| "visible_run step visible s (e # es) =
     visible s e @ (case step s e of None \<Rightarrow> [] | Some s' \<Rightarrow> visible_run step visible s' es)"

locale refined_machine =
  fixes step :: "'s \<Rightarrow> 'e \<Rightarrow> 's option"
    and inv :: "'s \<Rightarrow> bool"
    and abstract_step :: "'a \<Rightarrow> 'f \<Rightarrow> 'a option"
    and abs :: "'s \<Rightarrow> 'a"
    and visible :: "'s \<Rightarrow> 'e \<Rightarrow> 'f list"
  assumes inv_step: "inv s \<Longrightarrow> step s e = Some s' \<Longrightarrow> inv s'"
    and simulation:
      "inv s \<Longrightarrow> step s e = Some s' \<Longrightarrow> runs abstract_step (abs s) (visible s e) = Some (abs s')"
begin

lemma refines:
  "inv s \<Longrightarrow> runs step s es = Some s' \<Longrightarrow>
   runs abstract_step (abs s) (visible_run step visible s es) = Some (abs s')"
proof (induction es arbitrary: s)
  case (Cons e es)
  then obtain s1 where s1: "step s e = Some s1" "runs step s1 es = Some s'"
    by (auto split: option.splits)
  from simulation[OF Cons.prems(1) s1(1)] Cons.IH[OF inv_step[OF Cons.prems(1) s1(1)] s1(2)] s1(1)
  show ?case by (simp add: runs_append)
qed simp

end

end
