(* ===== verification/Download_Pool.thy ===== *)
theory Download_Pool
  imports Semaphores Machines
begin

section \<open>downloadpool: at most so many downloads at once\<close>

text \<open>
  Models \<^verbatim>\<open>downloadpool/pool.py\<close>. A call to \<open>run\<close> validates its argument, waits for a slot
  of the semaphore, runs the download and gives the slot back in a \<^verbatim>\<open>finally\<close> clause; the
  download is a callable of the caller, so its outcome (a value, or any exception) is chosen
  by the schedule. A call that waits for its slot may be interrupted by a signal. A download
  may itself call \<open>run\<close> of the same pool, so each thread has the stack of its open calls; only
  the innermost one moves on.
\<close>

datatype pool_call =
    Acquiring string
  | Downloading string

text \<open>\<open>calls\<close> gives the open calls of a thread, the innermost first.\<close>

record 'v pool =
  slots :: "tid lease"
  calls :: "tid \<Rightarrow> pool_call list"
  pool_results :: "(tid \<times> string \<times> 'v result) list"

definition init_pool :: "int \<Rightarrow> 'v pool result" where
  "init_pool max_concurrent =
     (if max_concurrent \<le> 0 then Inl (ValueError ''max_concurrent must be greater than zero'')
      else Inr \<lparr>slots = fresh_lease (nat max_concurrent), calls = (\<lambda>_. []),
                pool_results = []\<rparr>)"

datatype 'v pool_event =
    Run tid string bool
  | Slot_acquired tid
  | Slot_timed_out tid
  | Wait_interrupted tid
  | Download_ended tid "'v result"

definition timeout_message :: "string \<Rightarrow> string" where
  "timeout_message download_id = ''timed out waiting for download slot: '' @ py_repr download_id"

text \<open>A thread calls \<open>run\<close> from outside of the pool or from a download that it runs.\<close>

fun may_run :: "pool_call list \<Rightarrow> bool" where
  "may_run (Acquiring d # cs) = False"
| "may_run _ = True"

definition pool_step :: "'v pool \<Rightarrow> 'v pool_event \<Rightarrow> 'v pool option" where
  "pool_step p e =
     (case e of
        Run t download_id has_timeout \<Rightarrow>
          if \<not> may_run (calls p t) then None
          else if download_id = '''' then
            Some (p\<lparr>pool_results := pool_results p @
              [(t, download_id, Inl (ValueError ''download_id must not be empty''))]\<rparr>)
          else map_option
            (\<lambda>s. p\<lparr>slots := s, calls := (calls p)(t := Acquiring download_id # calls p t)\<rparr>)
            (lease_step (slots p) (Request t has_timeout))
      | Slot_acquired t \<Rightarrow>
          (case calls p t of
             Acquiring download_id # cs \<Rightarrow> map_option
               (\<lambda>s. p\<lparr>slots := s, calls := (calls p)(t := Downloading download_id # cs)\<rparr>)
               (lease_step (slots p) (Grant t))
           | _ \<Rightarrow> None)
      | Slot_timed_out t \<Rightarrow>
          (case calls p t of
             Acquiring download_id # cs \<Rightarrow> map_option
               (\<lambda>s. p\<lparr>slots := s, calls := (calls p)(t := cs),
                      pool_results := pool_results p @
                        [(t, download_id, Inl (TimeoutError (timeout_message download_id)))]\<rparr>)
               (lease_step (slots p) (Deny t))
           | _ \<Rightarrow> None)
      | Wait_interrupted t \<Rightarrow>
          (case calls p t of
             Acquiring download_id # cs \<Rightarrow> map_option
               (\<lambda>s. p\<lparr>slots := s, calls := (calls p)(t := cs),
                      pool_results := pool_results p @ [(t, download_id, Inl interrupt)]\<rparr>)
               (lease_step (slots p) (Withdraw t))
           | _ \<Rightarrow> None)
      | Download_ended t outcome \<Rightarrow>
          (case calls p t of
             Downloading download_id # cs \<Rightarrow> map_option
               (\<lambda>s. p\<lparr>slots := s, calls := (calls p)(t := cs),
                      pool_results := pool_results p @ [(t, download_id, outcome)]\<rparr>)
               (lease_step (slots p) (Give_back t))
           | _ \<Rightarrow> None))"

fun thread_of :: "'v pool_event \<Rightarrow> tid" where
  "thread_of (Run t d b) = t"
| "thread_of (Slot_acquired t) = t"
| "thread_of (Slot_timed_out t) = t"
| "thread_of (Wait_interrupted t) = t"
| "thread_of (Download_ended t outcome) = t"

definition pool_uses :: "'v pool \<Rightarrow> 'v pool_event \<Rightarrow> tid lease_event list" where
  "pool_uses p e =
     (case e of
        Run t download_id has_timeout \<Rightarrow> if download_id = '''' then [] else [Request t has_timeout]
      | Slot_acquired t \<Rightarrow> [Grant t]
      | Slot_timed_out t \<Rightarrow> [Deny t]
      | Wait_interrupted t \<Rightarrow> [Withdraw t]
      | Download_ended t outcome \<Rightarrow> [Give_back t])"

definition pool_start :: "nat \<Rightarrow> 'v pool \<Rightarrow> bool" where
  "pool_start n p \<longleftrightarrow> init_pool (int n) = Inr p"

interpretation download_slots: semaphore_client pool_step slots pool_start pool_uses
proof unfold_locales
  fix n and p :: "'v pool"
  assume "pool_start n p"
  then show "slots p = fresh_lease n" by (auto simp: pool_start_def init_pool_def split: if_splits)
next
  fix p p' :: "'v pool" and e
  assume "pool_step p e = Some p'"
  then show "runs lease_step (slots p) (pool_uses p e) = Some (slots p')"
    by (cases e) (auto simp: pool_step_def pool_uses_def simp del: lease_step.simps
        split: list.splits pool_call.splits if_splits)
qed

subsection \<open>The callers and the leases agree\<close>

text \<open>A thread holds a slot for each download it runs, and only its innermost call can wait.\<close>

fun slot_count :: "pool_call list \<Rightarrow> nat" where
  "slot_count [] = 0"
| "slot_count (Acquiring d # cs) = slot_count cs"
| "slot_count (Downloading d # cs) = Suc (slot_count cs)"

fun slot_wanted :: "pool_call list \<Rightarrow> bool" where
  "slot_wanted (Acquiring d # cs) = True"
| "slot_wanted _ = False"

fun outer_download :: "pool_call \<Rightarrow> bool" where
  "outer_download (Acquiring d) = False"
| "outer_download (Downloading d) = True"

text \<open>What a step does: one thread opens a call, gets its slot, leaves without it, or ends its download.\<close>

lemma pool_step_shapes:
  assumes "pool_step p e = Some p'"
  obtains (refused) d b where "e = Run (thread_of e) d b" "calls p' = calls p" "slots p' = slots p"
  | (opened) d b where "e = Run (thread_of e) d b" "may_run (calls p (thread_of e))"
      "calls p' = (calls p)(thread_of e := Acquiring d # calls p (thread_of e))"
      "Some (slots p') = lease_step (slots p) (Request (thread_of e) b)"
  | (got) d cs where "e = Slot_acquired (thread_of e)" "calls p (thread_of e) = Acquiring d # cs"
      "calls p' = (calls p)(thread_of e := Downloading d # cs)"
      "Some (slots p') = lease_step (slots p) (Grant (thread_of e))"
  | (timed_out) d cs where "e = Slot_timed_out (thread_of e)" "calls p (thread_of e) = Acquiring d # cs"
      "calls p' = (calls p)(thread_of e := cs)"
      "Some (slots p') = lease_step (slots p) (Deny (thread_of e))"
  | (interrupted) d cs where "e = Wait_interrupted (thread_of e)" "calls p (thread_of e) = Acquiring d # cs"
      "calls p' = (calls p)(thread_of e := cs)"
      "Some (slots p') = lease_step (slots p) (Withdraw (thread_of e))"
  | (ended) outcome d cs where "e = Download_ended (thread_of e) outcome"
      "calls p (thread_of e) = Downloading d # cs" "calls p' = (calls p)(thread_of e := cs)"
      "Some (slots p') = lease_step (slots p) (Give_back (thread_of e))"
proof (cases e)
  case (Run t d b)
  with assms opened refused show thesis
    by (auto simp: pool_step_def simp del: lease_step.simps split: if_splits)
next
  case (Slot_acquired t)
  with assms got show thesis
    by (auto simp: pool_step_def simp del: lease_step.simps split: list.splits pool_call.splits)
next
  case (Slot_timed_out t)
  with assms timed_out show thesis
    by (auto simp: pool_step_def simp del: lease_step.simps split: list.splits pool_call.splits)
next
  case (Wait_interrupted t)
  with assms interrupted show thesis
    by (auto simp: pool_step_def simp del: lease_step.simps split: list.splits pool_call.splits)
next
  case (Download_ended t r)
  with assms ended show thesis
    by (auto simp: pool_step_def simp del: lease_step.simps split: list.splits pool_call.splits)
qed

definition agrees_for :: "tid \<Rightarrow> tid lease \<Rightarrow> pool_call list \<Rightarrow> bool" where
  "agrees_for t s cs \<longleftrightarrow>
     count (leased s) t = slot_count cs \<and> (waiting s t \<noteq> None) = slot_wanted cs \<and>
     list_all outer_download (tl cs)"

definition lease_agrees :: "'v pool \<Rightarrow> bool" where
  "lease_agrees p \<longleftrightarrow> (\<forall>t. agrees_for t (slots p) (calls p t))"

lemma lease_agreesD:
  assumes "lease_agrees p"
  shows "count (leased (slots p)) t = slot_count (calls p t)"
    "(waiting (slots p) t \<noteq> None) = slot_wanted (calls p t)" "list_all outer_download (tl (calls p t))"
  using assms by (simp_all add: lease_agrees_def agrees_for_def)

lemma may_run_nested: "may_run cs \<Longrightarrow> list_all outer_download (tl cs) \<Longrightarrow> list_all outer_download cs"
  by (cases cs rule: may_run.cases) auto

lemma outer_not_waiting: "list_all outer_download cs \<Longrightarrow> \<not> slot_wanted cs \<and> list_all outer_download (tl cs)"
  by (cases cs rule: slot_wanted.cases) auto

lemma may_run_wanted: "may_run cs \<longleftrightarrow> \<not> slot_wanted cs"
  by (cases cs rule: may_run.cases) auto

lemma lease_agrees_update:
  assumes "lease_agrees p" and "calls p' = (calls p)(t := cs)" and "agrees_for t (slots p') cs"
    and "\<And>u. u \<noteq> t \<Longrightarrow> count (leased (slots p')) u = count (leased (slots p)) u \<and>
               waiting (slots p') u = waiting (slots p) u"
  shows "lease_agrees p'"
  using assms by (auto simp: lease_agrees_def agrees_for_def)

lemma lease_agrees_step:
  assumes ok: "lease_agrees p" and step: "pool_step p e = Some p'"
  shows "lease_agrees p'"
  using step
proof (cases rule: pool_step_shapes)
  case (refused d b)
  with ok show ?thesis by (simp add: lease_agrees_def)
next
  case (opened d b)
  with lease_agreesD[OF ok, of "thread_of e"] may_run_nested show ?thesis
    by (intro lease_agrees_update[OF ok opened(3)]) (auto simp: agrees_for_def split: if_splits)
next
  case (got d cs)
  with lease_agreesD[OF ok, of "thread_of e"] show ?thesis
    by (intro lease_agrees_update[OF ok got(3)]) (auto simp: agrees_for_def split: if_splits)
next
  case (timed_out d cs)
  with lease_agreesD[OF ok, of "thread_of e"] outer_not_waiting[of cs] show ?thesis
    by (intro lease_agrees_update[OF ok timed_out(3)]) (auto simp: agrees_for_def split: if_splits)
next
  case (interrupted d cs)
  with lease_agreesD[OF ok, of "thread_of e"] outer_not_waiting[of cs] show ?thesis
    by (intro lease_agrees_update[OF ok interrupted(3)]) (auto simp: agrees_for_def split: if_splits)
next
  case (ended r d cs)
  with lease_agreesD[OF ok, of "thread_of e"] outer_not_waiting[of cs] show ?thesis
    by (intro lease_agrees_update[OF ok ended(3)]) (auto simp: agrees_for_def split: if_splits)
qed

lemma lease_agrees_start: "pool_start n p \<Longrightarrow> lease_agrees p"
  by (auto simp: pool_start_def init_pool_def lease_agrees_def agrees_for_def fresh_lease_def split: if_splits)

interpretation pool_leases: invariant_machine pool_step "\<lambda>p. \<exists>n. pool_start n p" lease_agrees
  by unfold_locales (auto intro: lease_agrees_start lease_agrees_step)

text \<open>The downloads that run, those of all threads and of every depth together.\<close>

definition running_downloads :: "'v pool \<Rightarrow> nat" where
  "running_downloads p = total slot_count (calls p)"

lemma leased_running:
  assumes "lease_agrees p"
  shows "running_downloads p = size (leased (slots p))"
proof -
  have count: "count (leased (slots p)) t = slot_count (calls p t)" for t
    using lease_agreesD[OF assms] by simp
  then have "set_mset (leased (slots p)) = {t. slot_count (calls p t) \<noteq> 0}" by (auto simp: set_mset_def)
  with count show ?thesis by (simp add: running_downloads_def total_def size_multiset_overloaded_eq)
qed

subsection \<open>Every call comes to an end\<close>

fun call_steps :: "pool_call list \<Rightarrow> nat" where
  "call_steps [] = 0"
| "call_steps (Acquiring d # cs) = call_steps cs + 2"
| "call_steps (Downloading d # cs) = call_steps cs + 1"

fun serves :: "'v pool_event \<Rightarrow> bool" where
  "serves (Slot_acquired t) = True"
| "serves (Download_ended t outcome) = True"
| "serves _ = False"

fun no_new_download :: "'v pool_event \<Rightarrow> bool" where
  "no_new_download (Run t d b) = False"
| "no_new_download _ = True"

definition idle_pool :: "'v pool \<Rightarrow> bool" where
  "idle_pool p \<longleftrightarrow> (\<forall>t. calls p t = [])"

text \<open>A download that waits for a second slot while it holds its own.\<close>

fun nested_wait :: "pool_call list \<Rightarrow> bool" where
  "nested_wait (Acquiring d # c # cs) = True"
| "nested_wait _ = False"

definition serving :: "'v pool \<Rightarrow> bool" where
  "serving p \<longleftrightarrow> lease_agrees p \<and> 0 < permits_of (slots p) \<and> finite_work call_steps (calls p)"

definition flat :: "'v pool \<Rightarrow> bool" where
  "flat p \<longleftrightarrow> serving p \<and> (\<forall>t. \<not> nested_wait (calls p t))"

lemma pool_step_moves:
  assumes "pool_step p e = Some p'"
  obtains cs where "calls p' = (calls p)(thread_of e := cs)"
    "no_new_download e \<Longrightarrow> call_steps cs < call_steps (calls p (thread_of e))"
    "no_new_download e \<Longrightarrow> \<not> slot_wanted cs \<or> cs = tl (calls p (thread_of e))"
  using assms
proof (cases rule: pool_step_shapes)
  case (refused d b)
  then have "\<not> no_new_download e" by (metis no_new_download.simps(1))
  with that[of "calls p (thread_of e)"] refused show thesis by simp
next
  case (opened d b)
  then have "\<not> no_new_download e" by (metis no_new_download.simps(1))
  with that opened show thesis by blast
next
  case (got d cs)
  with that[OF got(3)] show thesis by simp
next
  case (timed_out d cs)
  with that[OF timed_out(3)] show thesis by simp
next
  case (interrupted d cs)
  with that[OF interrupted(3)] show thesis by simp
next
  case (ended r d cs)
  with that[OF ended(3)] show thesis by simp
qed

lemma serving_step:
  assumes "serving p" and "pool_step p e = Some p'"
  shows "serving p'"
proof -
  from assms(2) obtain cs where c: "calls p' = (calls p)(thread_of e := cs)" by (rule pool_step_moves)
  have "permits_of (slots p') = permits_of (slots p)"
    by (rule lease_runs_permits[OF download_slots.simulates[OF assms(2)]])
  with assms c show ?thesis
    by (simp add: serving_def lease_agrees_step[OF _ assms(2)] finite_work_update)
qed

lemma serving_start: "pool_start n p \<Longrightarrow> 0 < n \<Longrightarrow> serving p"
  by (auto simp: serving_def lease_agrees_start download_slots.starts finite_work_def)
    (auto simp: pool_start_def init_pool_def)

lemma nested_wait_wanted: "nested_wait cs \<Longrightarrow> slot_wanted cs"
  by (cases cs rule: nested_wait.cases) auto

lemma flat_step:
  assumes "flat p" and "no_new_download e" and "pool_step p e = Some p'"
  shows "flat p'"
proof -
  have agrees: "list_all outer_download (tl (calls p t))" for t
    using assms(1) lease_agreesD(3) by (auto simp: flat_def serving_def)
  from assms(3) obtain cs where cs: "calls p' = (calls p)(thread_of e := cs)"
    "no_new_download e \<Longrightarrow> \<not> slot_wanted cs \<or> cs = tl (calls p (thread_of e))" by (rule pool_step_moves) blast
  from cs(2)[OF assms(2)] outer_not_waiting[OF agrees[of "thread_of e"]] have "\<not> slot_wanted cs" by auto
  with cs(1) assms(1) serving_step[OF _ assms(3)] nested_wait_wanted[of cs] show ?thesis
    by (auto simp: flat_def)
qed

text \<open>A thread has only so many steps of its own left, whatever the others do.\<close>

lemma own_steps_left:
  "list_all no_new_download es \<Longrightarrow> runs pool_step p es = Some p' \<Longrightarrow>
   length (filter (\<lambda>e. thread_of e = t) es) + call_steps (calls p' t) \<le> call_steps (calls p t)"
proof (induction es arbitrary: p)
  case (Cons e es)
  then obtain p1 where p1: "pool_step p e = Some p1" "runs pool_step p1 es = Some p'"
    by (auto split: option.splits)
  from p1(1) obtain cs where cs: "calls p1 = (calls p)(thread_of e := cs)"
    "no_new_download e \<Longrightarrow> call_steps cs < call_steps (calls p (thread_of e))" by (rule pool_step_moves) blast
  with Cons.IH[OF _ p1(2)] Cons.prems(1) show ?case by (cases "thread_of e = t") auto
qed simp

lemma serving_less:
  assumes "serving p" and "no_new_download e" and "pool_step p e = Some p'"
  shows "total call_steps (calls p') < total call_steps (calls p)"
proof -
  from assms(3) obtain cs where cs: "calls p' = (calls p)(thread_of e := cs)"
    "no_new_download e \<Longrightarrow> call_steps cs < call_steps (calls p (thread_of e))" by (rule pool_step_moves) blast
  have "finite_work call_steps (calls p)" using assms(1) by (simp add: serving_def)
  from total_update[OF this, of "thread_of e" cs] cs assms(2) show ?thesis by simp
qed

text \<open>
  Some call can always go on, unless all of those under way wait, with their slots in the hands
  of downloads that wait themselves.
\<close>

lemma serving_progress:
  assumes serving: "serving p" and "\<not> idle_pool p" and stuck: "\<forall>e. serves e \<longrightarrow> pool_step p e = None"
  shows "\<exists>t. nested_wait (calls p t)"
proof -
  have agrees: "count (leased (slots p)) t = slot_count (calls p t)"
    "(waiting (slots p) t \<noteq> None) = slot_wanted (calls p t)" for t
    using serving lease_agreesD[of p] by (simp_all add: serving_def)
  have no_end: "calls p t \<noteq> Downloading d # cs" for t d cs
  proof
    assume t: "calls p t = Downloading d # cs"
    with agrees(1)[of t] have "t \<in># leased (slots p)" by (metis count_eq_zero_iff nat.distinct(2) slot_count.simps(3))
    with t have "pool_step p (Download_ended t (Inl interrupt)) \<noteq> None" by (simp add: pool_step_def)
    with stuck show False by simp
  qed
  obtain t d cs where t: "calls p t = Acquiring d # cs"
    using assms(2) no_end by (metis idle_pool_def neq_Nil_conv pool_call.exhaust)
  have "pool_step p (Slot_acquired t) = None" using stuck by simp
  with t agrees(2)[of t] have "free (slots p) = 0" by (auto simp: pool_step_def split: if_splits)
  with serving have "leased (slots p) \<noteq> {#}" by (auto simp: serving_def permits_of_def)
  then obtain u where "u \<in># leased (slots p)" by blast
  with agrees(1)[of u] have "slot_count (calls p u) \<noteq> 0" by (metis count_eq_zero_iff)
  with no_end[of u] have "nested_wait (calls p u)" by (cases "calls p u" rule: slot_wanted.cases; cases "tl (calls p u)") auto
  then show ?thesis ..
qed

interpretation pool_serving: invariant_machine pool_step "\<lambda>p. \<exists>n. pool_start n p \<and> 0 < n" serving
  by unfold_locales (auto intro: serving_start serving_step)

interpretation pool_serves: finishing_machine pool_step flat no_new_download serves idle_pool
  "\<lambda>p. total call_steps (calls p)"
proof unfold_locales
  show "no_new_download e" if "serves e" for e :: "'a pool_event" using that by (cases e) auto
  show "flat p'" if "flat p" "no_new_download e" "pool_step p e = Some p'" for p p' :: "'a pool" and e
    using that by (rule flat_step)
  show "total call_steps (calls p') < total call_steps (calls p)"
    if "flat p" "serves e" "pool_step p e = Some p'" for p p' :: "'a pool" and e
    using serving_less[of p e p'] that by (cases e) (auto simp: flat_def)
  show "total call_steps (calls p') \<le> total call_steps (calls p)"
    if "flat p" "no_new_download e" "pool_step p e = Some p'" for p p' :: "'a pool" and e
    using serving_less[of p e p'] that by (auto simp: flat_def)
  show "\<exists>e. serves e \<and> pool_step p e \<noteq> None" if "flat p" "\<not> idle_pool p" for p :: "'a pool"
    using serving_progress[of p] that unfolding flat_def by blast
qed

subsection \<open>Nested downloads can lock up\<close>

text \<open>
  Every slot belongs to a download that waits for another slot, without a timeout. Only an
  interrupt can end this.
\<close>

definition locked_up :: "'v pool \<Rightarrow> bool" where
  "locked_up p \<longleftrightarrow> lease_agrees p \<and> free (slots p) = 0 \<and>
     (\<forall>t. t \<in># leased (slots p) \<longrightarrow> nested_wait (calls p t) \<and> waiting (slots p) t = Some False)"

fun uninterrupted :: "'v pool_event \<Rightarrow> bool" where
  "uninterrupted (Wait_interrupted t) = False"
| "uninterrupted _ = True"

lemma locked_up_step:
  assumes locked: "locked_up p" and "uninterrupted e" and step: "pool_step p e = Some p'"
  shows "locked_up p' \<and> leased (slots p') = leased (slots p) \<and> \<not> serves e"
proof -
  from locked have ok: "lease_agrees p" and full: "free (slots p) = 0"
    and held: "\<And>t. t \<in># leased (slots p) \<Longrightarrow> nested_wait (calls p t) \<and> waiting (slots p) t = Some False"
    by (simp_all add: locked_up_def)
  from lease_agrees_step[OF ok step] have ok': "lease_agrees p'" .
  from step show ?thesis
  proof (cases rule: pool_step_shapes)
    case (refused d b)
    then have "\<not> serves e" by (metis serves.simps(3))
    with refused ok' full held show ?thesis by (simp add: locked_up_def)
  next
    case (opened d b)
    from opened(1) have "\<not> serves e" by (metis serves.simps(3))
    moreover from opened(2) held have "thread_of e \<notin># leased (slots p)"
      by (auto simp: may_run_wanted dest: nested_wait_wanted)
    ultimately show ?thesis using opened(3,4) ok' full held
      by (auto simp: locked_up_def split: if_splits)
  next
    case (timed_out d cs)
    from timed_out(1) have "\<not> serves e" by (metis serves.simps(4))
    moreover from timed_out(4) held have "thread_of e \<notin># leased (slots p)" by (auto split: if_splits)
    ultimately show ?thesis using timed_out(3,4) ok' full held
      by (auto simp: locked_up_def split: if_splits)
  next
    case (ended r d cs)
    then have "thread_of e \<in># leased (slots p)" "\<not> slot_wanted (calls p (thread_of e))"
      by (auto split: if_splits)
    with held nested_wait_wanted show ?thesis by blast
  next
    case (got d cs)
    with full show ?thesis by simp
  next
    case (interrupted d cs)
    with assms(2) show ?thesis by (metis uninterrupted.simps(1))
  qed
qed

lemma locked_up_runs:
  "locked_up p \<Longrightarrow> list_all uninterrupted es \<Longrightarrow> runs pool_step p es = Some p' \<Longrightarrow>
   locked_up p' \<and> leased (slots p') = leased (slots p) \<and> \<not> list_ex serves es"
proof (induction es arbitrary: p)
  case (Cons e es)
  then obtain p1 where "pool_step p e = Some p1" "runs pool_step p1 es = Some p'"
    by (auto split: option.splits)
  with locked_up_step[of p e p1] Cons.IH[of p1] Cons.prems show ?case by simp
qed simp

subsection \<open>Properties\<close>

text \<open>
  Under every interleaving of callers, outcomes and timeouts, the downloads that run and the
  free slots always add up to \<open>max_concurrent\<close>: never more downloads than that run at once,
  and no outcome, an exception, a timeout or an interrupt included, loses a slot.
\<close>

lemma downloads_capped:
  assumes "init_pool max_concurrent = Inr p0"
    and "runs pool_step p0 schedule = Some p"
  shows "int (running_downloads p) + int (free (slots p)) = max_concurrent"
proof -
  from assms(1) have pos: "0 < max_concurrent" by (auto simp: init_pool_def split: if_splits)
  with assms(1) have start: "pool_start (nat max_concurrent) p0" by (simp add: pool_start_def)
  then have "lease_agrees p" using pool_leases.invariant[OF _ assms(2)] by blast
  from leased_running[OF this] download_slots.permits[OF start assms(2)] pos show ?thesis by auto
qed

text \<open>
  C25. From every reachable state, as long as no new call comes in: the running downloads and
  the free slots add up to \<open>max_concurrent\<close>; each thread has at most two steps left for each of
  its calls that waits and one for each of its downloads, whatever the other threads do, times
  out or is interrupted; when no slot can be given and no download can end any more, then all
  calls have ended, unless some download waits for another slot in a nested call of \<open>run\<close>;
  and if no download does so, all calls can be brought to their end.
\<close>

theorem every_download_ends:
  fixes p :: "'v pool"
  assumes "init_pool max_concurrent = Inr p0" and "runs pool_step p0 before = Some p"
    and "list_all no_new_download schedule" and "runs pool_step p schedule = Some p'"
  shows "int (running_downloads p') + int (free (slots p')) = max_concurrent \<and>
         (\<forall>t. length (filter (\<lambda>e. thread_of e = t) schedule) \<le> call_steps (calls p t)) \<and>
         ((\<forall>e. serves e \<longrightarrow> pool_step p' e = None) \<longrightarrow>
            (\<forall>t. calls p' t = []) \<or> (\<exists>t. nested_wait (calls p' t))) \<and>
         ((\<forall>t. \<not> nested_wait (calls p t)) \<longrightarrow>
            (\<forall>t. \<not> nested_wait (calls p' t)) \<and>
            (\<exists>rest q. list_all serves rest \<and> runs pool_step p' rest = Some q \<and> (\<forall>t. calls q t = [])))"
proof -
  from assms(1) have pos: "0 < max_concurrent" by (auto simp: init_pool_def split: if_splits)
  with assms(1) have "pool_start (nat max_concurrent) p0" by (simp add: pool_start_def)
  with pos have start: "\<exists>n. pool_start n p0 \<and> 0 < n" by (intro exI[of _ "nat max_concurrent"]) simp
  from pool_serving.invariant[OF start assms(2)] have p: "serving p" .
  have run: "runs pool_step p0 (before @ schedule) = Some p'" using assms(2,4) by (simp add: runs_append)
  from pool_serving.invariant[OF start run] have p': "serving p'" .
  have "length (filter (\<lambda>e. thread_of e = t) schedule) \<le> call_steps (calls p t)" for t
    using own_steps_left[OF assms(3,4), of t] by simp
  moreover have "(\<forall>t. \<not> nested_wait (calls p' t)) \<and>
      (\<exists>rest q. list_all serves rest \<and> runs pool_step p' rest = Some q \<and> (\<forall>t. calls q t = []))"
    if "\<forall>t. \<not> nested_wait (calls p t)"
  proof -
    from p that have "flat p" by (simp add: flat_def)
    from pool_serves.own_steps_bounded[OF this assms(3,4)] pool_serves.comes_to_an_end[OF this assms(3,4)]
    show ?thesis by (auto simp: idle_pool_def flat_def)
  qed
  ultimately show ?thesis using downloads_capped[OF assms(1) run] serving_progress[OF p']
    by (auto simp: idle_pool_def)
qed

text \<open>
  Once every slot is in the hands of a download that waits for another one without a timeout,
  nothing but an interrupt helps: no download ever ends and no slot is ever given again.
\<close>

lemma nested_downloads_stay_locked:
  assumes "init_pool max_concurrent = Inr p0" and "runs pool_step p0 before = Some p"
    and "free (slots p) = 0"
    and "\<forall>t. calls p t \<noteq> [] \<longrightarrow> nested_wait (calls p t) \<and> waiting (slots p) t = Some False"
    and "list_all uninterrupted schedule" and "runs pool_step p schedule = Some p'"
  shows "\<not> list_ex serves schedule \<and> free (slots p') = 0 \<and> leased (slots p') = leased (slots p)"
proof -
  from assms(1) have "pool_start (nat max_concurrent) p0"
    by (auto simp: pool_start_def init_pool_def split: if_splits)
  with pool_leases.invariant[OF _ assms(2)] have agrees: "lease_agrees p" by blast
  have "calls p t \<noteq> []" if "t \<in># leased (slots p)" for t
    using that lease_agreesD(1)[OF agrees, of t] by (metis count_eq_zero_iff slot_count.simps(1))
  with agrees assms(3,4) have "locked_up p" by (auto simp: locked_up_def)
  from locked_up_runs[OF this assms(5,6)] show ?thesis by (simp add: locked_up_def)
qed

text \<open>
  One slot, four callers: a download fails, a caller times out, the next one waits and runs, the
  last one waits until it is interrupted.
\<close>

definition one_slot :: "int pool" where
  "one_slot = \<lparr>slots = fresh_lease 1, calls = (\<lambda>_. []), pool_results = []\<rparr>"

definition pool_schedule :: "int pool_event list" where
  "pool_schedule =
     [Run 0 ''a.csv'' False, Run 1 ''b.csv'' True, Run 2 ''c.csv'' False, Slot_acquired 0,
      Slot_timed_out 1, Download_ended 0 (Inl (UserError ''reset'')), Slot_acquired 2,
      Run 3 ''d.csv'' False]"

definition pool_end :: "int pool" where
  "pool_end = the (runs pool_step one_slot pool_schedule)"

lemma pool_end_run:
  "init_pool 1 = Inr one_slot" "runs pool_step one_slot pool_schedule = Some pool_end"
  "calls pool_end 2 = [Downloading ''c.csv'']"
  by (simp_all add: init_pool_def one_slot_def pool_end_def pool_schedule_def pool_step_def
      fresh_lease_def)

definition last_download :: "int pool_event list" where
  "last_download = [Wait_interrupted 3, Download_ended 2 (Inr 7)]"

definition pool_idle_end :: "int pool" where
  "pool_idle_end = the (runs pool_step pool_end last_download)"

lemma last_download_run:
  "list_all no_new_download last_download" "runs pool_step pool_end last_download = Some pool_idle_end"
  "\<forall>t. calls pool_idle_end t = []"
  by (simp_all add: pool_idle_end_def last_download_def one_slot_def pool_end_def pool_schedule_def
      pool_step_def fresh_lease_def)

theorem every_download_ends_witness:
  "int (running_downloads pool_idle_end) + int (free (slots pool_idle_end)) = 1 \<and>
   length (filter (\<lambda>e. thread_of e = 2) last_download) \<le> call_steps (calls pool_end 2) \<and>
   (\<exists>rest q. list_all serves rest \<and> runs pool_step pool_idle_end rest = Some q \<and> (\<forall>t. calls q t = []))"
proof -
  note ends = every_download_ends[OF pool_end_run(1,2) last_download_run(1,2)]
  have "\<not> nested_wait (calls pool_end t)" for t
    by (simp add: pool_end_def one_slot_def pool_schedule_def pool_step_def fresh_lease_def)
  with ends show ?thesis by blast
qed

text \<open>One slot; the download of the first caller calls \<open>run\<close> again, and a second caller comes in.\<close>

definition nested_schedule :: "int pool_event list" where
  "nested_schedule = [Run 0 ''index'' False, Slot_acquired 0, Run 0 ''part'' False]"

definition nested_end :: "int pool" where
  "nested_end = the (runs pool_step one_slot nested_schedule)"

lemma nested_end_run:
  "runs pool_step one_slot nested_schedule = Some nested_end" "free (slots nested_end) = 0"
  "calls nested_end t = (if t = 0 then [Acquiring ''part'', Downloading ''index''] else [])"
  "waiting (slots nested_end) 0 = Some False" "leased (slots nested_end) = {#0#}"
  by (simp_all add: nested_end_def nested_schedule_def one_slot_def pool_step_def fresh_lease_def)

lemma nested_downloads_stay_locked_witness:
  "\<exists>p'. runs pool_step nested_end [Run 1 ''b.csv'' True, Slot_timed_out 1] = Some p' \<and>
     free (slots p') = 0 \<and> leased (slots p') = {#0#}"
proof -
  obtain p' where p': "runs pool_step nested_end [Run 1 ''b.csv'' True, Slot_timed_out 1] = Some p'"
    by (simp add: nested_end_def nested_schedule_def one_slot_def pool_step_def fresh_lease_def)
  have "list_all uninterrupted [Run 1 ''b.csv'' True, Slot_timed_out 1]" by simp
  from nested_downloads_stay_locked[OF pool_end_run(1) nested_end_run(1,2) _ this p'] nested_end_run(3-5) p'
  show ?thesis by auto
qed

end
