(* ===== verification/Rate_Limiter.thy ===== *)
theory Rate_Limiter
  imports Semaphores
begin

section \<open>ratelimiter: permits for calls in flight\<close>

text \<open>
  Models \<^verbatim>\<open>ratelimiter/limiter.py\<close>. \<open>acquire\<close> is a context manager over a
  \<open>BoundedSemaphore\<close>: entering waits for a permit or raises \<open>TimeoutError\<close>, leaving releases
  it, with or without an exception in the block. One thread may be inside several such
  blocks. A release beyond the initial value would raise \<open>ValueError\<close>; the machine has that
  branch, and \<open>release_never_raises\<close> shows that it is never taken.
\<close>

record limiter =
  permits :: "tid lease"
  initial_value :: nat
  exits :: "(tid \<times> unit result) list"

definition init_limiter :: "int \<Rightarrow> limiter result" where
  "init_limiter max_in_flight =
     (if max_in_flight \<le> 0 then Inl (ValueError ''max_in_flight must be greater than zero'')
      else Inr \<lparr>permits = fresh_lease (nat max_in_flight), initial_value = nat max_in_flight,
                exits = []\<rparr>)"

datatype limiter_event =
    Acquire tid bool
  | Permit_acquired tid
  | Permit_timed_out tid
  | Acquire_interrupted tid
  | Leave tid "unit result"

definition release_error :: exn where
  "release_error = ValueError ''Semaphore released too many times''"

definition limiter_step :: "limiter \<Rightarrow> limiter_event \<Rightarrow> limiter option" where
  "limiter_step l e =
     (case e of
        Acquire t has_timeout \<Rightarrow>
          map_option (\<lambda>s. l\<lparr>permits := s\<rparr>) (lease_step (permits l) (Request t has_timeout))
      | Permit_acquired t \<Rightarrow>
          map_option (\<lambda>s. l\<lparr>permits := s\<rparr>) (lease_step (permits l) (Grant t))
      | Permit_timed_out t \<Rightarrow>
          map_option
            (\<lambda>s. l\<lparr>permits := s, exits := exits l @
                     [(t, Inl (TimeoutError ''timed out waiting for API call permit''))]\<rparr>)
            (lease_step (permits l) (Deny t))
      | Acquire_interrupted t \<Rightarrow>
          map_option (\<lambda>s. l\<lparr>permits := s, exits := exits l @ [(t, Inl interrupt)]\<rparr>)
            (lease_step (permits l) (Withdraw t))
      | Leave t block_outcome \<Rightarrow>
          if t \<notin># leased (permits l) \<or> waiting (permits l) t \<noteq> None then None
          else if bounded_release_raises (initial_value l) (permits l)
            then Some (l\<lparr>exits := exits l @ [(t, Inl release_error)]\<rparr>)
          else map_option (\<lambda>s. l\<lparr>permits := s, exits := exits l @ [(t, block_outcome)]\<rparr>)
                 (lease_step (permits l) (Give_back t)))"

definition limiter_uses :: "limiter \<Rightarrow> limiter_event \<Rightarrow> tid lease_event list" where
  "limiter_uses l e =
     (case e of
        Acquire t has_timeout \<Rightarrow> [Request t has_timeout]
      | Permit_acquired t \<Rightarrow> [Grant t]
      | Permit_timed_out t \<Rightarrow> [Deny t]
      | Acquire_interrupted t \<Rightarrow> [Withdraw t]
      | Leave t outcome \<Rightarrow>
          if bounded_release_raises (initial_value l) (permits l) then [] else [Give_back t])"

definition limiter_start :: "nat \<Rightarrow> limiter \<Rightarrow> bool" where
  "limiter_start n l \<longleftrightarrow> init_limiter (int n) = Inr l"

interpretation limiter_permits: semaphore_client limiter_step permits limiter_start limiter_uses
proof unfold_locales
  fix n l
  assume "limiter_start n l"
  then show "permits l = fresh_lease n"
    by (auto simp: limiter_start_def init_limiter_def split: if_splits)
next
  fix l l' e
  assume "limiter_step l e = Some l'"
  then show "runs lease_step (permits l) (limiter_uses l e) = Some (permits l')"
    by (cases e) (auto simp: limiter_step_def limiter_uses_def simp del: lease_step.simps
        split: if_splits)
qed

lemma initial_value_step: "limiter_step l e = Some l' \<Longrightarrow> initial_value l' = initial_value l"
  by (cases e) (auto simp: limiter_step_def split: if_splits)

lemma initial_value_runs: "runs limiter_step l es = Some l' \<Longrightarrow> initial_value l' = initial_value l"
  by (induction es arbitrary: l) (auto dest: initial_value_step split: option.splits)

subsection \<open>Properties\<close>

text \<open>
  C29. Under every interleaving, the calls in flight (the open \<open>acquire\<close> blocks) and the free
  permits add up to \<open>max_in_flight\<close>; leaving a block releases its permit exactly once and
  passes the block's outcome on, so the bounded semaphore never raises.
\<close>

theorem release_never_raises:
  assumes "init_limiter max_in_flight = Inr l0"
    and "runs limiter_step l0 schedule = Some l"
  shows "int (size (leased (permits l))) + int (free (permits l)) = max_in_flight \<and>
         (\<forall>t outcome. t \<in># leased (permits l) \<and> waiting (permits l) t = None \<longrightarrow>
            (\<exists>l'. limiter_step l (Leave t outcome) = Some l' \<and>
               exits l' = exits l @ [(t, outcome)] \<and> free (permits l') = free (permits l) + 1))"
proof -
  from assms(1) have pos: "0 < max_in_flight" by (auto simp: init_limiter_def split: if_splits)
  with assms(1) have start: "limiter_start (nat max_in_flight) l0" by (simp add: limiter_start_def)
  from limiter_permits.permits[OF this assms(2)]
  have sum: "free (permits l) + size (leased (permits l)) = nat max_in_flight" .
  have "initial_value l = nat max_in_flight"
    using initial_value_runs[OF assms(2)] assms(1) by (auto simp: init_limiter_def split: if_splits)
  with sum have "\<not> bounded_release_raises (initial_value l) (permits l)"
    if "t \<in># leased (permits l)" for t
    using that by (auto simp: bounded_release_raises_def dest!: multi_member_split)
  with sum pos show ?thesis by (auto simp: limiter_step_def)
qed

text \<open>One thread opens two blocks, another times out, the inner block raises.\<close>

definition two_permits :: limiter where
  "two_permits = \<lparr>permits = fresh_lease 2, initial_value = 2, exits = []\<rparr>"

definition limiter_schedule :: "limiter_event list" where
  "limiter_schedule =
     [Acquire 0 False, Permit_acquired 0, Acquire 0 True, Permit_acquired 0, Acquire 1 True,
      Permit_timed_out 1, Leave 0 (Inl (UserError ''http 500''))]"

definition limiter_end :: limiter where
  "limiter_end = the (runs limiter_step two_permits limiter_schedule)"

lemma limiter_end_run:
  "init_limiter 2 = Inr two_permits" "runs limiter_step two_permits limiter_schedule = Some limiter_end"
  "leased (permits limiter_end) = {#0#}"
  by (simp_all add: init_limiter_def two_permits_def limiter_end_def limiter_schedule_def
      limiter_step_def fresh_lease_def bounded_release_raises_def)

theorem release_never_raises_witness:
  "leased (permits limiter_end) = {#0#} \<and>
   int (size (leased (permits limiter_end))) + int (free (permits limiter_end)) = 2"
  using release_never_raises[OF limiter_end_run(1,2)] limiter_end_run(3) by blast

end
