(* ===== verification/Uploader.thy ===== *)
theory Uploader
  imports Semaphores Machines
begin

section \<open>asyncbatchuploader: batches of uploads with bounded concurrency\<close>

text \<open>
  Models \<^verbatim>\<open>asyncbatchuploader/uploader.py\<close>. Any number of calls of \<open>upload_all\<close> share the
  semaphore of one uploader. Each call creates one task per file; a task waits for the
  semaphore, awaits its upload and turns the outcome into a result; the results are gathered in
  the order of the files. What awaiting a file's upload gives is an outcome that comes with the
  mapping; the schedule decides when a task starts and ends. A task may be cancelled, as all
  tasks of a call are when its caller is: while it waits for the semaphore it just ends, and
  during its upload it gives the permit back, because the \<^verbatim>\<open>async with\<close> block is left;
  \<open>except Exception\<close> does not catch the cancellation.
\<close>

subsection \<open>Results and state\<close>

record 'v upload_result =
  file_name :: string
  upload_value :: "'v option"
  upload_error :: "exn option"

definition succeeded :: "'v upload_result \<Rightarrow> bool" where
  "succeeded r \<longleftrightarrow> upload_error r = None"

text \<open>
  A call in progress: its mapping from file names to outcomes, its tasks, numbered by the
  position of their file, and the state of \<open>asyncio.gather\<close>: the first exception that a task
  ends with, at once passed on to the caller, while the other tasks go on.
\<close>

datatype 'v upload_task =
    Queued
  | Uploading
  | Uploaded "'v upload_result result"

record 'v batch =
  wanted :: "(string, 'v result) dict"
  tasks :: "'v upload_task list"
  gather_error :: "exn option"

text \<open>A task is named by the number of its call and its position.\<close>

type_synonym task_name = "nat \<times> nat"

record 'v uploader =
  semaphore :: "task_name lease"
  batches :: "'v batch list"

definition init_uploader :: "int \<Rightarrow> 'v uploader result" where
  "init_uploader max_concurrent =
     (if max_concurrent \<le> 0 then Inl (ValueError ''max_concurrent must be greater than zero'')
      else Inr \<lparr>semaphore = fresh_lease (nat max_concurrent), batches = []\<rparr>)"

definition validate_uploads :: "(string, 'v result) dict \<Rightarrow> unit result" where
  "validate_uploads uploads =
     (if uploads = [] then Inl (ValueError ''uploads must not be empty'')
      else if '''' \<in> set (keys_of uploads) then Inl (ValueError ''file names must not be empty'')
      else Inr ())"

text \<open>The call up to its \<open>gather\<close>; the reply is the number of the call, which names its tasks.\<close>

definition start_uploads ::
  "(string, 'v result) dict \<Rightarrow> 'v uploader \<Rightarrow> nat result \<times> 'v uploader" where
  "start_uploads uploads u =
     (case validate_uploads uploads of
        Inl e \<Rightarrow> (Inl e, u)
      | Inr _ \<Rightarrow>
          (Inr (length (batches u)),
           u\<lparr>batches := batches u @
                [\<lparr>wanted = uploads, tasks = map (\<lambda>_. Queued) uploads, gather_error = None\<rparr>]\<rparr>))"

text \<open>
  What a task of \<open>_upload_one\<close> ends with, given the outcome of its upload: \<open>except Exception\<close>
  makes a result of an exception, and lets a \<open>BaseException\<close> through.
\<close>

definition upload_one :: "string \<Rightarrow> 'v result \<Rightarrow> 'v upload_result result" where
  "upload_one file outcome =
     (case outcome of
        Inr v \<Rightarrow> Inr \<lparr>file_name = file, upload_value = Some v, upload_error = None\<rparr>
      | Inl e \<Rightarrow>
          if is_exception e
          then Inr \<lparr>file_name = file, upload_value = None, upload_error = Some e\<rparr>
          else Inl e)"

definition note_failure :: "exn option \<Rightarrow> 'w result \<Rightarrow> exn option" where
  "note_failure seen r =
     (case (seen, r) of
        (None, Inl e) \<Rightarrow> Some e
      | _ \<Rightarrow> seen)"

definition end_upload :: "nat \<Rightarrow> 'v upload_result result \<Rightarrow> 'v batch \<Rightarrow> 'v batch" where
  "end_upload i r B =
     B\<lparr>tasks := (tasks B)[i := Uploaded r], gather_error := note_failure (gather_error B) r\<rparr>"

subsection \<open>Steps\<close>

datatype 'v upload_event =
    Upload_all "(string, 'v result) dict"
  | Begin_upload nat nat
  | End_upload nat nat
  | Cancel_upload nat nat

definition task_at :: "'v uploader \<Rightarrow> nat \<Rightarrow> nat \<Rightarrow> 'v upload_task option" where
  "task_at u b i =
     (if b < length (batches u) \<and> i < length (tasks (batches u ! b))
      then Some (tasks (batches u ! b) ! i) else None)"

definition change_batch ::
  "nat \<Rightarrow> ('v batch \<Rightarrow> 'v batch) \<Rightarrow> 'v uploader \<Rightarrow> task_name lease \<Rightarrow> 'v uploader" where
  "change_batch b f u sem =
     u\<lparr>semaphore := sem, batches := (batches u)[b := f (batches u ! b)]\<rparr>"

fun upload_step :: "'v uploader \<Rightarrow> 'v upload_event \<Rightarrow> 'v uploader option" where
  "upload_step u (Upload_all uploads) =
     (if wf_dict uploads then Some (snd (start_uploads uploads u)) else None)"
| "upload_step u (Begin_upload b i) =
     (if task_at u b i = Some Queued
      then map_option (change_batch b (\<lambda>B. B\<lparr>tasks := (tasks B)[i := Uploading]\<rparr>) u)
             (runs lease_step (semaphore u) [Request (b, i) False, Grant (b, i)])
      else None)"
| "upload_step u (End_upload b i) =
     (if task_at u b i = Some Uploading
      then map_option
             (change_batch b (end_upload i (case_prod upload_one (wanted (batches u ! b) ! i))) u)
             (lease_step (semaphore u) (Give_back (b, i)))
      else None)"
| "upload_step u (Cancel_upload b i) =
     (if task_at u b i = Some Queued
      then Some (change_batch b (end_upload i (Inl cancelled)) u (semaphore u))
      else if task_at u b i = Some Uploading
      then map_option (change_batch b (end_upload i (Inl cancelled)) u)
             (lease_step (semaphore u) (Give_back (b, i)))
      else None)"

text \<open>
  What the call has returned: \<open>None\<close> while it still waits, otherwise the first exception or the
  results by file name, in the order of the files.
\<close>

fun gathered :: "'v upload_task list \<Rightarrow> 'v upload_result list option" where
  "gathered [] = Some []"
| "gathered (Uploaded (Inr r) # ts) = map_option (\<lambda>rs. r # rs) (gathered ts)"
| "gathered (_ # ts) = None"

definition batch_result :: "'v batch \<Rightarrow> (string, 'v upload_result) dict result option" where
  "batch_result B =
     (case gather_error B of
        Some e \<Rightarrow> Some (Inl e)
      | None \<Rightarrow>
          map_option (\<lambda>rs. Inr (dict_of (map (\<lambda>r. (file_name r, r)) rs))) (gathered (tasks B)))"

subsection \<open>What a step changes\<close>

text \<open>
  Every step but a new call moves one task on, from \<open>x\<close> to \<open>y\<close>, takes or gives its permit, and
  tells \<open>gather\<close> when the task has failed.
\<close>

inductive task_moves :: "string \<times> 'v result \<Rightarrow> 'v upload_task \<Rightarrow> 'v upload_task \<Rightarrow> bool" where
  begins: "task_moves w Queued Uploading"
| ends: "task_moves w Uploading (Uploaded (case_prod upload_one w))"
| is_cancelled: "x = Queued \<or> x = Uploading \<Longrightarrow> task_moves w x (Uploaded (Inl cancelled))"

inductive_cases task_moves_cases: "task_moves w x y"

fun task_failure :: "'v upload_task \<Rightarrow> exn option" where
  "task_failure (Uploaded (Inl e)) = Some e"
| "task_failure _ = None"

fun permits_held :: "'v upload_task \<Rightarrow> nat" where
  "permits_held Uploading = 1"
| "permits_held _ = 0"

definition uses_permit :: "'v uploader \<Rightarrow> 'v upload_event \<Rightarrow> task_name lease_event list" where
  "uses_permit u e =
     (case e of
        Upload_all _ \<Rightarrow> []
      | Begin_upload b i \<Rightarrow> [Request (b, i) False, Grant (b, i)]
      | End_upload b i \<Rightarrow> [Give_back (b, i)]
      | Cancel_upload b i \<Rightarrow> if task_at u b i = Some Uploading then [Give_back (b, i)] else [])"

definition with_task :: "nat \<Rightarrow> 'v upload_task \<Rightarrow> 'v batch \<Rightarrow> 'v batch" where
  "with_task i y B =
     B\<lparr>tasks := (tasks B)[i := y],
       gather_error := (case gather_error B of None \<Rightarrow> task_failure y | Some e \<Rightarrow> Some e)\<rparr>"

lemma with_task_uses:
  "with_task i Uploading B = B\<lparr>tasks := (tasks B)[i := Uploading]\<rparr>"
  "with_task i (Uploaded r) B = end_upload i r B"
  by (cases B; auto simp: with_task_def end_upload_def note_failure_def split: option.split sum.split)+

text \<open>Caller \<open>t\<close> of the semaphore had \<open>m\<close> permits before, and has \<open>n\<close> after.\<close>

definition permits_moved :: "'t lease \<Rightarrow> 't lease \<Rightarrow> 't \<Rightarrow> nat \<Rightarrow> nat \<Rightarrow> bool" where
  "permits_moved s s' t m n \<longleftrightarrow>
     (\<forall>v. count (leased s') v + (if v = t then m else 0) =
          count (leased s) v + (if v = t then n else 0))"

lemma permits_movedD:
  "permits_moved s s' t m n \<Longrightarrow>
   count (leased s') v + (if v = t then m else 0) = count (leased s) v + (if v = t then n else 0)"
  by (simp add: permits_moved_def)

lemma permit_given_back:
  assumes "lease_step s (Give_back t) = Some s'"
  shows "permits_moved s s' t 1 0" and "waiting s' = waiting s"
  using assms by (auto simp: permits_moved_def split: if_splits)

lemma permit_granted:
  assumes "runs lease_step s [Request t False, Grant t] = Some s'"
  shows "permits_moved s s' t 0 1" and "waiting s = (\<lambda>_. None) \<Longrightarrow> waiting s' = (\<lambda>_. None)"
  using assms by (auto simp: permits_moved_def split: if_splits)

lemma permits_unmoved: "permits_moved s s t 0 0"
  by (simp add: permits_moved_def)

definition moved_on :: "'v uploader \<Rightarrow> nat \<Rightarrow> nat \<Rightarrow> 'v upload_task \<Rightarrow> 'v uploader \<Rightarrow> bool" where
  "moved_on u b i y u' \<longleftrightarrow>
     b < length (batches u) \<and> i < length (tasks (batches u ! b)) \<and>
     task_moves (wanted (batches u ! b) ! i) (tasks (batches u ! b) ! i) y \<and>
     batches u' = (batches u)[b := with_task i y (batches u ! b)] \<and>
     permits_moved (semaphore u) (semaphore u') (b, i) (permits_held (tasks (batches u ! b) ! i)) (permits_held y) \<and>
     (waiting (semaphore u) = (\<lambda>_. None) \<longrightarrow> waiting (semaphore u') = (\<lambda>_. None))"

lemma task_atD:
  "task_at u b i = Some x \<Longrightarrow>
   b < length (batches u) \<and> i < length (tasks (batches u ! b)) \<and> tasks (batches u ! b) ! i = x"
  by (auto simp: task_at_def split: if_splits)

lemma moved_on_begin:
  assumes "upload_step u (Begin_upload b i) = Some u'"
  shows "moved_on u b i Uploading u'"
proof -
  from assms obtain s where t: "task_at u b i = Some Queued"
    and s: "runs lease_step (semaphore u) [Request (b, i) False, Grant (b, i)] = Some s"
    and u': "u' = change_batch b (\<lambda>B. B\<lparr>tasks := (tasks B)[i := Uploading]\<rparr>) u s"
    by (auto split: if_splits simp del: runs.simps lease_step.simps)
  show ?thesis using task_atD[OF t] permit_granted[OF s] task_moves.begins
    by (simp add: moved_on_def u' change_batch_def with_task_uses)
qed

lemma moved_on_end:
  assumes t: "task_at u b i = Some x" and m: "task_moves (wanted (batches u ! b) ! i) x (Uploaded r)"
    and s: "if x = Uploading then lease_step (semaphore u) (Give_back (b, i)) = Some s else s = semaphore u"
    and u': "u' = change_batch b (end_upload i r) u s"
  shows "moved_on u b i (Uploaded r) u'"
proof -
  have "permits_moved (semaphore u) s (b, i) (permits_held x) 0"
    using s m permit_given_back(1)[of "semaphore u" "(b, i)" s]
    by (auto simp: permits_unmoved simp del: lease_step.simps elim!: task_moves_cases)
  moreover have "waiting s = waiting (semaphore u)"
    using s permit_given_back(2)[of "semaphore u" "(b, i)" s] by (cases "x = Uploading") simp_all
  ultimately show ?thesis using task_atD[OF t] m
    by (simp add: moved_on_def u' change_batch_def with_task_uses)
qed

lemma upload_step_moves:
  assumes "upload_step u e = Some u'"
  obtains (call) uploads where "e = Upload_all uploads" "wf_dict uploads" "u' = snd (start_uploads uploads u)"
  | (moves) b i y where "moved_on u b i y u'"
      "e = Begin_upload b i \<or> e = End_upload b i \<or> e = Cancel_upload b i"
proof (cases e)
  case (Upload_all uploads)
  with assms call show ?thesis by (auto split: if_splits)
next
  case (Begin_upload b i)
  with assms moved_on_begin moves show ?thesis by blast
next
  case (End_upload b i)
  with assms obtain s where t: "task_at u b i = Some Uploading"
    and s: "lease_step (semaphore u) (Give_back (b, i)) = Some s"
    and u': "u' = change_batch b (end_upload i (case_prod upload_one (wanted (batches u ! b) ! i))) u s"
    by (auto split: if_splits simp del: lease_step.simps)
  from moved_on_end[OF t task_moves.ends _ u'] s End_upload show ?thesis by (intro moves) auto
next
  case (Cancel_upload b i)
  with assms obtain x s where t: "task_at u b i = Some x" and x: "x = Queued \<or> x = Uploading"
    and s: "if x = Uploading then lease_step (semaphore u) (Give_back (b, i)) = Some s else s = semaphore u"
    and u': "u' = change_batch b (end_upload i (Inl cancelled)) u s"
    by (auto split: if_splits simp del: lease_step.simps)
  from moved_on_end[OF t task_moves.is_cancelled[OF x] s u'] Cancel_upload show ?thesis by (intro moves) auto
qed

subsection \<open>Permits and tasks\<close>

definition upload_start :: "nat \<Rightarrow> 'v uploader \<Rightarrow> bool" where
  "upload_start n u \<longleftrightarrow> u = \<lparr>semaphore = fresh_lease n, batches = []\<rparr>"

lemma start_uploads_semaphore [simp]: "semaphore (snd (start_uploads uploads u)) = semaphore u"
  by (simp add: start_uploads_def split: sum.split)

interpretation upload_permits: semaphore_client upload_step semaphore upload_start uses_permit
proof unfold_locales
  fix u u' :: "'v uploader" and e
  assume "upload_step u e = Some u'"
  then show "runs lease_step (semaphore u) (uses_permit u e) = Some (semaphore u')"
    by (cases e) (auto simp: uses_permit_def change_batch_def simp del: lease_step.simps runs.simps(2)
        split: if_splits, auto split: option.splits)
qed (simp add: upload_start_def)

text \<open>
  A task holds a permit exactly while it uploads; an ended task has its own result or was
  cancelled; the error that \<open>gather\<close> has seen is one of a task's.
\<close>

fun task_ok :: "string \<times> 'v result \<Rightarrow> 'v upload_task \<Rightarrow> bool" where
  "task_ok w (Uploaded r) \<longleftrightarrow> r = case_prod upload_one w \<or> r = Inl cancelled"
| "task_ok w _ = True"

definition call_ok :: "'v batch \<Rightarrow> bool" where
  "call_ok B \<longleftrightarrow> wf_dict (wanted B) \<and> list_all2 task_ok (wanted B) (tasks B) \<and>
     (\<forall>e. gather_error B = Some e \<longrightarrow> Uploaded (Inl e) \<in> set (tasks B))"

definition uploads_ok :: "nat \<Rightarrow> 'v uploader \<Rightarrow> bool" where
  "uploads_ok n u \<longleftrightarrow>
     list_all call_ok (batches u) \<and> permits_of (semaphore u) = n \<and>
     waiting (semaphore u) = (\<lambda>_. None) \<and>
     (\<forall>b i. count (leased (semaphore u)) (b, i) =
        (case task_at u b i of None \<Rightarrow> 0 | Some x \<Rightarrow> permits_held x))"

lemma call_ok_move:
  assumes ok: "call_ok B" and i: "i < length (tasks B)" and m: "task_moves (wanted B ! i) (tasks B ! i) y"
  shows "call_ok (with_task i y B)"
proof -
  have y: "task_ok (wanted B ! i) y" and x: "task_failure (tasks B ! i) = None"
    using m by (auto elim!: task_moves_cases)
  from ok have tasks: "list_all2 task_ok (wanted B) (tasks B)" by (simp add: call_ok_def)
  from list_all2_update_cong[OF tasks y, of i]
  have "list_all2 task_ok (wanted B) ((tasks B)[i := y])" by simp
  moreover have "Uploaded (Inl e) \<in> set ((tasks B)[i := y])" if "Uploaded (Inl e) \<in> set (tasks B)" for e
  proof -
    from that obtain j where j: "j < length (tasks B)" "tasks B ! j = Uploaded (Inl e)"
      by (auto simp: in_set_conv_nth)
    with x have "j \<noteq> i" by auto
    with j show ?thesis by (auto simp: in_set_conv_nth intro!: exI[of _ j])
  qed
  moreover have "Uploaded (Inl e) \<in> set ((tasks B)[i := y])" if "task_failure y = Some e" for e
    using that i by (cases y rule: task_failure.cases) (auto simp: set_update_memI)
  ultimately show ?thesis using ok
    by (auto simp: call_ok_def with_task_def split: option.splits)
qed

lemma tasks_with_task [simp]: "tasks (with_task i y B) = (tasks B)[i := y]"
  by (simp add: with_task_def)

lemma task_at_moved:
  assumes "moved_on u b i y u'"
  shows "task_at u' c j = (if c = b \<and> j = i then Some y else task_at u c j)"
  using assms by (auto simp: moved_on_def task_at_def nth_list_update)

lemma uploads_ok_moved:
  assumes ok: "uploads_ok n u" and m: "moved_on u b i y u'" and n: "permits_of (semaphore u') = n"
  shows "uploads_ok n u'"
proof -
  from m have b: "b < length (batches u)" "i < length (tasks (batches u ! b))"
    and u': "batches u' = (batches u)[b := with_task i y (batches u ! b)]"
    and "waiting (semaphore u) = (\<lambda>_. None) \<Longrightarrow> waiting (semaphore u') = (\<lambda>_. None)"
    and v: "permits_moved (semaphore u) (semaphore u') (b, i) (permits_held (tasks (batches u ! b) ! i)) (permits_held y)"
    by (simp_all add: moved_on_def)
  moreover have "call_ok (with_task i y (batches u ! b))"
    using ok m call_ok_move b by (auto simp: uploads_ok_def list_all_length moved_on_def)
  moreover have "count (leased (semaphore u')) (c, j) = (case task_at u' c j of None \<Rightarrow> 0 | Some x \<Rightarrow> permits_held x)"
    for c j
  proof -
    have "count (leased (semaphore u)) (c, j) = (case task_at u c j of None \<Rightarrow> 0 | Some x \<Rightarrow> permits_held x)"
      using ok by (simp add: uploads_ok_def)
    moreover have "task_at u b i = Some (tasks (batches u ! b) ! i)" using b by (simp add: task_at_def)
    ultimately show ?thesis using permits_movedD[OF v, of "(c, j)"] by (auto simp: task_at_moved[OF m])
  qed
  ultimately show ?thesis using ok n
    by (auto simp: uploads_ok_def list_all_length nth_list_update)
qed

lemma start_batches:
  "batches (snd (start_uploads uploads u)) = batches u \<or>
   validate_uploads uploads = Inr () \<and> batches (snd (start_uploads uploads u)) =
     batches u @ [\<lparr>wanted = uploads, tasks = map (\<lambda>_. Queued) uploads, gather_error = None\<rparr>]"
  by (auto simp: start_uploads_def split: sum.split)

lemma uploads_ok_call:
  assumes ok: "uploads_ok n u" and "wf_dict uploads"
  shows "uploads_ok n (snd (start_uploads uploads u))"
proof -
  define B :: "'a batch" where
    "B = \<lparr>wanted = uploads, tasks = map (\<lambda>_. Queued) uploads, gather_error = None\<rparr>"
  have "call_ok B" using assms(2) by (simp add: B_def call_ok_def list_all2_map2 list_all2_same)
  moreover have "task_at (snd (start_uploads uploads u)) b i = task_at u b i \<or>
      task_at (snd (start_uploads uploads u)) b i = Some Queued \<and> task_at u b i = None" for b i
    using start_batches[of uploads u] by (auto simp: task_at_def nth_append less_Suc_eq)
  then have "(case task_at (snd (start_uploads uploads u)) b i of None \<Rightarrow> 0 | Some x \<Rightarrow> permits_held x) =
      (case task_at u b i of None \<Rightarrow> 0 | Some x \<Rightarrow> permits_held x)" for b i
    by (metis (no_types, lifting) option.simps(4,5) permits_held.simps(2))
  ultimately show ?thesis using ok start_batches[of uploads u]
    by (auto simp: uploads_ok_def B_def)
qed

lemma uploads_ok_step:
  assumes ok: "uploads_ok n u" and step: "upload_step u e = Some u'"
  shows "uploads_ok n u'"
  using step
proof (cases rule: upload_step_moves)
  case (moves b i y)
  have "permits_of (semaphore u') = permits_of (semaphore u)"
    using upload_permits.permits_kept[of u "[e]" u'] step by (simp del: upload_step.simps)
  with uploads_ok_moved[OF ok moves(1)] ok show ?thesis by (simp add: uploads_ok_def)
qed (use ok in \<open>simp add: uploads_ok_call\<close>)

lemma uploads_ok_start: "upload_start n u \<Longrightarrow> uploads_ok n u"
  by (simp add: upload_start_def uploads_ok_def fresh_lease_def permits_of_def task_at_def)

interpretation uploads: invariant_machine upload_step "upload_start n" "uploads_ok n" for n
  by unfold_locales (auto intro: uploads_ok_start uploads_ok_step simp del: upload_step.simps)

lemma init_upload_start:
  "init_uploader n = Inr u \<Longrightarrow> upload_start (nat n) u \<and> 0 < n"
  by (auto simp: init_uploader_def upload_start_def split: if_splits)

definition uploading :: "'v uploader \<Rightarrow> task_name set" where
  "uploading u = {(b, i). task_at u b i = Some Uploading}"

lemma uploading_leased:
  assumes "uploads_ok n u"
  shows "finite (uploading u) \<and> card (uploading u) = size (leased (semaphore u))"
proof -
  have one: "count (leased (semaphore u)) v = (if v \<in> uploading u then 1 else 0)" for v
  proof (cases v)
    case (Pair b i)
    with assms have "count (leased (semaphore u)) v = (case task_at u b i of None \<Rightarrow> 0 | Some x \<Rightarrow> permits_held x)"
      by (simp add: uploads_ok_def)
    moreover have "permits_held x = (if x = Uploading then 1 else 0)" for x :: "'a upload_task" by (cases x) auto
    ultimately show ?thesis using Pair by (auto simp: uploading_def split: option.splits)
  qed
  then have set: "set_mset (leased (semaphore u)) = uploading u"
    by (auto simp: set_mset_def split: if_splits)
  moreover have "size (leased (semaphore u)) = (\<Sum>t \<in> uploading u. 1)"
    using one by (simp add: size_multiset_overloaded_eq set)
  ultimately show ?thesis using finite_set_mset[of "leased (semaphore u)"] by simp
qed

subsection \<open>The results of one call\<close>

text \<open>An upload whose callable never raises more than an \<open>Exception\<close> always has a result.\<close>

definition result_of :: "string \<times> 'v result \<Rightarrow> 'v upload_result" where
  "result_of w =
     (case snd w of
        Inr v \<Rightarrow> \<lparr>file_name = fst w, upload_value = Some v, upload_error = None\<rparr>
      | Inl e \<Rightarrow> \<lparr>file_name = fst w, upload_value = None, upload_error = Some e\<rparr>)"

definition catchable :: "'v result \<Rightarrow> bool" where
  "catchable r \<longleftrightarrow> (\<forall>e. r = Inl e \<longrightarrow> is_exception e)"

lemma upload_one_catchable:
  "catchable (snd w) \<Longrightarrow> case_prod upload_one w = Inr (result_of w)"
  by (auto simp: catchable_def upload_one_def result_of_def split: sum.splits prod.splits)

lemma file_name_result [simp]: "file_name (result_of w) = fst w"
  by (simp add: result_of_def split: sum.split)

fun task_left :: "'v upload_task \<Rightarrow> nat" where
  "task_left Queued = 2"
| "task_left Uploading = 1"
| "task_left (Uploaded r) = 0"

definition batch_ended :: "'v batch \<Rightarrow> bool" where
  "batch_ended B \<longleftrightarrow> list_all (\<lambda>x. task_left x = 0) (tasks B)"

lemma gathered_results:
  "list_all2 (\<lambda>w x. x = Uploaded (Inr (g w))) ws xs \<Longrightarrow> gathered xs = Some (map g ws)"
  by (induction rule: list_all2_induct) auto

text \<open>A call that ended without a cancellation has exactly the results of its own uploads.\<close>

lemma ended_batch:
  assumes ok: "call_ok B" and ended: "batch_ended B"
    and good: "list_all (\<lambda>w. catchable (snd w)) (wanted B)" and "Uploaded (Inl cancelled) \<notin> set (tasks B)"
  shows "batch_result B = Some (Inr (map (\<lambda>w. (fst w, result_of w)) (wanted B)))"
proof -
  have own: "list_all2 (\<lambda>w x. x = Uploaded (Inr (result_of w))) (wanted B) (tasks B)"
    unfolding list_all2_conv_all_nth
  proof (intro conjI allI impI)
    show len: "length (wanted B) = length (tasks B)" using ok by (auto simp: call_ok_def dest: list_all2_lengthD)
    fix i
    assume i: "i < length (wanted B)"
    with ok have "task_ok (wanted B ! i) (tasks B ! i)" by (auto simp: call_ok_def dest: list_all2_nthD)
    moreover have "task_left (tasks B ! i) = 0" using ended i len by (simp add: batch_ended_def list_all_length)
    moreover have "tasks B ! i \<noteq> Uploaded (Inl cancelled)" using assms(4) i len by (metis nth_mem)
    moreover have "case_prod upload_one (wanted B ! i) = Inr (result_of (wanted B ! i))"
      using good i by (intro upload_one_catchable) (simp add: list_all_length)
    ultimately show "tasks B ! i = Uploaded (Inr (result_of (wanted B ! i)))"
      by (cases "tasks B ! i") auto
  qed
  then have "Uploaded (Inl e) \<notin> set (tasks B)" for e
    by (auto simp: list_all2_conv_all_nth in_set_conv_nth)
  with ok have "gather_error B = None" by (auto simp: call_ok_def)
  with gathered_results[OF own] ok show ?thesis
    by (simp add: batch_result_def call_ok_def dict_of_distinct comp_def)
qed

text \<open>Conversely, a call that returns results has had them all from its own uploads.\<close>

lemma gathered_uploaded:
  "gathered xs = Some rs \<Longrightarrow> x \<in> set xs \<Longrightarrow> \<exists>r. x = Uploaded (Inr r)"
  by (induction xs arbitrary: rs rule: gathered.induct) auto

lemma upload_one_Inr: "Inr r = case_prod upload_one w \<Longrightarrow> catchable (snd w)"
  by (cases w) (auto simp: upload_one_def catchable_def split: sum.splits if_splits)

lemma upload_one_Inl: "Inl e = case_prod upload_one w \<Longrightarrow> snd w = Inl e \<and> \<not> is_exception e"
  by (cases w) (auto simp: upload_one_def split: sum.splits if_splits)

lemma returned_batch:
  assumes ok: "call_ok B" and "batch_result B = Some (Inr rs)"
  shows "rs = map (\<lambda>w. (fst w, result_of w)) (wanted B)"
proof -
  from assms(2) obtain l where l: "gathered (tasks B) = Some l"
    by (auto simp: batch_result_def split: option.splits)
  have tasks: "list_all2 task_ok (wanted B) (tasks B)" using ok by (simp add: call_ok_def)
  have "list_all (\<lambda>w. catchable (snd w)) (wanted B)"
    unfolding list_all_length
  proof (intro allI impI)
    fix i
    assume i: "i < length (wanted B)"
    with tasks have "tasks B ! i \<in> set (tasks B)" by (simp add: list_all2_lengthD)
    with gathered_uploaded[OF l] obtain r where "tasks B ! i = Uploaded (Inr r)" by blast
    with list_all2_nthD[OF tasks i] have "Inr r = case_prod upload_one (wanted B ! i)" by simp
    then show "catchable (snd (wanted B ! i))" by (rule upload_one_Inr)
  qed
  moreover have "batch_ended B" using gathered_uploaded[OF l] by (fastforce simp: batch_ended_def list_all_iff)
  moreover have "Uploaded (Inl cancelled) \<notin> set (tasks B)" using gathered_uploaded[OF l] by blast
  ultimately show ?thesis using ended_batch[OF ok] assms(2) by simp
qed

lemma raised_by_batch:
  assumes ok: "call_ok B" and "batch_result B = Some (Inl e)"
  shows "Uploaded (Inl e) \<in> set (tasks B) \<and>
         (e = cancelled \<or> (\<exists>w \<in> set (wanted B). snd w = Inl e \<and> \<not> is_exception e))"
proof -
  from assms have e: "Uploaded (Inl e) \<in> set (tasks B)"
    by (auto simp: call_ok_def batch_result_def split: option.splits)
  then obtain i where i: "i < length (tasks B)" "tasks B ! i = Uploaded (Inl e)" by (auto simp: in_set_conv_nth)
  have tasks: "list_all2 task_ok (wanted B) (tasks B)" using ok by (simp add: call_ok_def)
  with i have w: "wanted B ! i \<in> set (wanted B)" and "task_ok (wanted B ! i) (Uploaded (Inl e))"
    by (auto dest: list_all2_nthD2 simp: list_all2_lengthD)
  then have "e = cancelled \<or> Inl e = case_prod upload_one (wanted B ! i)" by auto
  with upload_one_Inl w e show ?thesis by blast
qed

subsection \<open>The calls come to an end\<close>

definition calls_ended :: "'v uploader \<Rightarrow> bool" where
  "calls_ended u \<longleftrightarrow> list_all batch_ended (batches u)"

definition batch_left :: "'v batch \<Rightarrow> nat" where
  "batch_left B = sum_list (map task_left (tasks B))"

definition uploads_left :: "'v uploader \<Rightarrow> nat" where
  "uploads_left u = sum_list (map batch_left (batches u))"

fun no_new_call :: "'v upload_event \<Rightarrow> bool" where
  "no_new_call (Upload_all uploads) = False"
| "no_new_call _ = True"

lemma uploads_left_step:
  assumes "no_new_call e" and "upload_step u e = Some u'"
  shows "uploads_left u' < uploads_left u"
  using assms(2)
proof (cases rule: upload_step_moves)
  case (moves b i y)
  then have b: "b < length (batches u)" "i < length (tasks (batches u ! b))"
    and u': "batches u' = (batches u)[b := with_task i y (batches u ! b)]"
    and "task_left y < task_left (tasks (batches u ! b) ! i)"
    by (auto simp: moved_on_def elim!: task_moves_cases)
  with parts_update[OF b(2), of task_left y]
  have "batch_left (with_task i y (batches u ! b)) < batch_left (batches u ! b)"
    by (simp add: batch_left_def)
  with parts_update[OF b(1), of batch_left "with_task i y (batches u ! b)"] u'
  show ?thesis by (simp add: uploads_left_def)
qed (use assms(1) in simp)

lemma uploads_progress:
  assumes ok: "uploads_ok n u" and "0 < n" and "\<not> calls_ended u"
  shows "\<exists>e. no_new_call e \<and> upload_step u e \<noteq> None"
proof -
  from assms(3) obtain b i where t: "b < length (batches u)" "i < length (tasks (batches u ! b))"
    "task_left (tasks (batches u ! b) ! i) \<noteq> 0"
    by (auto simp: calls_ended_def batch_ended_def list_all_length)
  have held: "count (leased (semaphore u)) (c, j) = (case task_at u c j of None \<Rightarrow> 0 | Some x \<Rightarrow> permits_held x)"
    for c j using ok by (simp add: uploads_ok_def)
  show ?thesis
  proof (cases "leased (semaphore u) = {#}")
    case True
    with held[of b i] t have "task_at u b i = Some Queued"
      by (cases "tasks (batches u ! b) ! i") (auto simp: task_at_def)
    with True ok assms(2) show ?thesis
      by (intro exI[of _ "Begin_upload b i"]) (simp add: uploads_ok_def permits_of_def)
  next
    case False
    then obtain v where "v \<in># leased (semaphore u)" by blast
    then obtain c j where v: "(c, j) \<in># leased (semaphore u)" by (cases v) auto
    then have "0 < count (leased (semaphore u)) (c, j)" by simp
    with held[of c j] obtain x where "task_at u c j = Some x" "permits_held x \<noteq> 0"
      by (cases "task_at u c j") auto
    then have "task_at u c j = Some Uploading" by (cases x) auto
    with v show ?thesis by (intro exI[of _ "End_upload c j"]) simp
  qed
qed

interpretation upload_ends: finishing_machine upload_step "\<lambda>u. 0 < n \<and> uploads_ok n u"
  no_new_call no_new_call calls_ended uploads_left for n
proof unfold_locales
  show "\<exists>e. no_new_call e \<and> upload_step u e \<noteq> None"
    if "0 < n \<and> uploads_ok n u" "\<not> calls_ended u" for u :: "'v uploader"
    using uploads_progress[of n u] that by blast
qed (auto intro: uploads_ok_step uploads_left_step less_imp_le simp del: upload_step.simps)

lemma ended_free:
  assumes ok: "uploads_ok n u" and "calls_ended u"
  shows "free (semaphore u) = n"
proof -
  have "uploading u = {}" using assms(2)
    by (fastforce simp: uploading_def task_at_def calls_ended_def batch_ended_def list_all_length split: if_splits)
  with uploading_leased[OF ok] ok show ?thesis by (simp add: uploads_ok_def permits_of_def)
qed

subsection \<open>Properties\<close>

text \<open>
  C28. At no moment do more than \<open>max_concurrent\<close> uploads run, those of all calls taken together and
  whatever the order in which tasks start, end and are cancelled: the running uploads and the
  free permits add up to the cap.
\<close>

theorem uploads_are_capped:
  assumes "init_uploader max_concurrent = Inr u0" and "runs upload_step u0 schedule = Some u"
  shows "finite (uploading u) \<and>
         int (card (uploading u)) + int (free (semaphore u)) = max_concurrent"
proof -
  from init_upload_start[OF assms(1)] have start: "upload_start (nat max_concurrent) u0" and "0 < max_concurrent"
    by auto
  with uploading_leased[OF uploads.invariant[OF start assms(2)]] upload_permits.permits[OF start assms(2)]
  show ?thesis by auto
qed

text \<open>
  C27. What a call returns does not depend on the schedule, on the failures of other files or on
  the other calls of the same uploader: results, whenever it returns some, are one per file, in
  the order of the files, and each is the outcome of that file's own upload; it raises only when one
  of its uploads was cancelled or raised what is not an \<open>Exception\<close>, and then that; and once all
  its tasks have ended without any of these, it has returned its results.
\<close>

theorem batch_is_schedule_independent:
  assumes "init_uploader max_concurrent = Inr u0" and "runs upload_step u0 schedule = Some u"
    and "B \<in> set (batches u)"
  shows "(\<forall>rs. batch_result B = Some (Inr rs) \<longrightarrow> rs = map (\<lambda>w. (fst w, result_of w)) (wanted B)) \<and>
         (\<forall>e. batch_result B = Some (Inl e) \<longrightarrow> Uploaded (Inl e) \<in> set (tasks B) \<and>
            (e = cancelled \<or> (\<exists>w \<in> set (wanted B). snd w = Inl e \<and> \<not> is_exception e))) \<and>
         (batch_ended B \<and> list_all (\<lambda>w. catchable (snd w)) (wanted B) \<and>
            Uploaded (Inl cancelled) \<notin> set (tasks B) \<longrightarrow>
            batch_result B = Some (Inr (map (\<lambda>w. (fst w, result_of w)) (wanted B))))"
proof -
  from init_upload_start[OF assms(1)] uploads.invariant[OF _ assms(2)]
  have "uploads_ok (nat max_concurrent) u" by blast
  with assms(3) have ok: "call_ok B" by (auto simp: uploads_ok_def list_all_iff)
  from returned_batch[OF ok] raised_by_batch[OF ok] ended_batch[OF ok] show ?thesis by blast
qed

text \<open>
  All calls come to an end and their permits come back, cancelled or not, if no upload itself
  awaits a call of the same uploader (in the schedule every upload can end): from any moment on,
  without new calls, at most two more steps happen for each task, the uploader is never stuck
  before all calls have ended, they can be brought to their end, and then every permit of the
  semaphore is free again.
\<close>

lemma uploads_always_end:
  assumes "init_uploader max_concurrent = Inr u0" and "runs upload_step u0 before = Some u"
    and "list_all no_new_call after" and "runs upload_step u after = Some v"
  shows "length after + uploads_left v \<le> uploads_left u \<and>
         ((\<forall>e. no_new_call e \<longrightarrow> upload_step v e = None) \<longrightarrow> calls_ended v) \<and>
         (\<exists>rest w. list_all no_new_call rest \<and> runs upload_step v rest = Some w \<and> calls_ended w) \<and>
         (calls_ended v \<longrightarrow> int (free (semaphore v)) = max_concurrent)"
proof -
  from init_upload_start[OF assms(1)] uploads.invariant[OF _ assms(2)]
  have inv: "0 < nat max_concurrent \<and> uploads_ok (nat max_concurrent) u" by auto
  have "filter no_new_call after = after" using assms(3) by (simp add: list_all_iff filter_id_conv)
  with upload_ends.comes_to_an_end[OF inv assms(3,4)]
  have ends: "length after + uploads_left v \<le> uploads_left u"
    "(\<forall>e. no_new_call e \<longrightarrow> upload_step v e = None) \<longrightarrow> calls_ended v"
    "\<exists>rest w. list_all no_new_call rest \<and> runs upload_step v rest = Some w \<and> calls_ended w" by auto
  from upload_ends.own_steps_bounded[OF inv assms(3,4)]
  have "0 < nat max_concurrent \<and> uploads_ok (nat max_concurrent) v" by blast
  then have "calls_ended v \<longrightarrow> int (free (semaphore v)) = max_concurrent"
    using ended_free[of "nat max_concurrent" v] by auto
  with ends show ?thesis by blast
qed

text \<open>
  Two calls share one permit; in the first call the second file goes first and fails, the second
  call is cancelled while it waits.
\<close>

definition one_permit :: "int uploader" where
  "one_permit = \<lparr>semaphore = fresh_lease 1, batches = []\<rparr>"

definition two_files :: "(string, int result) dict" where
  "two_files = [(''a'', Inr 1), (''b'', Inl (UserError ''refused''))]"

definition upload_calls :: "int upload_event list" where
  "upload_calls = [Upload_all two_files, Upload_all [(''c'', Inr 3)]]"

definition upload_schedule :: "int upload_event list" where
  "upload_schedule = [Begin_upload 0 1, Cancel_upload 1 0, End_upload 0 1, Begin_upload 0 0, End_upload 0 0]"

definition uploads_called :: "int uploader" where
  "uploads_called = the (runs upload_step one_permit upload_calls)"

definition uploads_end :: "int uploader" where
  "uploads_end = the (runs upload_step uploads_called upload_schedule)"

lemmas upload_eval = one_permit_def two_files_def upload_calls_def upload_schedule_def uploads_called_def
  uploads_end_def start_uploads_def validate_uploads_def task_at_def change_batch_def end_upload_def
  note_failure_def upload_one_def fresh_lease_def

lemma uploads_run:
  "init_uploader 1 = Inr one_permit"
  "runs upload_step one_permit upload_calls = Some uploads_called"
  "runs upload_step uploads_called upload_schedule = Some uploads_end"
  "list_all no_new_call upload_schedule"
  by (simp_all add: init_uploader_def upload_eval)

lemma uploads_end_eq:
  "batches uploads_end =
     [\<lparr>wanted = two_files, tasks = map (\<lambda>w. Uploaded (Inr (result_of w))) two_files, gather_error = None\<rparr>,
      \<lparr>wanted = [(''c'', Inr 3)], tasks = [Uploaded (Inl cancelled)], gather_error = Some cancelled\<rparr>]"
  by (simp add: upload_eval result_of_def)

lemma uploads_whole_run: "runs upload_step one_permit (upload_calls @ upload_schedule) = Some uploads_end"
  by (simp only: runs_append uploads_run option.simps)

theorem uploads_are_capped_witness:
  "finite (uploading uploads_end) \<and> int (card (uploading uploads_end)) + int (free (semaphore uploads_end)) = 1"
  by (rule uploads_are_capped[OF uploads_run(1) uploads_whole_run])

theorem batch_is_schedule_independent_witness:
  "batch_result \<lparr>wanted = two_files, tasks = map (\<lambda>w. Uploaded (Inr (result_of w))) two_files,
     gather_error = None\<rparr> = Some (Inr (map (\<lambda>w. (fst w, result_of w)) two_files))"
proof -
  let ?B = "\<lparr>wanted = two_files, tasks = map (\<lambda>w. Uploaded (Inr (result_of w))) two_files, gather_error = None\<rparr>"
  have "?B \<in> set (batches uploads_end)" by (simp add: uploads_end_eq)
  from batch_is_schedule_independent[OF uploads_run(1) uploads_whole_run this]
  have "batch_ended ?B \<and> list_all (\<lambda>w. catchable (snd w)) (wanted ?B) \<and>
      Uploaded (Inl cancelled) \<notin> set (tasks ?B) \<longrightarrow>
      batch_result ?B = Some (Inr (map (\<lambda>w. (fst w, result_of w)) (wanted ?B)))" by blast
  then show ?thesis by (simp add: batch_ended_def two_files_def catchable_def)
qed

lemma uploads_always_end_witness: "int (free (semaphore uploads_end)) = 1"
proof -
  have "calls_ended uploads_end"
    by (simp add: calls_ended_def uploads_end_eq batch_ended_def two_files_def)
  with uploads_always_end[OF uploads_run(1,2,4,3)] show ?thesis by blast
qed

end
