(* ===== verification/Request_Context.thy ===== *)
theory Request_Context
  imports Prelude
begin

section \<open>threadlocalrequest and asynccontextrequest: one request ID per flow\<close>

text \<open>
  Models \<^verbatim>\<open>threadlocalrequest/context.py\<close> (a \<open>threading.local\<close>) and
  \<^verbatim>\<open>asynccontextrequest/context.py\<close> (a \<open>ContextVar\<close> with reset tokens). Both are shared
  objects whose operations act on the part of the state that belongs to the calling thread or
  task; the locale \<open>per_caller\<close> says what that means and what a caller gains from it.
\<close>

subsection \<open>The interface: a store with one part per caller\<close>

locale per_caller =
  fixes call :: "'s \<Rightarrow> tid \<Rightarrow> 'op \<Rightarrow> 'r \<times> 's"
    and own :: "'s \<Rightarrow> tid \<Rightarrow> 'v"
    and local_op :: "tid \<Rightarrow> 'op \<Rightarrow> bool"
  assumes others_untouched: "u \<noteq> t \<Longrightarrow> own (snd (call s t x)) u = own s u"
    and only_own_part: "local_op t x \<Longrightarrow> own s t = own s' t \<Longrightarrow>
      fst (call s t x) = fst (call s' t x) \<and> own (snd (call s t x)) t = own (snd (call s' t x)) t"
begin

fun serve :: "'s \<Rightarrow> (tid \<times> 'op) list \<Rightarrow> (tid \<times> 'r) list \<times> 's" where
  "serve s [] = ([], s)"
| "serve s ((t, x) # cs) =
     (let (r, s1) = call s t x; (rs, s2) = serve s1 cs in ((t, r) # rs, s2))"

text \<open>
  What a caller sees of an interleaving is what it would see if it were alone.
\<close>

lemma isolated:
  assumes "own s t = own s' t" and "\<forall>(u, x) \<in> set cs. u = t \<longrightarrow> local_op u x"
  shows "filter (\<lambda>(u, _). u = t) (fst (serve s cs)) =
           fst (serve s' (filter (\<lambda>(u, _). u = t) cs)) \<and>
         own (snd (serve s cs)) t = own (snd (serve s' (filter (\<lambda>(u, _). u = t) cs))) t"
  using assms
proof (induction cs arbitrary: s s')
  case (Cons c cs)
  obtain u x where c: "c = (u, x)" by fastforce
  show ?case
  proof (cases "u = t")
    case True
    with Cons.prems c have l: "local_op t x" by auto
    from only_own_part[OF l Cons.prems(1)]
    have "fst (call s t x) = fst (call s' t x)"
      "own (snd (call s t x)) t = own (snd (call s' t x)) t" by auto
    with Cons.IH[of "snd (call s t x)" "snd (call s' t x)"] Cons.prems(2) c True
    show ?thesis by (auto simp: Let_def split: prod.splits)
  next
    case False
    with others_untouched[of t u s x] Cons.prems(1)
    have "own (snd (call s u x)) t = own s' t" by simp
    with Cons.IH[of "snd (call s u x)" s'] Cons.prems(2) c False
    show ?thesis by (auto simp: Let_def split: prod.splits)
  qed
qed simp

end

subsection \<open>The thread-local request context\<close>

text \<open>The attribute \<open>request_id\<close> of the local object, for each thread that has one.\<close>

type_synonym thread_context = "tid \<Rightarrow> string option"

definition init_context :: thread_context where
  "init_context = (\<lambda>_. None)"

definition set_request_id :: "tid \<Rightarrow> string \<Rightarrow> thread_context \<Rightarrow> unit result \<times> thread_context" where
  "set_request_id t request_id s =
     (if request_id = '''' then (Inl (ValueError ''request_id must not be empty''), s)
      else (Inr (), s(t \<mapsto> request_id)))"

definition get_request_id :: "tid \<Rightarrow> thread_context \<Rightarrow> string option" where
  "get_request_id t s = s t"

definition clear_request_id :: "tid \<Rightarrow> thread_context \<Rightarrow> thread_context" where
  "clear_request_id t s = (if s t \<noteq> None then s(t := None) else s)"

datatype context_op =
    Set_request string
  | Get_request
  | Clear_request

datatype context_reply =
    Was_set "unit result"
  | Request_is "string option"
  | Cleared

fun context_call :: "thread_context \<Rightarrow> tid \<Rightarrow> context_op \<Rightarrow> context_reply \<times> thread_context" where
  "context_call s t (Set_request r) = apfst Was_set (set_request_id t r s)"
| "context_call s t Get_request = (Request_is (get_request_id t s), s)"
| "context_call s t Clear_request = (Cleared, clear_request_id t s)"

interpretation threads: per_caller context_call "\<lambda>s t. s t" "\<lambda>_ _. True"
proof unfold_locales
  fix u t :: tid and s x
  show "u \<noteq> t \<Longrightarrow> snd (context_call s t x) u = s u"
    by (cases x) (auto simp: set_request_id_def clear_request_id_def)
next
  fix t :: tid and s s' :: thread_context and x
  assume "s t = s' t"
  then show "fst (context_call s t x) = fst (context_call s' t x) \<and>
      snd (context_call s t x) t = snd (context_call s' t x) t"
    by (cases x) (auto simp: set_request_id_def clear_request_id_def get_request_id_def)
qed

fun serve_threads ::
  "thread_context \<Rightarrow> (tid \<times> context_op) list \<Rightarrow> (tid \<times> context_reply) list \<times> thread_context" where
  "serve_threads s [] = ([], s)"
| "serve_threads s ((t, x) # cs) =
     (let (r, s1) = context_call s t x; (rs, s2) = serve_threads s1 cs in ((t, r) # rs, s2))"

lemma serve_threads_eq: "serve_threads s cs = threads.serve s cs"
  by (induction s cs rule: serve_threads.induct) (simp_all split: prod.splits)

text \<open>The value a thread last stored and has not cleared since.\<close>

fun last_request :: "context_op list \<Rightarrow> string option" where
  "last_request [] = None"
| "last_request (Set_request r # xs) = (if r = '''' then last_request xs else Some r)"
| "last_request (Get_request # xs) = last_request xs"
| "last_request (Clear_request # xs) = None"

lemma alone:
  "snd (serve_threads init_context (map (Pair t) xs)) t = last_request (rev xs)"
proof -
  have split: "snd (serve_threads s (cs @ [(t, x)])) = snd (context_call (snd (serve_threads s cs)) t x)"
    for s cs x
    by (induction s cs rule: serve_threads.induct) (auto simp: Let_def split: prod.splits)
  show ?thesis
  proof (induction xs rule: rev_induct)
    case Nil
    then show ?case by (simp add: init_context_def)
  next
    case (snoc x xs)
    then show ?case
      by (cases x) (auto simp: split set_request_id_def get_request_id_def clear_request_id_def)
  qed
qed

subsection \<open>The context variable and its tokens\<close>

text \<open>
  Each task runs in a context of its own, a copy of its creator's. A token belongs to the
  context of the \<open>set\<close> that made it: \<open>Token c i\<close> is the \<open>i\<close>-th token of context \<open>c\<close>. It
  keeps the value before the \<open>set\<close> and whether it has been used.
\<close>

datatype token = Token (token_context: tid) (token_number: nat)

record context_var =
  current :: "tid \<Rightarrow> string option"
  tokens :: "tid \<Rightarrow> (string option \<times> bool) list"

definition init_var :: context_var where
  "init_var = \<lparr>current = (\<lambda>_. None), tokens = (\<lambda>_. [])\<rparr>"

definition var_set :: "tid \<Rightarrow> string \<Rightarrow> context_var \<Rightarrow> token result \<times> context_var" where
  "var_set t request_id s =
     (if request_id = '''' then (Inl (ValueError ''request_id must not be empty''), s)
      else (Inr (Token t (length (tokens s t))),
            s\<lparr>current := (current s)(t \<mapsto> request_id),
              tokens := (tokens s)(t := tokens s t @ [(current s t, False)])\<rparr>))"

definition var_get :: "tid \<Rightarrow> context_var \<Rightarrow> string option" where
  "var_get t s = current s t"

text \<open>
  \<open>ContextVar.reset\<close>: a used token raises \<open>RuntimeError\<close>, a token of another context
  \<open>ValueError\<close>. A token that no \<open>set\<close> has returned cannot be passed: such a call is not
  possible, and the last branch of the case distinction is never reached.
\<close>

definition var_reset :: "tid \<Rightarrow> token \<Rightarrow> context_var \<Rightarrow> unit result \<times> context_var" where
  "var_reset t tok s =
     (case tok of Token c i \<Rightarrow>
        if i < length (tokens s c) then
          (case tokens s c ! i of (old, used) \<Rightarrow>
             if used then (Inl (RuntimeError ''token has already been used once''), s)
             else if c \<noteq> t
               then (Inl (ValueError ''token was created in a different Context''), s)
             else (Inr (), s\<lparr>current := (current s)(t := old),
                             tokens := (tokens s)(t := (tokens s t)[i := (old, True)])\<rparr>))
        else (Inl (ValueError ''not a token''), s))"

text \<open>\<open>asyncio.create_task\<close> copies the creator's context; no token belongs to the copy.\<close>

definition spawn :: "tid \<Rightarrow> tid \<Rightarrow> context_var \<Rightarrow> context_var" where
  "spawn parent child s =
     s\<lparr>current := (current s)(child := current s parent), tokens := (tokens s)(child := [])\<rparr>"

datatype var_op =
    Set_var string
  | Get_var
  | Reset_var token

datatype var_reply =
    Token_is "token result"
  | Value_is "string option"
  | Was_reset "unit result"

fun var_call :: "context_var \<Rightarrow> tid \<Rightarrow> var_op \<Rightarrow> var_reply \<times> context_var" where
  "var_call s t (Set_var r) = apfst Token_is (var_set t r s)"
| "var_call s t Get_var = (Value_is (var_get t s), s)"
| "var_call s t (Reset_var k) = apfst Was_reset (var_reset t k s)"

fun own_token :: "tid \<Rightarrow> var_op \<Rightarrow> bool" where
  "own_token t (Reset_var k) = (token_context k = t)"
| "own_token t _ = True"

interpretation task_vars: per_caller var_call "\<lambda>s t. (current s t, tokens s t)" own_token
proof unfold_locales
  fix u t :: tid and s x
  show "u \<noteq> t \<Longrightarrow> (current (snd (var_call s t x)) u, tokens (snd (var_call s t x)) u) =
      (current s u, tokens s u)"
    by (cases x) (auto simp: var_set_def var_reset_def split: token.splits prod.splits)
next
  fix t :: tid and s s' :: context_var and x
  assume "own_token t x" "(current s t, tokens s t) = (current s' t, tokens s' t)"
  then show "fst (var_call s t x) = fst (var_call s' t x) \<and>
      (current (snd (var_call s t x)) t, tokens (snd (var_call s t x)) t) =
      (current (snd (var_call s' t x)) t, tokens (snd (var_call s' t x)) t)"
    by (cases x) (auto simp: var_set_def var_reset_def var_get_def split: token.splits prod.splits)
qed

text \<open>Tasks that call the context variable or start a task that has not run yet.\<close>

datatype var_event =
    Call_var tid var_op
  | Spawn_task tid tid

fun var_step :: "context_var \<Rightarrow> var_event \<Rightarrow> context_var option" where
  "var_step s (Call_var t x) = Some (snd (var_call s t x))"
| "var_step s (Spawn_task parent child) =
     (if tokens s child \<noteq> [] then None else Some (spawn parent child s))"

definition keeps_token :: "tid \<Rightarrow> nat \<Rightarrow> string option \<Rightarrow> context_var \<Rightarrow> bool" where
  "keeps_token t i old s \<longleftrightarrow> i < length (tokens s t) \<and> tokens s t ! i = (old, False)"

lemma keeps_token_step:
  assumes "keeps_token t i old s" and "var_step s e = Some s'"
    and "e \<noteq> Call_var t (Reset_var (Token t i))"
  shows "keeps_token t i old s'"
proof (cases e)
  case (Call_var u x)
  with assms show ?thesis
    by (cases x) (auto simp: keeps_token_def var_set_def var_reset_def nth_append nth_list_update
        split: token.splits prod.splits if_splits)
next
  case (Spawn_task p c)
  with assms show ?thesis by (auto simp: keeps_token_def spawn_def split: if_splits)
qed

lemma keeps_token_runs:
  "keeps_token t i old s \<Longrightarrow> runs var_step s es = Some s' \<Longrightarrow>
   Call_var t (Reset_var (Token t i)) \<notin> set es \<Longrightarrow> keeps_token t i old s'"
  by (induction es arbitrary: s) (auto split: option.splits dest: keeps_token_step)

subsection \<open>Properties\<close>

text \<open>
  Thread-local contexts are isolated: in every interleaving, the replies that a thread gets
  are the replies it would get alone, and it reads the ID that it stored last and has not
  cleared since, whatever the other threads store and clear.
\<close>

lemma thread_contexts_isolated:
  assumes "serve_threads init_context calls = (replies, s)"
  shows "filter (\<lambda>(u, _). u = t) replies =
           fst (serve_threads init_context (filter (\<lambda>(u, _). u = t) calls)) \<and>
         get_request_id t s = last_request (rev (map snd (filter (\<lambda>(u, _). u = t) calls)))"
proof -
  let ?own = "filter (\<lambda>(u, _). u = t) calls"
  have own: "map (Pair t) (map snd ?own) = ?own" by (induction calls) auto
  have "filter (\<lambda>(u, _). u = t) (fst (serve_threads init_context calls)) =
      fst (serve_threads init_context ?own) \<and>
    snd (serve_threads init_context calls) t = snd (serve_threads init_context ?own) t"
    unfolding serve_threads_eq by (rule threads.isolated) auto
  with alone[of t "map snd ?own", unfolded own] assms show ?thesis
    by (simp add: get_request_id_def)
qed

lemma thread_contexts_isolated_witness:
  "get_request_id 1 (snd (serve_threads init_context
     [(1, Set_request ''req-1''), (2, Set_request ''req-2''), (1, Set_request ''''), (2, Clear_request)])) =
   last_request (rev [Set_request ''req-1'', Set_request '''']) \<and>
   last_request (rev [Set_request ''req-1'', Set_request '''']) = Some ''req-1''"
  using conjunct2[OF thread_contexts_isolated[OF surjective_pairing, where calls =
      "[(1, Set_request ''req-1''), (2, Set_request ''req-2''), (1, Set_request ''''), (2, Clear_request)]" and t = 1]]
  by simp

text \<open>
  C40. A reset token restores exactly the request ID that its \<open>set\<close> replaced, after any activity
  of the task and of any other task in between, child tasks included, and only in its own
  context. It works once: used again it raises \<open>RuntimeError\<close>, used in another context
  before that it raises \<open>ValueError\<close>, and both leave the context alone.
\<close>

theorem token_restores_request:
  assumes "var_set t request_id s0 = (Inr k, s1)"
    and "runs var_step s1 schedule = Some s2"
    and "Call_var t (Reset_var k) \<notin> set schedule"
    and "var_reset t k s2 = (r, s3)"
  shows "r = Inr () \<and> var_get t s3 = var_get t s0 \<and> (\<forall>u. u \<noteq> t \<longrightarrow> var_get u s3 = var_get u s2) \<and>
         var_reset t k s3 = (Inl (RuntimeError ''token has already been used once''), s3) \<and>
         (\<forall>u. u \<noteq> t \<longrightarrow>
            var_reset u k s2 = (Inl (ValueError ''token was created in a different Context''), s2))"
proof -
  from assms(1) obtain i where k: "k = Token t i" and "keeps_token t i (current s0 t) s1"
    by (auto simp: var_set_def keeps_token_def split: if_splits)
  with keeps_token_runs assms(2,3) have "keeps_token t i (current s0 t) s2" by blast
  with assms(4) k show ?thesis by (auto simp: var_reset_def keeps_token_def var_get_def)
qed

text \<open>A task sets an ID over an inherited one, a sibling changes its own, a child is started.\<close>

definition nested_set :: context_var where
  "nested_set = snd (var_set 1 ''outer'' init_var)"

definition inner_set :: context_var where
  "inner_set = snd (var_set 1 ''inner'' nested_set)"

definition token_schedule :: "var_event list" where
  "token_schedule =
     [Call_var 2 (Set_var ''other''), Spawn_task 1 3, Call_var 3 (Set_var ''child''),
      Call_var 1 (Set_var ''deeper'')]"

definition after_tokens :: context_var where
  "after_tokens = the (runs var_step inner_set token_schedule)"

lemma token_run:
  "var_set 1 ''inner'' nested_set = (Inr (Token 1 1), inner_set)"
  "runs var_step inner_set token_schedule = Some after_tokens"
  "var_get 1 nested_set = Some ''outer''"
  by (simp_all add: inner_set_def after_tokens_def token_schedule_def nested_set_def init_var_def
      var_set_def spawn_def var_get_def)

theorem token_restores_request_witness:
  "var_get 1 (snd (var_reset 1 (Token 1 1) after_tokens)) = Some ''outer''"
  using token_restores_request[OF token_run(1,2) _ surjective_pairing] token_run(3)
  by (simp add: token_schedule_def)

end
