(* ===== verification/Payment_Status.thy ===== *)
theory Payment_Status
  imports Prelude
begin

section \<open>asyncpaymentstatus: one final result for many waiting tasks\<close>

text \<open>
  Models \<^verbatim>\<open>asyncpaymentstatus/status.py\<close>. The tasks of one event loop switch only where
  they await, and the two marking methods await nothing, so each call is one step; a
  \<open>wait_for_result\<close> is one step when the event is set and otherwise a waiting task that is
  resumed or timed out later. \<open>asyncio.wait_for\<close> with a timeout of zero cancels the wait
  before it has begun, so such a call raises \<open>TimeoutError\<close> even when the result is there.
  A waiting task may be cancelled.
\<close>

subsection \<open>State\<close>

datatype payment_outcome =
    Succeeded
  | Failed

record payment_result =
  payment_id :: string
  payment_outcome :: payment_outcome
  reason :: "string option"

record payment_state =
  event_set :: bool
  final_result :: "payment_result option"

type_synonym payments = "(string, payment_state) dict"

definition init_payments :: payments where
  "init_payments = []"

definition validate_payment_id :: "string \<Rightarrow> unit result" where
  "validate_payment_id pid =
     (if pid = '''' then Inl (ValueError ''payment_id must not be empty'') else Inr ())"

definition state_for :: "string \<Rightarrow> payments \<Rightarrow> payment_state \<times> payments" where
  "state_for pid s =
     (case map_of s pid of
        Some st \<Rightarrow> (st, s)
      | None \<Rightarrow>
          (let st = \<lparr>event_set = False, final_result = None\<rparr> in (st, AList.update pid st s)))"

subsection \<open>Methods\<close>

definition complete :: "payment_result \<Rightarrow> payments \<Rightarrow> bool \<times> payments" where
  "complete r s =
     (case state_for (payment_id r) s of
        (st, s') \<Rightarrow>
          if final_result st \<noteq> None then (False, s')
          else (True, AList.update (payment_id r) \<lparr>event_set = True, final_result = Some r\<rparr> s'))"

definition mark_succeeded :: "string \<Rightarrow> payments \<Rightarrow> bool result \<times> payments" where
  "mark_succeeded pid s =
     (case validate_payment_id pid of
        Inl e \<Rightarrow> (Inl e, s)
      | Inr _ \<Rightarrow>
          apfst Inr (complete \<lparr>payment_id = pid, payment_outcome = Succeeded, reason = None\<rparr> s))"

definition mark_failed :: "string \<Rightarrow> string \<Rightarrow> payments \<Rightarrow> bool result \<times> payments" where
  "mark_failed pid why s =
     (case validate_payment_id pid of
        Inl e \<Rightarrow> (Inl e, s)
      | Inr _ \<Rightarrow>
          if why = '''' then (Inl (ValueError ''reason must not be empty''), s)
          else apfst Inr
            (complete \<lparr>payment_id = pid, payment_outcome = Failed, reason = Some why\<rparr> s))"

definition result_for :: "string \<Rightarrow> payments \<Rightarrow> payment_result option result" where
  "result_for pid s =
     (case validate_payment_id pid of
        Inl e \<Rightarrow> Inl e
      | Inr _ \<Rightarrow>
          Inr (case map_of s pid of None \<Rightarrow> None | Some st \<Rightarrow> final_result st))"

text \<open>What \<open>wait_for_result\<close> does once its event has been set.\<close>

definition read_result :: "string \<Rightarrow> payments \<Rightarrow> payment_result result" where
  "read_result pid s =
     (case final_result (fst (state_for pid s)) of
        None \<Rightarrow> Inl (RuntimeError ''payment event was set without a result'')
      | Some r \<Rightarrow> Inr r)"

text \<open>
  The beginning of \<open>wait_for_result\<close>: \<open>Inl\<close> a result at once, or \<open>Inr\<close> whether the task,
  which now waits, has a timeout. Of the timeout in seconds only the sign matters.
\<close>

definition begin_wait ::
  "string \<Rightarrow> int option \<Rightarrow> payments \<Rightarrow> (payment_result result + bool) \<times> payments" where
  "begin_wait pid timeout s =
     (case validate_payment_id pid of
        Inl e \<Rightarrow> (Inl (Inl e), s)
      | Inr _ \<Rightarrow>
          if timeout \<noteq> None \<and> the timeout < 0
          then (Inl (Inl (ValueError ''timeout must not be negative'')), s)
          else case state_for pid s of
            (st, s') \<Rightarrow>
              if timeout = Some 0 then (Inl (Inl (TimeoutError '''')), s')
              else if event_set st then (Inl (read_result pid s'), s')
              else (Inr (timeout \<noteq> None), s'))"

subsection \<open>Tasks\<close>

datatype payment_call =
    Mark_succeeded string
  | Mark_failed string string
  | Result_for string

datatype payment_reply =
    Completed "bool result"
  | Known "payment_result option result"

datatype payment_event =
    Calls tid payment_call
  | Waits tid string "int option"
  | Resumes tid
  | Times_out tid
  | Cancels tid

record status =
  payments :: payments
  blocked :: "tid \<Rightarrow> (string \<times> bool) option"
  replies :: "(tid \<times> payment_call \<times> payment_reply) list"
  waited :: "(tid \<times> string \<times> payment_result result) list"

definition fresh_status :: status where
  "fresh_status =
     \<lparr>payments = init_payments, blocked = (\<lambda>_. None), replies = [], waited = []\<rparr>"

fun payment_call_of :: "payment_call \<Rightarrow> payments \<Rightarrow> payment_reply \<times> payments" where
  "payment_call_of (Mark_succeeded pid) s = apfst Completed (mark_succeeded pid s)"
| "payment_call_of (Mark_failed pid why) s = apfst Completed (mark_failed pid why s)"
| "payment_call_of (Result_for pid) s = (Known (result_for pid s), s)"

fun status_step :: "status \<Rightarrow> payment_event \<Rightarrow> status option" where
  "status_step m (Calls t x) =
     (if blocked m t \<noteq> None then None
      else case payment_call_of x (payments m) of
        (r, s) \<Rightarrow> Some (m\<lparr>payments := s, replies := replies m @ [(t, x, r)]\<rparr>))"
| "status_step m (Waits t pid timeout) =
     (if blocked m t \<noteq> None then None
      else case begin_wait pid timeout (payments m) of
        (Inl r, s) \<Rightarrow> Some (m\<lparr>payments := s, waited := waited m @ [(t, pid, r)]\<rparr>)
      | (Inr has_timeout, s) \<Rightarrow>
          Some (m\<lparr>payments := s, blocked := (blocked m)(t \<mapsto> (pid, has_timeout))\<rparr>))"
| "status_step m (Resumes t) =
     (case blocked m t of
        None \<Rightarrow> None
      | Some (pid, has_timeout) \<Rightarrow>
          if event_set (fst (state_for pid (payments m)))
          then Some (m\<lparr>blocked := (blocked m)(t := None),
                       waited := waited m @ [(t, pid, read_result pid (payments m))]\<rparr>)
          else None)"
| "status_step m (Times_out t) =
     (case blocked m t of
        None \<Rightarrow> None
      | Some (pid, has_timeout) \<Rightarrow>
          if has_timeout
          then Some (m\<lparr>blocked := (blocked m)(t := None),
                       waited := waited m @ [(t, pid, Inl (TimeoutError ''''))]\<rparr>)
          else None)"
| "status_step m (Cancels t) =
     (case blocked m t of
        None \<Rightarrow> None
      | Some (pid, has_timeout) \<Rightarrow>
          Some (m\<lparr>blocked := (blocked m)(t := None),
                  waited := waited m @ [(t, pid, Inl cancelled)]\<rparr>))"

subsection \<open>The final result of a payment\<close>

text \<open>The final result as the dictionary holds it.\<close>

definition final :: "payments \<Rightarrow> string \<Rightarrow> payment_result option" where
  "final s pid = (case map_of s pid of None \<Rightarrow> None | Some st \<Rightarrow> final_result st)"

definition consistent :: "payments \<Rightarrow> bool" where
  "consistent s \<longleftrightarrow>
     (\<forall>pid st. map_of s pid = Some st \<longrightarrow> (event_set st \<longleftrightarrow> final_result st \<noteq> None))"

lemma state_for_result [simp]: "final_result (fst (state_for pid s)) = final s pid"
  by (simp add: state_for_def final_def Let_def split: option.split)

lemma state_for_event:
  "consistent s \<Longrightarrow> event_set (fst (state_for pid s)) \<longleftrightarrow> final s pid \<noteq> None"
  by (auto simp: state_for_def final_def consistent_def Let_def split: option.split)

lemma state_for_keeps [simp]: "final (snd (state_for pid s)) p = final s p"
  by (auto simp: state_for_def final_def Let_def split: option.split)

lemma state_for_consistent [simp]: "consistent s \<Longrightarrow> consistent (snd (state_for pid s))"
  by (auto simp: state_for_def consistent_def Let_def split: option.split)

lemma read_result_eq:
  "read_result pid s =
     (case final s pid of
        None \<Rightarrow> Inl (RuntimeError ''payment event was set without a result'')
      | Some r \<Rightarrow> Inr r)"
  by (simp add: read_result_def)

lemma complete_eq:
  obtains st s' where "state_for (payment_id r) s = (st, s')" "final_result st = final s (payment_id r)"
    "\<And>p. final s' p = final s p" "consistent s \<Longrightarrow> consistent s'"
    "complete r s =
       (if final s (payment_id r) \<noteq> None then (False, s')
        else (True, AList.update (payment_id r) \<lparr>event_set = True, final_result = Some r\<rparr> s'))"
proof (cases "state_for (payment_id r) s")
  case (Pair st s')
  with that state_for_result[of "payment_id r" s] state_for_keeps[of "payment_id r" s]
    state_for_consistent[of s "payment_id r"]
  show ?thesis by (simp add: complete_def del: not_None_eq)
qed

lemma fst_complete [simp]: "fst (complete r s) \<longleftrightarrow> final s (payment_id r) = None"
  by (rule complete_eq[of r s]) simp

lemma final_update [simp]:
  "final (AList.update k st s) p = (if p = k then final_result st else final s p)"
  by (simp add: final_def)

lemma final_complete [simp]:
  "final (snd (complete r s)) pid =
     (if pid = payment_id r \<and> final s pid = None then Some r else final s pid)"
  by (rule complete_eq[of r s]) auto

lemma complete_consistent: "consistent s \<Longrightarrow> consistent (snd (complete r s))"
  by (rule complete_eq[of r s]) (auto simp: consistent_def)

subsection \<open>What the calls promise\<close>

text \<open>
  The abstract specification knows only the calls, in the order in which they happen: the
  result of a payment is the one that its first valid marking proposes, this marking is
  answered with \<open>True\<close> and every later one with \<open>False\<close>, and \<open>result_for\<close> reports the result
  from then on.
\<close>

fun proposed :: "payment_call \<Rightarrow> payment_result option" where
  "proposed (Mark_succeeded pid) =
     (if pid = '''' then None
      else Some \<lparr>payment_id = pid, payment_outcome = Succeeded, reason = None\<rparr>)"
| "proposed (Mark_failed pid why) =
     (if pid = '''' \<or> why = '''' then None
      else Some \<lparr>payment_id = pid, payment_outcome = Failed, reason = Some why\<rparr>)"
| "proposed (Result_for pid) = None"

definition first_result :: "payment_call list \<Rightarrow> string \<Rightarrow> payment_result option" where
  "first_result past pid = List.find (\<lambda>r. payment_id r = pid) (List.map_filter proposed past)"

fun promised :: "payment_call list \<Rightarrow> payment_call \<Rightarrow> payment_reply" where
  "promised past (Mark_succeeded pid) =
     Completed (if pid = '''' then Inl (ValueError ''payment_id must not be empty'')
                else Inr (first_result past pid = None))"
| "promised past (Mark_failed pid why) =
     Completed (if pid = '''' then Inl (ValueError ''payment_id must not be empty'')
                else if why = '''' then Inl (ValueError ''reason must not be empty'')
                else Inr (first_result past pid = None))"
| "promised past (Result_for pid) =
     Known (if pid = '''' then Inl (ValueError ''payment_id must not be empty'')
            else Inr (first_result past pid))"

fun promised_log ::
  "payment_call list \<Rightarrow> (tid \<times> payment_call) list \<Rightarrow> (tid \<times> payment_call \<times> payment_reply) list" where
  "promised_log past [] = []"
| "promised_log past ((t, x) # cs) = (t, x, promised past x) # promised_log (past @ [x]) cs"

fun call_in :: "payment_event \<Rightarrow> (tid \<times> payment_call) option" where
  "call_in (Calls t x) = Some (t, x)"
| "call_in _ = None"

definition calls_in :: "payment_event list \<Rightarrow> (tid \<times> payment_call) list" where
  "calls_in es = List.map_filter call_in es"

abbreviation result_after :: "payment_event list \<Rightarrow> string \<Rightarrow> payment_result option" where
  "result_after es \<equiv> first_result (map snd (calls_in es))"

lemma first_result_Nil [simp]: "first_result [] pid = None"
  by (simp add: first_result_def List.map_filter_def)

lemma find_append:
  "List.find P (xs @ ys) = (case List.find P xs of None \<Rightarrow> List.find P ys | Some x \<Rightarrow> Some x)"
  by (induction xs) auto

lemma first_result_snoc:
  "first_result (past @ [x]) pid =
     (case first_result past pid of
        Some r \<Rightarrow> Some r
      | None \<Rightarrow> (case proposed x of None \<Rightarrow> None | Some r \<Rightarrow> if payment_id r = pid then Some r else None))"
  by (simp add: first_result_def List.map_filter_def find_append split: option.splits)

lemma promised_log_snoc:
  "promised_log past (cs @ [(t, x)]) =
     promised_log past cs @ [(t, x, promised (past @ map snd cs) x)]"
  by (induction cs arbitrary: past) auto

lemma calls_in_snoc:
  "calls_in [] = []" "calls_in (es @ [e]) = calls_in es @ (case call_in e of None \<Rightarrow> [] | Some c \<Rightarrow> [c])"
  by (simp_all add: calls_in_def List.map_filter_def split: option.split)

text \<open>One call answers as promised and moves the dictionary on to the next promised result.\<close>

lemma call_as_promised:
  assumes "\<And>pid. final s pid = first_result past pid" and "consistent s"
    and "payment_call_of x s = (r, s')"
  shows "r = promised past x \<and> (\<forall>pid. final s' pid = first_result (past @ [x]) pid) \<and> consistent s'"
  using assms
  by (cases x)
    (auto simp: mark_succeeded_def mark_failed_def result_for_def validate_payment_id_def apfst_eq
      first_result_snoc complete_consistent final_def[symmetric] split: option.split if_splits)

fun wait_ok :: "payments \<Rightarrow> tid \<times> string \<times> payment_result result \<Rightarrow> bool" where
  "wait_ok s (_, pid, Inr r) = (final s pid = Some r)"
| "wait_ok s (_, _, Inl (RuntimeError _)) = False"
| "wait_ok s (_, _, Inl _) = True"

lemma wait_ok_mono:
  assumes "\<And>p q. final s p = Some q \<Longrightarrow> final s' p = Some q" and "list_all (wait_ok s) l"
  shows "list_all (wait_ok s') l"
proof -
  have "wait_ok s w \<Longrightarrow> wait_ok s' w" for w
    using assms(1) by (cases "(s, w)" rule: wait_ok.cases) auto
  with assms(2) show ?thesis by (auto simp: list_all_iff)
qed

lemma wait_ok_cong: "(\<And>p. final s p = final s' p) \<Longrightarrow> wait_ok s = wait_ok s'"
proof
  fix w
  assume "\<And>p. final s p = final s' p"
  then show "wait_ok s w = wait_ok s' w" by (cases "(s, w)" rule: wait_ok.cases) auto
qed

lemma wait_ok_entry:
  "list_all (wait_ok s) l \<Longrightarrow> (t, pid, w) \<in> set l \<Longrightarrow>
   (\<forall>r. w = Inr r \<longrightarrow> final s pid = Some r) \<and> (\<forall>why. w \<noteq> Inl (RuntimeError why))"
  by (force simp: list_all_iff)

definition status_from :: "status \<Rightarrow> payment_event list \<Rightarrow> status \<Rightarrow> bool" where
  "status_from m0 es m \<longleftrightarrow>
     consistent (payments m) \<and> replies m = promised_log [] (calls_in es) \<and>
     (\<forall>pid. final (payments m) pid = result_after es pid) \<and>
     list_all (wait_ok (payments m)) (waited m)"

lemma status_from_start: "m0 = fresh_status \<Longrightarrow> status_from m0 [] m0"
  by (simp add: status_from_def fresh_status_def init_payments_def consistent_def final_def calls_in_snoc)

lemma status_from_call:
  assumes ok: "status_from m0 es m" and step: "status_step m (Calls t x) = Some m'"
  shows "status_from m0 (es @ [Calls t x]) m'"
proof -
  obtain r s where call: "payment_call_of x (payments m) = (r, s)" by fastforce
  with step have m': "m' = m\<lparr>payments := s, replies := replies m @ [(t, x, r)]\<rparr>"
    by (auto split: if_splits)
  have "final (payments m) pid = result_after es pid" for pid
    using ok by (simp add: status_from_def)
  from call_as_promised[OF this _ call] ok
  have as: "r = promised (map snd (calls_in es)) x"
    "\<And>pid. final s pid = first_result (map snd (calls_in es) @ [x]) pid" "consistent s"
    by (auto simp: status_from_def)
  have "list_all (wait_ok s) (waited m)"
  proof (rule wait_ok_mono)
    show "list_all (wait_ok (payments m)) (waited m)" using ok by (simp add: status_from_def)
    show "final s p = Some q" if "final (payments m) p = Some q" for p q
      using that ok as(2)[of p] by (simp add: status_from_def first_result_snoc)
  qed
  with as ok m' show ?thesis
    by (simp add: status_from_def calls_in_snoc promised_log_snoc)
qed

lemma begin_wait_cases:
  assumes con: "consistent s" and b: "begin_wait pid timeout s = (out, s')"
  shows "consistent s' \<and> (\<forall>p. final s' p = final s p) \<and>
         (\<forall>w. out = Inl w \<longrightarrow> wait_ok s (t, pid, w))"
proof -
  obtain st s1 where st: "state_for pid s = (st, s1)" by fastforce
  with state_for_event[OF con, of pid] state_for_keeps[of pid s] state_for_consistent[OF con, of pid]
  have "event_set st = (final s pid \<noteq> None)" "\<And>p. final s1 p = final s p" "consistent s1" by auto
  with b st con show ?thesis
    by (cases timeout) (auto simp: begin_wait_def validate_payment_id_def read_result_eq split: if_splits)
qed

lemma resumes_with_result:
  assumes "status_from m0 es m" and "blocked m t = Some (pid, b)" and "result_after es pid = Some r"
  shows "status_step m (Resumes t) =
           Some (m\<lparr>blocked := (blocked m)(t := None), waited := waited m @ [(t, pid, Inr r)]\<rparr>)"
  using assms by (simp add: status_from_def state_for_event read_result_eq)

lemma status_from_step:
  assumes ok: "status_from m0 es m" and step: "status_step m e = Some m'"
  shows "status_from m0 (es @ [e]) m'"
proof (cases e)
  case (Calls t x)
  with assms status_from_call show ?thesis by blast
next
  case (Waits t pid timeout)
  obtain out s' where b: "begin_wait pid timeout (payments m) = (out, s')" by fastforce
  from ok have "consistent (payments m)" by (simp add: status_from_def)
  from begin_wait_cases[OF this b] have "wait_ok s' = wait_ok (payments m)"
    by (intro wait_ok_cong) auto
  with begin_wait_cases[OF \<open>consistent _\<close> b, of t] ok step Waits b show ?thesis
    by (auto simp: status_from_def calls_in_snoc split: if_splits sum.splits)
next
  case (Resumes t)
  from ok have con: "consistent (payments m)" by (simp add: status_from_def)
  from step Resumes obtain pid b where t: "blocked m t = Some (pid, b)"
    and "event_set (fst (state_for pid (payments m)))"
    by (auto split: option.splits if_splits)
  from this(2) ok obtain r where r: "result_after es pid = Some r"
    using state_for_event[OF con] by (auto simp: status_from_def)
  from resumes_with_result[OF ok t r] step Resumes ok r show ?thesis
    by (auto simp: status_from_def calls_in_snoc)
next
  case (Times_out t)
  with ok step show ?thesis by (auto simp: status_from_def calls_in_snoc split: if_splits option.splits)
next
  case (Cancels t)
  with ok step show ?thesis by (auto simp: status_from_def calls_in_snoc cancelled_def split: option.splits)
qed

interpretation results: traced_machine status_step "\<lambda>m. m = fresh_status" status_from
  by unfold_locales (auto intro: status_from_start status_from_step simp del: status_step.simps)

subsection \<open>Properties\<close>

text \<open>
  C17. The first result wins and every reader gets it: under every interleaving, the calls are
  answered as their order promises: for each payment, the first valid marking is answered with
  \<open>True\<close> and fixes the result, every later one is answered with \<open>False\<close> and changes nothing,
  and \<open>result_for\<close> reports the result of the first one from then on; a wait that returns
  returns that result, and never raises the \<open>RuntimeError\<close>; and a task that still waits for a
  payment that has its result can resume with it.
\<close>

theorem first_result_wins:
  assumes "runs status_step fresh_status schedule = Some m"
  shows "replies m = promised_log [] (calls_in schedule) \<and>
         (\<forall>(t, pid, w) \<in> set (waited m).
            (\<forall>r. w = Inr r \<longrightarrow> result_after schedule pid = Some r) \<and>
            (\<forall>why. w \<noteq> Inl (RuntimeError why))) \<and>
         (\<forall>t pid b r. blocked m t = Some (pid, b) \<and> result_after schedule pid = Some r \<longrightarrow>
            status_step m (Resumes t) =
              Some (m\<lparr>blocked := (blocked m)(t := None), waited := waited m @ [(t, pid, Inr r)]\<rparr>))"
proof -
  from results.every_run[OF refl assms] have ok: "status_from fresh_status schedule m" .
  have "(\<forall>r. w = Inr r \<longrightarrow> result_after schedule pid = Some r) \<and> (\<forall>why. w \<noteq> Inl (RuntimeError why))"
    if "(t, pid, w) \<in> set (waited m)" for t pid w
    using that ok wait_ok_entry[of "payments m" "waited m"] by (fastforce simp: status_from_def)
  moreover have "replies m = promised_log [] (calls_in schedule)" using ok by (simp add: status_from_def)
  moreover note resumes_with_result[OF ok]
  ultimately show ?thesis by blast
qed

text \<open>
  A wait with timeout zero raises \<open>TimeoutError\<close> for every payment, one with a result
  included.
\<close>

lemma zero_timeout_never_returns:
  assumes "pid \<noteq> ''''"
  shows "fst (begin_wait pid (Some 0) s) = Inl (Inl (TimeoutError ''''))"
  using assms by (simp add: begin_wait_def validate_payment_id_def split: prod.split)

definition payment_schedule :: "payment_event list" where
  "payment_schedule =
     [Waits 0 ''p1'' None, Waits 1 ''p1'' (Some 5), Calls 2 (Mark_failed ''p1'' ''declined''),
      Calls 3 (Mark_succeeded ''p1''), Resumes 1, Waits 4 ''p1'' (Some 0)]"

definition payment_end :: status where
  "payment_end = the (runs status_step fresh_status payment_schedule)"

definition declined :: payment_result where
  "declined = \<lparr>payment_id = ''p1'', payment_outcome = Failed, reason = Some ''declined''\<rparr>"

lemma payment_end_run:
  "runs status_step fresh_status payment_schedule = Some payment_end"
  "waited payment_end = [(1, ''p1'', Inr declined), (4, ''p1'', Inl (TimeoutError ''''))]"
  "blocked payment_end 0 = Some (''p1'', False)"
  by (simp_all add: payment_end_def payment_schedule_def fresh_status_def init_payments_def
      begin_wait_def validate_payment_id_def state_for_def Let_def mark_failed_def mark_succeeded_def
      complete_def read_result_def declined_def)

theorem first_result_wins_witness:
  "replies payment_end =
     [(2, Mark_failed ''p1'' ''declined'', Completed (Inr True)),
      (3, Mark_succeeded ''p1'', Completed (Inr False))] \<and>
   status_step payment_end (Resumes 0) \<noteq> None"
proof -
  have log: "promised_log [] (calls_in payment_schedule) =
     [(2, Mark_failed ''p1'' ''declined'', Completed (Inr True)),
      (3, Mark_succeeded ''p1'', Completed (Inr False))]"
    and res: "result_after payment_schedule ''p1'' = Some declined"
    by (simp_all add: payment_schedule_def calls_in_def List.map_filter_def first_result_def declined_def)
  from first_result_wins[OF payment_end_run(1)] payment_end_run(3) res
  have "status_step payment_end (Resumes 0) \<noteq> None" by blast
  with first_result_wins[OF payment_end_run(1)] log show ?thesis by simp
qed

lemma zero_timeout_never_returns_witness:
  "fst (begin_wait ''p1'' (Some 0) (payments payment_end)) = Inl (Inl (TimeoutError ''''))"
  by (rule zero_timeout_never_returns) simp

end
