(* ===== verification/Cleanup.thy ===== *)
theory Cleanup
  imports Prelude
begin

section \<open>scheduledcleanup: one background worker that can be stopped\<close>

text \<open>
  Models \<^verbatim>\<open>scheduledcleanup/cleanup.py\<close>: callers of \<open>start\<close>, \<open>stop\<close>, \<open>is_running\<close> and
  \<open>errors\<close>, and the loop of the worker thread. The worker waits on the stop event with the
  interval as its timeout, so a wait that timed out just before the event was set still runs
  the cleanup once: \<open>Elapsed\<close> is the moment between. The cleanup is a callable of the caller
  and its outcome is chosen by the schedule; \<open>except Exception\<close> records its exceptions and
  lets a \<open>BaseException\<close> end the thread. Three exceptional calls belong to the model too: the
  operating system may refuse the thread (\<open>Unstarted\<close>), the cleanup may call \<open>stop\<close> on its
  own worker, which \<open>Thread.join\<close> answers with an exception, and a caller that joins the
  worker may be interrupted.
\<close>

subsection \<open>State and steps\<close>

datatype worker =
    No_thread
  | Unstarted
  | Waiting
  | Elapsed
  | Cleaning
  | Dead

datatype cleanup_reply =
    Started "unit result"
  | Stopped "bool result"
  | Running bool
  | Errors "exn list"

text \<open>
  \<open>outcomes\<close> and \<open>inner_stops\<close> are history variables: what each cleanup that ended has
  returned, and the answers that the cleanups got when they called \<open>stop\<close> themselves.
\<close>

record cleanup =
  started :: bool
  stop_requested :: bool
  worker :: worker
  cleanup_errors :: "exn list"
  joining :: "tid \<Rightarrow> bool option"
  cleanup_log :: "(tid \<times> cleanup_reply) list"
  outcomes :: "unit result list"
  inner_stops :: "bool result list"

definition init_cleanup :: "int \<Rightarrow> cleanup result" where
  "init_cleanup interval =
     (if interval \<le> 0 then Inl (ValueError ''interval must be greater than zero'')
      else Inr \<lparr>started = False, stop_requested = False, worker = No_thread,
                cleanup_errors = [], joining = (\<lambda>_. None), cleanup_log = [], outcomes = [],
                inner_stops = []\<rparr>)"

definition is_alive :: "worker \<Rightarrow> bool" where
  "is_alive w \<longleftrightarrow> w \<noteq> No_thread \<and> w \<noteq> Unstarted \<and> w \<noteq> Dead"

text \<open>\<open>start\<close>; \<open>refused\<close> says that \<open>Thread.start\<close> raises since no thread can be created.\<close>

definition start :: "bool \<Rightarrow> cleanup \<Rightarrow> unit result \<times> cleanup" where
  "start refused s =
     (if started s then (Inl (RuntimeError ''cleanup worker has already been started''), s)
      else let s' = s\<lparr>started := True, stop_requested := False\<rparr> in
        if refused then (Inl (RuntimeError ''can't start new thread''), s'\<lparr>worker := Unstarted\<rparr>)
        else (Inr (), s'\<lparr>worker := Waiting\<rparr>))"

text \<open>\<open>stop\<close> up to the join: \<open>None\<close> when it goes on to join the worker.\<close>

definition stop_begin :: "cleanup \<Rightarrow> bool result option \<times> cleanup" where
  "stop_begin s =
     (if worker s = No_thread then (Some (Inr True), s)
      else (if worker s = Unstarted
            then Some (Inl (RuntimeError ''cannot join thread before it is started'')) else None,
            s\<lparr>stop_requested := True\<rparr>))"

text \<open>\<open>stop\<close> called by the cleanup itself, in the worker thread.\<close>

definition stop_inside :: "cleanup \<Rightarrow> bool result \<times> cleanup" where
  "stop_inside s =
     (Inl (RuntimeError ''cannot join current thread''), s\<lparr>stop_requested := True\<rparr>)"

definition is_running :: "cleanup \<Rightarrow> bool" where
  "is_running s \<longleftrightarrow> worker s \<noteq> No_thread \<and> is_alive (worker s)"

text \<open>
  One turn of the worker's loop is the sequence of these steps; while a cleanup runs it may
  call \<open>stop\<close> any number of times.
\<close>

datatype worker_event =
    Interval_over
  | Stop_seen
  | Begin_cleanup
  | Calls_stop
  | Cleanup_over "unit result"

definition worker_step :: "cleanup \<Rightarrow> worker_event \<Rightarrow> cleanup option" where
  "worker_step s e =
     (case (worker s, e) of
        (Waiting, Interval_over) \<Rightarrow>
          if stop_requested s then None else Some (s\<lparr>worker := Elapsed\<rparr>)
      | (Waiting, Stop_seen) \<Rightarrow>
          if stop_requested s then Some (s\<lparr>worker := Dead\<rparr>) else None
      | (Elapsed, Begin_cleanup) \<Rightarrow> Some (s\<lparr>worker := Cleaning\<rparr>)
      | (Cleaning, Calls_stop) \<Rightarrow>
          (case stop_inside s of (r, s') \<Rightarrow> Some (s'\<lparr>inner_stops := inner_stops s @ [r]\<rparr>))
      | (Cleaning, Cleanup_over r) \<Rightarrow>
          (case r of
             Inr _ \<Rightarrow> Some (s\<lparr>worker := Waiting, outcomes := outcomes s @ [r]\<rparr>)
           | Inl e \<Rightarrow>
               if is_exception e
               then Some (s\<lparr>worker := Waiting, cleanup_errors := cleanup_errors s @ [e],
                            outcomes := outcomes s @ [r]\<rparr>)
               else Some (s\<lparr>worker := Dead, outcomes := outcomes s @ [r]\<rparr>))
      | _ \<Rightarrow> None)"

datatype cleanup_event =
    Start tid bool
  | Stop tid bool
  | Joined tid
  | Join_expired tid
  | Join_interrupted tid
  | Ask_running tid
  | Ask_errors tid
  | Worker worker_event

abbreviation cleanup_says :: "cleanup \<Rightarrow> tid \<Rightarrow> cleanup_reply \<Rightarrow> cleanup" where
  "cleanup_says s t r \<equiv> s\<lparr>cleanup_log := cleanup_log s @ [(t, r)]\<rparr>"

fun cleanup_step :: "cleanup \<Rightarrow> cleanup_event \<Rightarrow> cleanup option" where
  "cleanup_step s (Start t refused) =
     (if joining s t \<noteq> None then None
      else case start refused s of (r, s') \<Rightarrow> Some (cleanup_says s' t (Started r)))"
| "cleanup_step s (Stop t has_timeout) =
     (if joining s t \<noteq> None then None
      else case stop_begin s of
        (Some b, s') \<Rightarrow> Some (cleanup_says s' t (Stopped b))
      | (None, s') \<Rightarrow> Some (s'\<lparr>joining := (joining s')(t \<mapsto> has_timeout)\<rparr>))"
| "cleanup_step s (Joined t) =
     (if joining s t = None \<or> is_alive (worker s) then None
      else Some (cleanup_says (s\<lparr>joining := (joining s)(t := None)\<rparr>) t (Stopped (Inr True))))"
| "cleanup_step s (Join_expired t) =
     (if joining s t \<noteq> Some True then None
      else Some (cleanup_says (s\<lparr>joining := (joining s)(t := None)\<rparr>) t
                   (Stopped (Inr (\<not> is_alive (worker s))))))"
| "cleanup_step s (Join_interrupted t) =
     (if joining s t = None then None
      else Some (cleanup_says (s\<lparr>joining := (joining s)(t := None)\<rparr>) t (Stopped (Inl interrupt))))"
| "cleanup_step s (Ask_running t) =
     (if joining s t \<noteq> None then None else Some (cleanup_says s t (Running (is_running s))))"
| "cleanup_step s (Ask_errors t) =
     (if joining s t \<noteq> None then None
      else Some (cleanup_says s t (Errors (cleanup_errors s))))"
| "cleanup_step s (Worker e) = worker_step s e"

subsection \<open>Invariant\<close>

fun recorded_error :: "unit result \<Rightarrow> exn list" where
  "recorded_error (Inr u) = []"
| "recorded_error (Inl e) = (if is_exception e then [e] else [])"

fun start_ok :: "tid \<times> cleanup_reply \<Rightarrow> bool" where
  "start_ok (_, Started (Inr _)) = True"
| "start_ok _ = False"

definition starts :: "cleanup \<Rightarrow> nat" where
  "starts s = length (filter start_ok (cleanup_log s))"

definition cleanup_ok :: "cleanup \<Rightarrow> bool" where
  "cleanup_ok s \<longleftrightarrow>
     (started s \<longleftrightarrow> worker s \<noteq> No_thread) \<and> (stop_requested s \<longrightarrow> started s) \<and>
     starts s = (if started s \<and> worker s \<noteq> Unstarted then 1 else 0) \<and>
     cleanup_errors s = concat (map recorded_error (outcomes s))"

text \<open>What a step of the worker changes.\<close>

lemma worker_step_cases:
  assumes "worker_step s e = Some s'"
  obtains (Elapses) "worker s = Waiting" "s' = s\<lparr>worker := Elapsed\<rparr>" "e = Interval_over" "\<not> stop_requested s"
  | (Ends) "worker s = Waiting" "s' = s\<lparr>worker := Dead\<rparr>" "e = Stop_seen" "stop_requested s"
  | (Begins) "worker s = Elapsed" "s' = s\<lparr>worker := Cleaning\<rparr>" "e = Begin_cleanup"
  | (Stops) "worker s = Cleaning" "e = Calls_stop"
      "s' = s\<lparr>stop_requested := True, inner_stops := inner_stops s @ [fst (stop_inside s)]\<rparr>"
  | (Over) r where "worker s = Cleaning" "e = Cleanup_over r"
      "s' = s\<lparr>worker := (if r = Inr () \<or> is_exception (projl r) then Waiting else Dead),
              cleanup_errors := cleanup_errors s @ recorded_error r, outcomes := outcomes s @ [r]\<rparr>"
proof (cases e)
  case (Cleanup_over r)
  with assms show thesis
    by (intro Over[of r]) (auto simp: worker_step_def split: worker.splits sum.splits if_splits)
qed (use assms that in \<open>auto simp: worker_step_def stop_inside_def split: worker.splits if_splits\<close>)

lemma worker_ok_step: "cleanup_ok s \<Longrightarrow> worker_step s e = Some s' \<Longrightarrow> cleanup_ok s'"
  by (erule worker_step_cases) (auto simp: cleanup_ok_def starts_def)

lemma start_keeps_ok:
  "cleanup_ok s \<Longrightarrow> start refused s = (r, s') \<Longrightarrow> cleanup_ok (cleanup_says s' t (Started r))"
  by (auto simp: cleanup_ok_def starts_def start_def Let_def split: if_splits)

lemma stop_keeps_ok: "cleanup_ok s \<Longrightarrow> stop_begin s = (r, s') \<Longrightarrow> cleanup_ok s'"
  by (auto simp: cleanup_ok_def starts_def stop_begin_def split: if_splits)

lemma says_keeps_ok:
  "cleanup_ok s \<Longrightarrow> \<not> start_ok (t, r) \<Longrightarrow> cleanup_ok (cleanup_says s t r)"
  "cleanup_ok s \<Longrightarrow> \<not> start_ok (t, r) \<Longrightarrow> 
     cleanup_ok (s\<lparr>joining := j, cleanup_log := cleanup_log s @ [(t, r)]\<rparr>)"
  "cleanup_ok s \<Longrightarrow> cleanup_ok (s\<lparr>joining := j\<rparr>)"
  by (auto simp: cleanup_ok_def starts_def)

lemma cleanup_ok_step:
  "cleanup_ok s \<Longrightarrow> cleanup_step s e = Some s' \<Longrightarrow> cleanup_ok s'"
proof (cases e)
  case (Start t refused)
  assume "cleanup_ok s" "cleanup_step s e = Some s'"
  with Start show ?thesis by (auto intro: start_keeps_ok split: if_splits prod.splits)
next
  case (Stop t b)
  assume "cleanup_ok s" "cleanup_step s e = Some s'"
  with Stop show ?thesis
    by (auto simp: says_keeps_ok dest: stop_keeps_ok split: if_splits prod.splits option.splits)
qed (auto simp: says_keeps_ok intro: worker_ok_step split: if_splits)

lemma cleanup_ok_start: "init_cleanup interval = Inr s \<Longrightarrow> cleanup_ok s"
  by (auto simp: init_cleanup_def cleanup_ok_def starts_def split: if_splits)

interpretation cleaner: invariant_machine cleanup_step "\<lambda>s. \<exists>i. init_cleanup i = Inr s" cleanup_ok
  by unfold_locales (auto intro: cleanup_ok_start cleanup_ok_step simp del: cleanup_step.simps)

subsection \<open>After a stop request\<close>

definition cleanups_begun :: "cleanup_event list \<Rightarrow> nat" where
  "cleanups_begun es = length (filter (\<lambda>e. e = Worker Begin_cleanup) es)"

definition still_to_begin :: "worker \<Rightarrow> nat" where
  "still_to_begin w = (if w = Elapsed then 1 else 0)"

lemma stop_move_step:
  assumes "cleanup_ok s" and "stop_requested s" and "cleanup_step s e = Some s'"
  shows "stop_requested s' \<and>
         cleanups_begun [e] + still_to_begin (worker s') \<le> still_to_begin (worker s)"
proof (cases "\<exists>w. e = Worker w")
  case True
  with assms(3) obtain w where w: "worker_step s w = Some s'" "e = Worker w" by auto
  from w(1) show ?thesis
    by (rule worker_step_cases) (use assms w in \<open>auto simp: cleanups_begun_def still_to_begin_def\<close>)
next
  case False
  with assms show ?thesis
    by (cases e) (auto simp: cleanup_ok_def start_def stop_begin_def cleanups_begun_def
        split: if_splits)
qed

lemma stopping_runs:
  "cleanup_ok s \<Longrightarrow> stop_requested s \<Longrightarrow> runs cleanup_step s es = Some s' \<Longrightarrow>
   cleanups_begun es + still_to_begin (worker s') \<le> still_to_begin (worker s)"
proof (induction es arbitrary: s)
  case Nil
  then show ?case by (simp add: cleanups_begun_def)
next
  case (Cons e es)
  then obtain s1 where s1: "cleanup_step s e = Some s1" "runs cleanup_step s1 es = Some s'"
    by (auto split: option.splits)
  have "cleanups_begun (e # es) = cleanups_begun [e] + cleanups_begun es"
    by (simp add: cleanups_begun_def)
  with stop_move_step[OF Cons.prems(1,2) s1(1)] Cons.IH[OF _ _ s1(2)]
    cleanup_ok_step[OF Cons.prems(1) s1(1)]
  show ?case by linarith
qed

text \<open>The steps that a worker still takes after a stop request, if the cleanup ends with \<open>r\<close>.\<close>

definition finish :: "unit result \<Rightarrow> worker_event list" where
  "finish r =
     (if (case r of Inr u \<Rightarrow> True | Inl e \<Rightarrow> is_exception e) then [Cleanup_over r, Stop_seen]
      else [Cleanup_over r])"

fun to_the_end :: "worker \<Rightarrow> unit result \<Rightarrow> worker_event list" where
  "to_the_end Waiting r = [Stop_seen]"
| "to_the_end Elapsed r = Begin_cleanup # finish r"
| "to_the_end Cleaning r = finish r"
| "to_the_end _ r = []"

lemma worker_ends:
  "stop_requested s \<Longrightarrow>
   \<exists>s'. runs cleanup_step s (map Worker (to_the_end (worker s) r)) = Some s' \<and> \<not> is_alive (worker s')"
  by (cases "worker s"; cases r) (auto simp: worker_step_def finish_def is_alive_def)

subsection \<open>Properties\<close>

text \<open>
  C21. Under every interleaving of callers and worker, at most one worker is ever started, and the
  reported errors are exactly the exceptions that the cleanups raised, in order; exceptions
  that are not an \<open>Exception\<close> are not reported. A second \<open>start\<close> is refused, also after a
  first one whose thread could not be created; \<open>stop\<close> then raises.
\<close>

theorem one_worker_reports_errors:
  assumes "init_cleanup interval = Inr s0" and "runs cleanup_step s0 schedule = Some s"
  shows "length (filter start_ok (cleanup_log s)) \<le> 1 \<and>
         cleanup_errors s = concat (map recorded_error (outcomes s)) \<and>
         (started s \<longrightarrow>
            start refused s = (Inl (RuntimeError ''cleanup worker has already been started''), s)) \<and>
         (worker s = Unstarted \<longrightarrow> started s \<and> \<not> is_running s \<and>
            (\<exists>e. fst (stop_begin s) = Some (Inl e) \<and> is_exception e))"
proof -
  from assms(1) have "\<exists>i. init_cleanup i = Inr s0" by blast
  from cleaner.invariant[OF this assms(2)] show ?thesis
    by (simp add: cleanup_ok_def starts_def start_def stop_begin_def is_running_def is_alive_def)
qed

text \<open>
  C36. A stop request is prompt and final: after it at most one more cleanup begins, whatever the
  schedule; at every later moment the worker ends within three of its own steps, however the
  cleanup under way ends; and once it has ended, \<open>stop\<close> returns true and no cleanup begins. It
  makes no difference whether the request comes from another thread or, while the cleanup
  runs, from the cleanup itself.
\<close>

theorem stop_is_final:
  assumes "init_cleanup interval = Inr s0" and "runs cleanup_step s0 before = Some s1"
    and "stop_requested s1" and "runs cleanup_step s1 after = Some s"
  shows "cleanups_begun after \<le> 1 \<and>
         (\<exists>s'. runs cleanup_step s (map Worker (to_the_end (worker s) r)) = Some s' \<and> \<not> is_alive (worker s')) \<and>
         length (to_the_end (worker s) r) \<le> 3 \<and>
         (worker s1 = Dead \<longrightarrow> cleanups_begun after = 0) \<and>
         (worker s = Dead \<and> joining s t \<noteq> None \<longrightarrow>
            cleanup_step s (Joined t) =
              Some (cleanup_says (s\<lparr>joining := (joining s)(t := None)\<rparr>) t (Stopped (Inr True))))"
proof -
  from assms(1) have init: "\<exists>i. init_cleanup i = Inr s0" by blast
  from cleaner.invariant[OF this assms(2)] have ok: "cleanup_ok s1" .
  have "runs cleanup_step s0 (before @ after) = Some s" using assms by (simp add: runs_append)
  from cleaner.invariant[OF init this] have ok': "cleanup_ok s" .
  have stop: "stop_requested s" using assms(4,3) ok
    by (induction after arbitrary: s1) (auto split: option.splits dest: stop_move_step cleanup_ok_step simp del: cleanup_step.simps)
  note ends = worker_ends[OF stop, of r]
  have "length (to_the_end w r) \<le> 3" for w by (cases w) (auto simp: finish_def)
  moreover have "still_to_begin (worker s1) \<le> 1" by (simp add: still_to_begin_def)
  moreover have "worker s1 = Dead \<longrightarrow> still_to_begin (worker s1) = 0" by (simp add: still_to_begin_def)
  ultimately show ?thesis using stopping_runs[OF ok assms(3,4)] ends
    by (auto simp: is_alive_def)
qed

definition idle_cleanup :: cleanup where
  "idle_cleanup =
     \<lparr>started = False, stop_requested = False, worker = No_thread, cleanup_errors = [],
      joining = (\<lambda>_. None), cleanup_log = [], outcomes = [], inner_stops = []\<rparr>"

definition before_stop :: "cleanup_event list" where
  "before_stop =
     [Start 0 False, Start 1 False, Worker Interval_over, Worker Begin_cleanup,
      Worker (Cleanup_over (Inl (UserError ''disk''))), Worker Interval_over,
      Worker Begin_cleanup, Worker Calls_stop, Stop 0 False]"

definition after_stop :: "cleanup_event list" where
  "after_stop =
     [Worker (Cleanup_over (Inr ())), Worker Stop_seen, Joined 0]"

definition at_stop :: cleanup where
  "at_stop = the (runs cleanup_step idle_cleanup before_stop)"

definition cleaned_up :: cleanup where
  "cleaned_up = the (runs cleanup_step at_stop after_stop)"

lemma cleanup_run:
  "init_cleanup 60 = Inr idle_cleanup"
  "runs cleanup_step idle_cleanup before_stop = Some at_stop" "stop_requested at_stop"
  "runs cleanup_step at_stop after_stop = Some cleaned_up"
  "cleanup_errors at_stop = [UserError ''disk'']" "started at_stop"
  by (simp_all add: init_cleanup_def idle_cleanup_def before_stop_def after_stop_def at_stop_def
      cleaned_up_def start_def stop_begin_def stop_inside_def worker_step_def is_alive_def)

theorem one_worker_reports_errors_witness:
  "cleanup_errors at_stop = concat (map recorded_error (outcomes at_stop)) \<and>
   cleanup_errors at_stop = [UserError ''disk''] \<and>
   fst (start False at_stop) = Inl (RuntimeError ''cleanup worker has already been started'')"
  using one_worker_reports_errors[OF cleanup_run(1,2), of False] cleanup_run(5,6) by simp

theorem stop_is_final_witness:
  "cleanups_begun after_stop \<le> 1 \<and> cleanups_begun after_stop = 0"
  by (rule conjI[OF conjunct1[OF stop_is_final[OF cleanup_run(1-4)]]])
    (simp add: cleanups_begun_def after_stop_def)

end
