(* ===== verification/Gate.thy ===== *)
theory Gate
  imports Prelude
begin

section \<open>barrierdeployment: workers released together\<close>

text \<open>
  Models \<^verbatim>\<open>barrierdeployment/deployment.py\<close> over the standard library's
  \<open>threading.Barrier\<close>. A barrier has a state (filling, draining, resetting, broken) and the
  number of threads inside; a caller waits while the barrier drains or resets, joins it, and
  blocks until the state is no longer filling. The critical sections of the barrier are the
  steps; every change of the state notifies all callers, so a caller can go on exactly when
  the state lets it. \<open>company\<close> is a history variable: the callers that have joined since the
  barrier began to fill.
\<close>

subsection \<open>State\<close>

datatype barrier_state =
    Filling
  | Draining
  | Resetting
  | Broken

datatype worker_phase =
    Away
  | At_door bool
  | Inside nat bool

record gate =
  parties :: nat
  state :: barrier_state
  inside :: nat
  phases :: "tid \<Rightarrow> worker_phase"
  company :: "tid list"
  gate_log :: "(tid \<times> nat result \<times> tid list) list"

definition init_gate :: "int \<Rightarrow> gate result" where
  "init_gate required_workers =
     (if required_workers < 2 then Inl (ValueError ''required_workers must be at least two'')
      else Inr \<lparr>parties = nat required_workers, state = Filling, inside = 0,
                phases = (\<lambda>_. Away), company = [], gate_log = []\<rparr>)"

subsection \<open>The barrier's critical sections\<close>

definition returns :: "tid \<Rightarrow> nat result \<Rightarrow> gate \<Rightarrow> gate" where
  "returns t r g =
     g\<lparr>phases := (phases g)(t := Away), gate_log := gate_log g @ [(t, r, company g)]\<rparr>"

text \<open>The \<^verbatim>\<open>finally\<close> clause of \<open>wait\<close>: one thread fewer, and the last one lets it fill again.\<close>

definition exit_barrier :: "gate \<Rightarrow> gate" where
  "exit_barrier g =
     (if inside g = 1 \<and> (state g = Draining \<or> state g = Resetting)
      then g\<lparr>inside := inside g - 1, state := Filling, company := []\<rparr>
      else g\<lparr>inside := inside g - 1\<rparr>)"

definition join_barrier :: "tid \<Rightarrow> bool \<Rightarrow> gate \<Rightarrow> gate" where
  "join_barrier t has_timeout g =
     (let index = inside g; g' = g\<lparr>inside := index + 1, company := company g @ [t]\<rparr>
      in if index + 1 = parties g
         then exit_barrier (returns t (Inr index) (g'\<lparr>state := Draining\<rparr>))
         else g'\<lparr>phases := (phases g')(t := Inside index has_timeout)\<rparr>)"

definition enter_barrier :: "tid \<Rightarrow> bool \<Rightarrow> gate \<Rightarrow> gate" where
  "enter_barrier t has_timeout g =
     (if state g = Draining \<or> state g = Resetting
      then g\<lparr>phases := (phases g)(t := At_door has_timeout)\<rparr>
      else if state g = Broken then returns t (Inl BrokenBarrierError) g
      else join_barrier t has_timeout g)"

definition reset_gate :: "gate \<Rightarrow> gate" where
  "reset_gate g =
     (if 0 < inside g
      then (if state g = Filling \<or> state g = Broken then g\<lparr>state := Resetting\<rparr> else g)
      else g\<lparr>state := Filling, company := []\<rparr>)"

definition is_broken :: "gate \<Rightarrow> bool" where
  "is_broken g \<longleftrightarrow> state g = Broken"

datatype gate_event =
    Wait_until_ready tid string bool
  | Enter_again tid
  | Pass tid
  | Timeout tid
  | Reset

text \<open>
  \<open>wait_until_ready\<close>, from its call (\<open>Wait_until_ready\<close>) over the waits inside the barrier:
  at the door, until its timeout (which does not count at the door), and inside. A wait that
  times out while the barrier fills breaks it.
\<close>

definition gate_step :: "gate \<Rightarrow> gate_event \<Rightarrow> gate option" where
  "gate_step g e =
     (case e of
        Wait_until_ready t step_name has_timeout \<Rightarrow>
          if phases g t \<noteq> Away then None
          else if step_name = '''' then
            Some (returns t (Inl (ValueError ''step_name must not be empty'')) g)
          else Some (enter_barrier t has_timeout g)
      | Enter_again t \<Rightarrow>
          (case phases g t of
             At_door has_timeout \<Rightarrow> Some (enter_barrier t has_timeout g)
           | _ \<Rightarrow> None)
      | Pass t \<Rightarrow>
          (case phases g t of
             Inside index has_timeout \<Rightarrow>
               if state g = Filling then None
               else if state g = Draining then Some (exit_barrier (returns t (Inr index) g))
               else Some (exit_barrier (returns t (Inl BrokenBarrierError) g))
           | _ \<Rightarrow> None)
      | Timeout t \<Rightarrow>
          (case phases g t of
             Inside index True \<Rightarrow>
               if state g = Filling
               then Some (exit_barrier (returns t (Inl BrokenBarrierError) (g\<lparr>state := Broken\<rparr>)))
               else None
           | _ \<Rightarrow> None)
      | Reset \<Rightarrow> Some (reset_gate g))"

subsection \<open>Invariant\<close>

definition inside_set :: "gate \<Rightarrow> tid set" where
  "inside_set g = {t. \<exists>i b. phases g t = Inside i b}"

fun full_company :: "nat \<Rightarrow> tid \<times> nat result \<times> tid list \<Rightarrow> bool" where
  "full_company n (t, Inr i, c) \<longleftrightarrow> length c = n \<and> distinct c \<and> i < n \<and> c ! i = t"
| "full_company n _ = True"

text \<open>A caller inside stands at its index in the company.\<close>

fun placed :: "tid list \<Rightarrow> worker_phase \<Rightarrow> tid \<Rightarrow> bool" where
  "placed c (Inside i b) t = (i < length c \<and> c ! i = t)"
| "placed c _ t = True"

lemma placed_append: "placed c w t \<Longrightarrow> placed (c @ d) w t"
  by (cases w) (auto simp: nth_append)

definition gate_ok :: "gate \<Rightarrow> bool" where
  "gate_ok g \<longleftrightarrow>
     finite (inside_set g) \<and> card (inside_set g) = inside g \<and> distinct (company g) \<and>
     (\<forall>t. placed (company g) (phases g t) t) \<and>
     list_all (full_company (parties g)) (gate_log g) \<and> 2 \<le> parties g \<and>
     (case state g of
        Filling \<Rightarrow> length (company g) = inside g \<and> inside g < parties g \<and>
                   set (company g) = inside_set g
      | Draining \<Rightarrow> length (company g) = parties g \<and> 0 < inside g
      | Resetting \<Rightarrow> 0 < inside g
      | Broken \<Rightarrow> True)"

lemma inside_set_update:
  "phases g' = (phases g)(t := w) \<Longrightarrow>
   inside_set g' = (case w of Inside i b \<Rightarrow> insert t (inside_set g) | _ \<Rightarrow> inside_set g - {t})"
  by (auto simp: inside_set_def split: worker_phase.split)

lemma gate_ok_leave:
  assumes ok: "gate_ok g" and t: "phases g t = Inside i b" and nf: "state g \<noteq> Filling"
    and full: "full_company (parties g) (t, r, company g)"
  shows "gate_ok (exit_barrier (returns t r g))"
proof -
  let ?g = "returns t r g"
  from t have tin: "t \<in> inside_set g" by (auto simp: inside_set_def)
  have set: "inside_set ?g = inside_set g - {t}"
    by (subst inside_set_update[of ?g g t Away]) (auto simp: returns_def)
  have fin: "finite (inside_set g)" and card: "card (inside_set g) = inside g"
    using ok by (simp_all add: gate_ok_def)
  with tin have pos: "0 < inside g" using card_gt_0_iff by (metis empty_iff)
  have card': "card (inside_set ?g) = inside g - 1" using set tin fin card by simp
  have same: "inside_set (exit_barrier ?g) = inside_set ?g"
    by (simp add: exit_barrier_def inside_set_def)
  show ?thesis
  proof (cases "inside g = 1 \<and> (state g = Draining \<or> state g = Resetting)")
    case True
    with card' fin set have empty: "inside_set ?g = {}" by (simp add: card_eq_0_iff)
    then have none: "placed [] (phases ?g u) u" for u
      by (cases "phases ?g u") (auto simp: inside_set_def)
    from True have "exit_barrier ?g = ?g\<lparr>inside := 0, state := Filling, company := []\<rparr>"
      by (simp add: exit_barrier_def returns_def)
    with empty none same ok full True show ?thesis
      by (simp add: gate_ok_def returns_def)
  next
    case False
    then have "exit_barrier ?g = ?g\<lparr>inside := inside g - 1\<rparr>"
      by (auto simp: exit_barrier_def returns_def)
    moreover have "finite (inside_set ?g)" using set fin by simp
    ultimately show ?thesis using ok full False nf card' same pos
      by (cases "state g") (auto simp: gate_ok_def returns_def)
  qed
qed

lemma gate_ok_join:
  assumes ok: "gate_ok g" and t: "t \<notin> inside_set g" and fill: "state g = Filling"
  shows "gate_ok (join_barrier t b g)"
proof -
  let ?in = "g\<lparr>inside := inside g + 1, company := company g @ [t],
             phases := (phases g)(t := Inside (inside g) b)\<rparr>"
  from ok fill have len: "length (company g) = inside g" "set (company g) = inside_set g"
    "inside g < parties g" by (simp_all add: gate_ok_def)
  have set: "inside_set ?in = insert t (inside_set g)"
    by (subst inside_set_update[of ?in g t "Inside (inside g) b"]) auto
  have place: "placed (company ?in) (phases ?in u) u" for u
    using ok len by (auto simp: gate_ok_def placed_append nth_append)
  have base: "finite (inside_set ?in) \<and> card (inside_set ?in) = inside ?in \<and> distinct (company ?in)"
    using ok t len set by (auto simp: gate_ok_def)
  show ?thesis
  proof (cases "inside g + 1 = parties g")
    case True
    have "gate_ok (?in\<lparr>state := Draining\<rparr>)"
      using base place ok True len by (auto simp: gate_ok_def inside_set_def)
    moreover have "full_company (parties g) (t, Inr (inside g), company ?in)"
      using base len True by (simp add: nth_append)
    ultimately have "gate_ok (exit_barrier (returns t (Inr (inside g)) (?in\<lparr>state := Draining\<rparr>)))"
      by (intro gate_ok_leave[where i = "inside g" and b = b]) simp_all
    then show ?thesis using True by (simp add: join_barrier_def returns_def Let_def)
  next
    case False
    have "gate_ok ?in" using base place ok False len set fill by (auto simp: gate_ok_def)
    with False show ?thesis by (simp add: join_barrier_def Let_def)
  qed
qed

lemma gate_ok_return:
  assumes "gate_ok g" and "t \<notin> inside_set g"
  shows "gate_ok (returns t (Inl e) g)"
proof -
  have "inside_set (returns t (Inl e) g) = inside_set g"
    using assms(2) by (subst inside_set_update[of _ g t Away]) (auto simp: returns_def)
  with assms show ?thesis by (auto simp: gate_ok_def returns_def split: barrier_state.split)
qed

lemma gate_ok_enter:
  assumes "gate_ok g" and "t \<notin> inside_set g"
  shows "gate_ok (enter_barrier t b g)"
proof -
  let ?g = "g\<lparr>phases := (phases g)(t := At_door b)\<rparr>"
  have "inside_set ?g = inside_set g"
    using assms(2) by (subst inside_set_update[of _ g t "At_door b"]) auto
  with assms have "gate_ok ?g" by (auto simp: gate_ok_def split: barrier_state.split)
  then show ?thesis using assms gate_ok_join gate_ok_return
    by (cases "state g") (auto simp: enter_barrier_def)
qed

lemma inside_set_other [simp]:
  "inside_set (g\<lparr>state := x\<rparr>) = inside_set g" "inside_set (g\<lparr>company := c\<rparr>) = inside_set g"
  by (simp_all add: inside_set_def)

lemma gate_ok_empty: "gate_ok g \<Longrightarrow> inside g = 0 \<Longrightarrow> inside_set g = {} \<and> placed [] (phases g t) t"
  by (cases "phases g t") (auto simp: gate_ok_def inside_set_def)

lemma gate_ok_reset: "gate_ok g \<Longrightarrow> gate_ok (reset_gate g)"
proof (cases "inside g = 0")
  case True
  assume ok: "gate_ok g"
  from gate_ok_empty[OF ok True] ok True show ?thesis by (simp add: gate_ok_def reset_gate_def)
next
  case False
  assume "gate_ok g"
  with False show ?thesis by (cases "state g") (simp_all add: gate_ok_def reset_gate_def)
qed

lemma gate_ok_step:
  assumes ok: "gate_ok g" and step: "gate_step g e = Some g'"
  shows "gate_ok g'"
proof (cases e)
  case (Wait_until_ready t n b)
  with step have "t \<notin> inside_set g" by (auto simp: gate_step_def inside_set_def split: if_splits)
  with ok step Wait_until_ready gate_ok_enter gate_ok_return show ?thesis
    by (auto simp: gate_step_def split: if_splits)
next
  case (Enter_again t)
  with step have "t \<notin> inside_set g"
    by (auto simp: gate_step_def inside_set_def split: worker_phase.splits)
  with ok step Enter_again gate_ok_enter show ?thesis
    by (auto simp: gate_step_def split: worker_phase.splits)
next
  case (Pass t)
  with step obtain i b where t: "phases g t = Inside i b" and "state g \<noteq> Filling"
    by (auto simp: gate_step_def split: worker_phase.splits if_splits)
  moreover have "full_company (parties g) (t, Inr i, company g)" if "state g = Draining"
    proof -
    from ok have "placed (company g) (phases g t) t" by (simp add: gate_ok_def)
    with ok t that show ?thesis by (simp add: gate_ok_def)
  qed
  ultimately show ?thesis using gate_ok_leave[OF ok t] step Pass
    by (auto simp: gate_step_def split: if_splits)
next
  case (Timeout t)
  with step obtain i where t: "phases g t = Inside i True"
    and g': "g' = exit_barrier (returns t (Inl BrokenBarrierError) (g\<lparr>state := Broken\<rparr>))"
    by (auto simp: gate_step_def split: worker_phase.splits bool.splits if_splits)
  from ok have "gate_ok (g\<lparr>state := Broken\<rparr>)" by (auto simp: gate_ok_def inside_set_def)
  with t g' show ?thesis by (auto intro!: gate_ok_leave)
next
  case Reset
  with ok step gate_ok_reset show ?thesis by (auto simp: gate_step_def)
qed

lemma gate_ok_start: "init_gate n = Inr g \<Longrightarrow> gate_ok g"
  by (auto simp: init_gate_def gate_ok_def inside_set_def split: if_splits)

interpretation gate: invariant_machine gate_step "\<lambda>g. \<exists>n. init_gate n = Inr g" gate_ok
  by unfold_locales (auto intro: gate_ok_start gate_ok_step)

lemma parties_fixed:
  "gate_step g e = Some g' \<Longrightarrow> parties g' = parties g"
  by (cases e) (auto simp: gate_step_def enter_barrier_def join_barrier_def exit_barrier_def
      returns_def reset_gate_def Let_def split: if_splits worker_phase.splits bool.splits)

lemma parties_runs: "runs gate_step g es = Some g' \<Longrightarrow> parties g' = parties g"
  by (induction es arbitrary: g) (auto split: option.splits dest: parties_fixed)

subsection \<open>Properties\<close>

text \<open>
  C13. Nobody passes the gate early: under every interleaving with timeouts and resets, each
  call that returned normally was released together with a full company of
  \<open>required_workers\<close> different workers, all of whom had arrived, and the index it returned is
  its own place, so no two of them return the same index.
\<close>

theorem gate_opens_for_all:
  assumes "init_gate required_workers = Inr g0" and "runs gate_step g0 schedule = Some g"
    and "(t, Inr i, c) \<in> set (gate_log g)"
  shows "int (length c) = required_workers \<and> distinct c \<and> i < length c \<and> c ! i = t"
proof -
  from gate.invariant[OF exI, OF assms(1,2)] have "list_all (full_company (parties g)) (gate_log g)"
    by (simp add: gate_ok_def)
  with assms(3) have "full_company (parties g) (t, Inr i, c)" by (auto simp: list_all_iff)
  moreover from assms(1) parties_runs[OF assms(2)] have "int (parties g) = required_workers"
    by (auto simp: init_gate_def split: if_splits)
  ultimately show ?thesis by auto
qed

text \<open>
  A worker inside is never stranded: when the gate opens it can return its index; when the
  gate is broken or reset it can return with \<open>BrokenBarrierError\<close>; and while the gate still
  fills, somebody is missing.
\<close>

lemma gate_releases_or_fails:
  assumes "init_gate required_workers = Inr g0" and "runs gate_step g0 schedule = Some g"
    and "phases g t = Inside i b"
  shows "(state g = Draining \<longrightarrow>
            gate_step g (Pass t) = Some (exit_barrier (returns t (Inr i) g))) \<and>
         (state g = Broken \<or> state g = Resetting \<longrightarrow>
            gate_step g (Pass t) = Some (exit_barrier (returns t (Inl BrokenBarrierError) g))) \<and>
         (state g = Filling \<longrightarrow> int (card (inside_set g)) < required_workers)"
proof -
  from gate.invariant[OF exI, OF assms(1,2)] have ok: "gate_ok g" .
  from assms(1) parties_runs[OF assms(2)] have "int (parties g) = required_workers"
    by (auto simp: init_gate_def split: if_splits)
  with ok assms(3) show ?thesis by (auto simp: gate_step_def gate_ok_def)
qed

text \<open>
  A reset never leaves the gate broken: whatever the gate was before, \<open>is_broken\<close> is false
  right after \<open>reset\<close>, also while the workers that the reset turned away are still inside.
\<close>

lemma reset_is_not_broken:
  assumes "init_gate required_workers = Inr g0" and "runs gate_step g0 schedule = Some g"
    and "gate_step g Reset = Some g'"
  shows "\<not> is_broken g' \<and> (0 < inside g \<and> state g \<noteq> Draining \<longrightarrow> state g' = Resetting) \<and>
         (inside g = 0 \<longrightarrow> state g' = Filling)"
  using assms(3) gate.invariant[OF exI, OF assms(1,2)]
  by (cases "state g") (auto simp: gate_step_def reset_gate_def is_broken_def gate_ok_def split: if_splits)

definition two_workers :: gate where
  "two_workers =
     \<lparr>parties = 2, state = Filling, inside = 0, phases = (\<lambda>_. Away), company = [], gate_log = []\<rparr>"

definition gate_schedule :: "gate_event list" where
  "gate_schedule =
     [Wait_until_ready 0 ''load'' True, Timeout 0, Reset, Wait_until_ready 1 ''load'' False,
      Wait_until_ready 0 ''load'' True]"

definition gate_end :: gate where
  "gate_end = the (runs gate_step two_workers gate_schedule)"

lemmas gate_eval =
  gate_step_def enter_barrier_def join_barrier_def exit_barrier_def returns_def reset_gate_def
  Let_def two_workers_def

lemma gate_end_run:
  "init_gate 2 = Inr two_workers" "runs gate_step two_workers gate_schedule = Some gate_end"
  "(0, Inr 1, [1, 0]) \<in> set (gate_log gate_end)" "phases gate_end 1 = Inside 0 False"
  "state gate_end = Draining"
  by (simp_all add: init_gate_def gate_end_def gate_schedule_def gate_eval numeral_2_eq_2)

theorem gate_opens_for_all_witness:
  "int (length [1 :: tid, 0]) = 2 \<and> distinct [1 :: tid, 0] \<and> 1 < length [1 :: tid, 0] \<and> [1 :: tid, 0] ! 1 = 0"
  by (rule gate_opens_for_all[OF gate_end_run(1-3)])

lemma gate_releases_or_fails_witness:
  "gate_step gate_end (Pass 1) = Some (exit_barrier (returns 1 (Inr 0) gate_end))"
  using gate_releases_or_fails[OF gate_end_run(1,2,4)] gate_end_run(5) by blast

lemma reset_is_not_broken_witness:
  "\<not> is_broken (reset_gate gate_end)"
  using reset_is_not_broken[OF gate_end_run(1,2)] by (auto simp: gate_step_def)

end
