(* ===== verification/Py_Queue.thy ===== *)
theory Py_Queue
  imports Prelude
begin

section \<open>The standard library's queues\<close>

text \<open>
  \<open>queue.Queue\<close>, \<open>LifoQueue\<close> and \<open>PriorityQueue\<close> as the package uses them: a list of items,
  a bound (zero for none), the count of unfinished tasks and the shutdown flag. They differ
  in how an item is stored and which one is taken, so these two functions are the parameters
  \<open>push\<close> and \<open>pop\<close>. The operations below are the critical sections; \<open>None\<close> means that the
  caller blocks.
\<close>

subsection \<open>Disciplines\<close>

definition fifo_push :: "'a \<Rightarrow> 'a list \<Rightarrow> 'a list" where
  "fifo_push x xs = xs @ [x]"

fun fifo_pop :: "'a list \<Rightarrow> 'a \<times> 'a list" where
  "fifo_pop xs = (hd xs, tl xs)"

definition lifo_push :: "'a \<Rightarrow> 'a list \<Rightarrow> 'a list" where
  "lifo_push x xs = xs @ [x]"

definition lifo_pop :: "'a list \<Rightarrow> 'a \<times> 'a list" where
  "lifo_pop xs = (last xs, butlast xs)"

text \<open>
  The heap keeps its items so that one with the least key is taken; a list sorted by the key
  does the same. For equal keys the order would be left open here, as it is by the heap.
\<close>

definition heap_push :: "('a \<Rightarrow> 'k :: linorder) \<Rightarrow> 'a \<Rightarrow> 'a list \<Rightarrow> 'a list" where
  "heap_push key x xs = insort_key key x xs"

definition heap_pop :: "'a list \<Rightarrow> 'a \<times> 'a list" where
  "heap_pop xs = (hd xs, tl xs)"

text \<open>Taking items, at most so many, until none is left.\<close>

fun drain_items :: "('a list \<Rightarrow> 'a \<times> 'a list) \<Rightarrow> nat \<Rightarrow> 'a list \<Rightarrow> 'a list" where
  "drain_items pop 0 xs = []"
| "drain_items pop (Suc n) xs =
     (if xs = [] then [] else fst (pop xs) # drain_items pop n (snd (pop xs)))"

text \<open>The interface that all three share: nothing is lost and nothing is made up.\<close>

locale discipline =
  fixes push :: "'a \<Rightarrow> 'a list \<Rightarrow> 'a list"
    and pop :: "'a list \<Rightarrow> 'a \<times> 'a list"
  assumes mset_push: "mset (push x xs) = add_mset x (mset xs)"
    and mset_pop: "xs \<noteq> [] \<Longrightarrow> add_mset (fst (pop xs)) (mset (snd (pop xs))) = mset xs"
begin

lemma length_push [simp]: "length (push x xs) = Suc (length xs)"
  using mset_push[of x xs] by (metis size_add_mset size_mset)

lemma length_pop: "xs \<noteq> [] \<Longrightarrow> Suc (length (snd (pop xs))) = length xs"
  using mset_pop[of xs] by (metis size_add_mset size_mset)

text \<open>Taking items until the queue is empty takes each item once.\<close>

lemma mset_drain: "length xs \<le> n \<Longrightarrow> mset (drain_items pop n xs) = mset xs"
proof (induction n arbitrary: xs)
  case (Suc n)
  show ?case
  proof (cases "xs = []")
    case False
    with Suc.prems length_pop[of xs] have "mset (drain_items pop n (snd (pop xs))) = mset (snd (pop xs))"
      by (intro Suc.IH) simp
    with False mset_pop[of xs] show ?thesis by simp
  qed simp
qed simp

end

interpretation fifo: discipline fifo_push fifo_pop
  by unfold_locales (auto simp: fifo_push_def neq_Nil_conv)

interpretation lifo: discipline lifo_push lifo_pop
proof unfold_locales
  show "xs \<noteq> [] \<Longrightarrow> add_mset (fst (lifo_pop xs)) (mset (snd (lifo_pop xs))) = mset xs" for xs :: "'a list"
    by (cases xs rule: rev_cases) (simp_all add: lifo_pop_def)
qed (simp add: lifo_push_def)

interpretation heap: discipline "heap_push key" heap_pop for key :: "'a \<Rightarrow> 'k :: linorder"
  by unfold_locales (auto simp: heap_push_def heap_pop_def neq_Nil_conv)

lemma fifo_drain: "length xs \<le> n \<Longrightarrow> drain_items fifo_pop n xs = xs"
  by (induction n arbitrary: xs) (auto simp: neq_Nil_conv)

lemma lifo_drain: "length xs \<le> n \<Longrightarrow> drain_items lifo_pop n xs = rev xs"
proof (induction n arbitrary: xs)
  case (Suc n)
  then show ?case by (cases xs rule: rev_cases) (simp_all add: lifo_pop_def)
qed simp

lemma heap_drain: "length xs \<le> n \<Longrightarrow> drain_items heap_pop n xs = xs"
  by (induction n arbitrary: xs) (auto simp: heap_pop_def neq_Nil_conv)

subsection \<open>Critical sections\<close>

record 'a pyq =
  items :: "'a list"
  maxsize :: nat
  unfinished :: nat
  shut :: bool

definition empty_queue :: "nat \<Rightarrow> 'a pyq" where
  "empty_queue n = \<lparr>items = [], maxsize = n, unfinished = 0, shut = False\<rparr>"

definition full :: "'a pyq \<Rightarrow> bool" where
  "full q \<longleftrightarrow> 0 < maxsize q \<and> maxsize q \<le> length (items q)"

definition put_now :: "('a \<Rightarrow> 'a list \<Rightarrow> 'a list) \<Rightarrow> 'a \<Rightarrow> 'a pyq \<Rightarrow> (unit result \<times> 'a pyq) option" where
  "put_now push x q =
     (if shut q then Some (Inl QueueShutDown, q)
      else if full q then None
      else Some (Inr (), q\<lparr>items := push x (items q), unfinished := unfinished q + 1\<rparr>))"

definition get_now :: "('a list \<Rightarrow> 'a \<times> 'a list) \<Rightarrow> 'a pyq \<Rightarrow> ('a result \<times> 'a pyq) option" where
  "get_now pop q =
     (if items q = [] then (if shut q then Some (Inl QueueShutDown, q) else None)
      else case pop (items q) of (x, rest) \<Rightarrow> Some (Inr x, q\<lparr>items := rest\<rparr>))"

definition put_nowait :: "('a \<Rightarrow> 'a list \<Rightarrow> 'a list) \<Rightarrow> 'a \<Rightarrow> 'a pyq \<Rightarrow> unit result \<times> 'a pyq" where
  "put_nowait push x q = (case put_now push x q of None \<Rightarrow> (Inl QueueFull, q) | Some r \<Rightarrow> r)"

definition get_nowait :: "('a list \<Rightarrow> 'a \<times> 'a list) \<Rightarrow> 'a pyq \<Rightarrow> 'a result \<times> 'a pyq" where
  "get_nowait pop q = (case get_now pop q of None \<Rightarrow> (Inl QueueEmpty, q) | Some r \<Rightarrow> r)"

definition negative_timeout :: exn where
  "negative_timeout = ValueError (CHR 0x27 # ''timeout'' @ CHR 0x27 # '' must be a non-negative number'')"

text \<open>
  The beginning of a call with a timeout. Only the sign of the timeout matters here; a
  negative one is refused after the shutdown test, and by \<open>put\<close> only if there is a bound.
\<close>

definition put_begin ::
  "('a \<Rightarrow> 'a list \<Rightarrow> 'a list) \<Rightarrow> 'a \<Rightarrow> int option \<Rightarrow> 'a pyq \<Rightarrow> (unit result \<times> 'a pyq) option" where
  "put_begin push x timeout q =
     (if \<not> shut q \<and> 0 < maxsize q \<and> timeout \<noteq> None \<and> the timeout < 0
      then Some (Inl negative_timeout, q) else put_now push x q)"

definition get_begin ::
  "('a list \<Rightarrow> 'a \<times> 'a list) \<Rightarrow> int option \<Rightarrow> 'a pyq \<Rightarrow> ('a result \<times> 'a pyq) option" where
  "get_begin pop timeout q =
     (if \<not> (shut q \<and> items q = []) \<and> timeout \<noteq> None \<and> the timeout < 0
      then Some (Inl negative_timeout, q) else get_now pop q)"

definition queue_task_done :: "'a pyq \<Rightarrow> unit result \<times> 'a pyq" where
  "queue_task_done q =
     (if unfinished q = 0 then (Inl (ValueError ''task_done() called too many times''), q)
      else (Inr (), q\<lparr>unfinished := unfinished q - 1\<rparr>))"

definition queue_shutdown :: "bool \<Rightarrow> 'a pyq \<Rightarrow> 'a pyq" where
  "queue_shutdown immediate q =
     (if immediate
      then q\<lparr>shut := True, items := [], unfinished := unfinished q - length (items q)\<rparr>
      else q\<lparr>shut := True\<rparr>)"

lemmas queue_ops =
  put_now_def get_now_def put_nowait_def get_nowait_def put_begin_def get_begin_def
  queue_task_done_def queue_shutdown_def full_def

end
