(* ===== verification/Bounded_Queue.thy ===== *)
theory Bounded_Queue
  imports Py_Queue
begin

section \<open>boundedqueue: hand-over between producers and consumers\<close>

text \<open>
  Models \<^verbatim>\<open>boundedqueue/workqueue.py\<close>: a \<open>queue.Queue\<close> with a positive bound. Producers
  block while it is full, consumers while it is empty, \<open>join\<close> while tasks are unfinished; a
  shutdown refuses new items, and an immediate one also discards what is pending. A signal may
  interrupt a caller that blocks.
\<close>

datatype 'a blocked =
    Putting 'a bool
  | Getting bool
  | Joining

datatype 'a queue_reply =
    Put_item 'a "unit result"
  | Got_item "'a result"
  | Task_marked "unit result"
  | Join_returned
  | Join_raised exn

text \<open>
  \<open>discarded\<close> is a history variable: the items that immediate shutdowns have thrown away.
\<close>

record 'a bounded_queue =
  queue :: "'a pyq"
  blocked_on :: "tid \<Rightarrow> 'a blocked option"
  queue_log :: "(tid \<times> 'a queue_reply) list"
  discarded :: "'a list"

definition init_bounded :: "int \<Rightarrow> 'a bounded_queue result" where
  "init_bounded capacity =
     (if capacity \<le> 0 then Inl (ValueError ''capacity must be greater than zero'')
      else Inr \<lparr>queue = empty_queue (nat capacity), blocked_on = (\<lambda>_. None), queue_log = [],
                discarded = []\<rparr>)"

definition pending_items :: "'a bounded_queue \<Rightarrow> nat" where
  "pending_items b = length (items (queue b))"

datatype 'a queue_event =
    Put tid 'a "int option"
  | Put_resumes tid
  | Put_expires tid
  | Get tid "int option"
  | Get_resumes tid
  | Get_expires tid
  | Task_done tid
  | Join tid
  | Join_resumes tid
  | Interrupted tid
  | Shutdown bool

definition answer :: "tid \<Rightarrow> 'a queue_reply \<Rightarrow> 'a pyq \<Rightarrow> 'a bounded_queue \<Rightarrow> 'a bounded_queue" where
  "answer t r q b =
     b\<lparr>queue := q, blocked_on := (blocked_on b)(t := None), queue_log := queue_log b @ [(t, r)]\<rparr>"

definition block_on :: "tid \<Rightarrow> 'a blocked \<Rightarrow> 'a bounded_queue \<Rightarrow> 'a bounded_queue" where
  "block_on t w b = b\<lparr>blocked_on := (blocked_on b)(t \<mapsto> w)\<rparr>"

fun interrupted_call :: "'a blocked \<Rightarrow> 'a queue_reply" where
  "interrupted_call (Putting x has_timeout) = Put_item x (Inl interrupt)"
| "interrupted_call (Getting has_timeout) = Got_item (Inl interrupt)"
| "interrupted_call Joining = Join_raised interrupt"

fun bounded_step :: "'a bounded_queue \<Rightarrow> 'a queue_event \<Rightarrow> 'a bounded_queue option" where
  "bounded_step b (Put t x timeout) =
     (if blocked_on b t \<noteq> None then None
      else case put_begin fifo_push x timeout (queue b) of
        Some (r, q) \<Rightarrow> Some (answer t (Put_item x r) q b)
      | None \<Rightarrow> Some (block_on t (Putting x (timeout \<noteq> None)) b))"
| "bounded_step b (Put_resumes t) =
     (case blocked_on b t of
        Some (Putting x has_timeout) \<Rightarrow>
          map_option (\<lambda>(r, q). answer t (Put_item x r) q b) (put_now fifo_push x (queue b))
      | _ \<Rightarrow> None)"
| "bounded_step b (Put_expires t) =
     (case blocked_on b t of
        Some (Putting x True) \<Rightarrow>
          if put_now fifo_push x (queue b) = None
          then Some (answer t (Put_item x (Inl QueueFull)) (queue b) b) else None
      | _ \<Rightarrow> None)"
| "bounded_step b (Get t timeout) =
     (if blocked_on b t \<noteq> None then None
      else case get_begin fifo_pop timeout (queue b) of
        Some (r, q) \<Rightarrow> Some (answer t (Got_item r) q b)
      | None \<Rightarrow> Some (block_on t (Getting (timeout \<noteq> None)) b))"
| "bounded_step b (Get_resumes t) =
     (case blocked_on b t of
        Some (Getting has_timeout) \<Rightarrow>
          map_option (\<lambda>(r, q). answer t (Got_item r) q b) (get_now fifo_pop (queue b))
      | _ \<Rightarrow> None)"
| "bounded_step b (Get_expires t) =
     (case blocked_on b t of
        Some (Getting True) \<Rightarrow>
          if get_now fifo_pop (queue b) = None
          then Some (answer t (Got_item (Inl QueueEmpty)) (queue b) b) else None
      | _ \<Rightarrow> None)"
| "bounded_step b (Task_done t) =
     (if blocked_on b t \<noteq> None then None
      else case queue_task_done (queue b) of
        (r, q) \<Rightarrow> Some (answer t (Task_marked r) q b))"
| "bounded_step b (Join t) =
     (if blocked_on b t \<noteq> None then None
      else if unfinished (queue b) = 0 then Some (answer t Join_returned (queue b) b)
      else Some (block_on t Joining b))"
| "bounded_step b (Join_resumes t) =
     (if blocked_on b t = Some Joining \<and> unfinished (queue b) = 0
      then Some (answer t Join_returned (queue b) b) else None)"
| "bounded_step b (Interrupted t) =
     (case blocked_on b t of
        Some w \<Rightarrow> Some (answer t (interrupted_call w) (queue b) b)
      | None \<Rightarrow> None)"
| "bounded_step b (Shutdown immediate) =
     Some (b\<lparr>queue := queue_shutdown immediate (queue b),
             discarded := discarded b @ (if immediate then items (queue b) else [])\<rparr>)"

subsection \<open>What went in and what came out\<close>

fun put_of :: "tid \<times> 'a queue_reply \<Rightarrow> 'a list" where
  "put_of (_, Put_item x (Inr _)) = [x]"
| "put_of _ = []"

fun got_of :: "tid \<times> 'a queue_reply \<Rightarrow> 'a list" where
  "got_of (_, Got_item (Inr x)) = [x]"
| "got_of _ = []"

fun marked_of :: "tid \<times> 'a queue_reply \<Rightarrow> nat" where
  "marked_of (_, Task_marked (Inr _)) = 1"
| "marked_of _ = 0"

definition accepted :: "'a bounded_queue \<Rightarrow> 'a list" where
  "accepted b = concat (map put_of (queue_log b))"

definition delivered :: "'a bounded_queue \<Rightarrow> 'a list" where
  "delivered b = concat (map got_of (queue_log b))"

definition tasks_marked :: "'a bounded_queue \<Rightarrow> nat" where
  "tasks_marked b = sum_list (map marked_of (queue_log b))"

definition queue_ok :: "nat \<Rightarrow> 'a bounded_queue \<Rightarrow> bool" where
  "queue_ok n b \<longleftrightarrow>
     maxsize (queue b) = n \<and> 0 < n \<and> length (items (queue b)) \<le> n \<and>
     accepted b = delivered b @ discarded b @ items (queue b) \<and>
     (discarded b \<noteq> [] \<longrightarrow> shut (queue b) \<and> items (queue b) = []) \<and>
     unfinished (queue b) = length (accepted b) - tasks_marked b - length (discarded b) \<and>
     tasks_marked b \<le> length (accepted b)"

lemma answer_simps [simp]:
  "queue (answer t r q b) = q" "discarded (answer t r q b) = discarded b"
  "accepted (answer t r q b) = accepted b @ put_of (t, r)"
  "delivered (answer t r q b) = delivered b @ got_of (t, r)"
  "tasks_marked (answer t r q b) = tasks_marked b + marked_of (t, r)"
  by (simp_all add: answer_def accepted_def delivered_def tasks_marked_def)

lemma block_simps [simp]:
  "queue (block_on t w b) = queue b" "discarded (block_on t w b) = discarded b"
  "accepted (block_on t w b) = accepted b" "delivered (block_on t w b) = delivered b"
  "tasks_marked (block_on t w b) = tasks_marked b"
  by (simp_all add: block_on_def accepted_def delivered_def tasks_marked_def)

lemma queue_ok_same: "queue_ok n b \<Longrightarrow> put_of (t, r) = [] \<Longrightarrow> got_of (t, r) = [] \<Longrightarrow>
  marked_of (t, r) = 0 \<Longrightarrow> queue_ok n (answer t r (queue b) b)"
  by (auto simp: queue_ok_def)

lemma queue_ok_put:
  assumes "queue_ok n b" and "put_now fifo_push x (queue b) = Some (r, q)"
  shows "queue_ok n (answer t (Put_item x r) q b)"
  using assms by (auto simp: queue_ok_def put_now_def full_def fifo_push_def split: if_splits)

lemma queue_ok_get:
  assumes "queue_ok n b" and "get_now fifo_pop (queue b) = Some (r, q)"
  shows "queue_ok n (answer t (Got_item r) q b)"
  using assms by (cases "items (queue b)") (auto simp: queue_ok_def get_now_def split: if_splits)

lemma queue_ok_step:
  assumes ok: "queue_ok n b" and step: "bounded_step b e = Some b'"
  shows "queue_ok n b'"
proof (cases e)
  case (Put t x timeout)
  with assms show ?thesis
    by (auto simp: put_begin_def intro: queue_ok_put split: if_splits option.splits)
      (auto simp: queue_ok_def)
next
  case (Get t timeout)
  with assms show ?thesis
    by (auto simp: get_begin_def intro: queue_ok_get split: if_splits option.splits)
      (auto simp: queue_ok_def)
next
  case (Task_done t)
  with assms show ?thesis by (auto simp: queue_ok_def queue_task_done_def split: if_splits)
next
  case (Shutdown immediate)
  with assms show ?thesis
    by (auto simp: queue_ok_def queue_shutdown_def accepted_def delivered_def tasks_marked_def)
next
  case (Interrupted t)
  with step obtain w where "b' = answer t (interrupted_call w) (queue b) b" by (auto split: option.splits)
  then show ?thesis by (cases w) (auto intro: queue_ok_same[OF ok])
next
  case (Put_resumes t)
  with assms show ?thesis by (auto intro: queue_ok_put split: option.splits blocked.splits)
next
  case (Get_resumes t)
  with assms show ?thesis by (auto intro: queue_ok_get split: option.splits blocked.splits)
qed (use assms in \<open>auto intro!: queue_ok_same simp: queue_ok_def split: option.splits blocked.splits bool.splits if_splits\<close>)

lemma queue_ok_start: "init_bounded capacity = Inr b \<Longrightarrow> queue_ok (nat capacity) b"
  by (auto simp: init_bounded_def queue_ok_def empty_queue_def accepted_def delivered_def
      tasks_marked_def split: if_splits)

interpretation bounded: invariant_machine bounded_step "\<lambda>b. init_bounded capacity = Inr b"
  "queue_ok (nat capacity)" for capacity
  by unfold_locales (auto intro: queue_ok_start queue_ok_step simp del: bounded_step.simps)

subsection \<open>Properties\<close>

text \<open>
  C22. Under every interleaving of producers, consumers, timeouts, interrupts and shutdowns, the queue never
  holds more than \<open>capacity\<close> items, and items come out in the order in which they went in,
  each once: the accepted items are the delivered ones, then those that an immediate
  shutdown discarded, then those still pending.
\<close>

theorem bounded_queue_is_fifo:
  assumes "init_bounded capacity = Inr b0" and "runs bounded_step b0 schedule = Some b"
  shows "int (pending_items b) \<le> capacity \<and>
         accepted b = delivered b @ discarded b @ items (queue b) \<and>
         (\<not> shut (queue b) \<longrightarrow> discarded b = [])"
proof -
  from assms(1) have "0 < capacity" by (auto simp: init_bounded_def split: if_splits)
  with bounded.invariant[OF assms] show ?thesis
    by (auto simp: queue_ok_def pending_items_def)
qed

text \<open>
  \<open>join\<close> returns only when every accepted item has been marked as processed or discarded, and
  \<open>task_done\<close> raises as soon as there is nothing left to mark.
\<close>

lemma join_waits_for_tasks:
  assumes "init_bounded capacity = Inr b0" and "runs bounded_step b0 schedule = Some b"
  shows "(bounded_step b (Join t) = Some b' \<and> queue_log b' = queue_log b @ [(t, Join_returned)] \<longrightarrow>
            length (accepted b) \<le> tasks_marked b + length (discarded b)) \<and>
         (fst (queue_task_done (queue b)) = Inr () \<longleftrightarrow>
            tasks_marked b + length (discarded b) < length (accepted b))"
  using bounded.invariant[OF assms]
  by (auto simp: queue_ok_def queue_task_done_def block_on_def split: if_splits)

text \<open>
  After a shutdown nobody is left behind: every producer that still waits can go on and gets
  \<open>ShutDown\<close>, and every consumer that still waits for an empty queue does too.
\<close>

lemma shutdown_releases_callers:
  assumes "shut (queue b)"
  shows "(blocked_on b t = Some (Putting x w) \<longrightarrow>
            bounded_step b (Put_resumes t) = Some (answer t (Put_item x (Inl QueueShutDown)) (queue b) b)) \<and>
         (blocked_on b t = Some (Getting w) \<and> items (queue b) = [] \<longrightarrow>
            bounded_step b (Get_resumes t) = Some (answer t (Got_item (Inl QueueShutDown)) (queue b) b))"
  using assms by (simp add: put_now_def get_now_def)

definition capacity_one :: "string bounded_queue" where
  "capacity_one = \<lparr>queue = empty_queue 1, blocked_on = (\<lambda>_. None), queue_log = [], discarded = []\<rparr>"

definition queue_schedule :: "string queue_event list" where
  "queue_schedule =
     [Put 0 ''a'' None, Put 0 ''b'' None, Get 1 None, Put_resumes 0, Put 0 ''c'' (Some 1),
      Task_done 1, Shutdown False]"

definition queue_end :: "string bounded_queue" where
  "queue_end = the (runs bounded_step capacity_one queue_schedule)"

lemma queue_end_run:
  "init_bounded 1 = Inr capacity_one" "runs bounded_step capacity_one queue_schedule = Some queue_end"
  "shut (queue queue_end)" "blocked_on queue_end 0 = Some (Putting ''c'' True)"
  "queue_log queue_end = [(0, Put_item ''a'' (Inr ())), (1, Got_item (Inr ''a'')),
     (0, Put_item ''b'' (Inr ())), (1, Task_marked (Inr ()))]"
  "items (queue queue_end) = [''b'']"
  by (simp_all add: init_bounded_def capacity_one_def queue_end_def queue_schedule_def queue_ops
      fifo_push_def empty_queue_def answer_def block_on_def)

theorem bounded_queue_is_fifo_witness:
  "accepted queue_end = delivered queue_end @ discarded queue_end @ [''b''] \<and>
   delivered queue_end = [''a''] \<and> int (pending_items queue_end) \<le> 1"
  using bounded_queue_is_fifo[OF queue_end_run(1,2)] queue_end_run(5,6)
  by (simp add: delivered_def)

lemma join_waits_for_tasks_witness:
  "fst (queue_task_done (queue queue_end)) = Inr () \<and>
   tasks_marked queue_end + length (discarded queue_end) < length (accepted queue_end)"
proof -
  have "unfinished (queue queue_end) = 1"
    by (simp add: capacity_one_def queue_end_def queue_schedule_def queue_ops
        fifo_push_def empty_queue_def answer_def block_on_def)
  then have "fst (queue_task_done (queue queue_end)) = Inr ()" by (simp add: queue_task_done_def)
  with join_waits_for_tasks[OF queue_end_run(1,2)] show ?thesis by blast
qed

lemma shutdown_releases_callers_witness:
  "bounded_step queue_end (Put_resumes 0) =
     Some (answer 0 (Put_item ''c'' (Inl QueueShutDown)) (queue queue_end) queue_end)"
  using shutdown_releases_callers[OF queue_end_run(3)] queue_end_run(4) by blast

end
