(* ===== verification/Connection_Pool.thy ===== *)
theory Connection_Pool
  imports Py_Queue Machines
begin

section \<open>connectionpool: leasing a fixed set of connections\<close>

text \<open>
  Models \<^verbatim>\<open>connectionpool/pool.py\<close>. The pool is a bounded queue that starts with every
  connection; \<open>checkout\<close> is a context manager that takes one, waiting with an optional
  timeout (a signal may interrupt the wait), and puts it back with \<open>put_nowait\<close> however the block ends. \<open>put_nowait\<close> would
  raise \<open>Full\<close> if the queue were full; the machine has that branch, and
  \<open>connections_are_conserved\<close> shows that it is never taken.
\<close>

record 'c connection_pool =
  pool_queue :: "'c pyq"
  waiting_for :: "tid \<Rightarrow> bool option"
  leases :: "(tid \<times> 'c) list"
  pool_log :: "(tid \<times> unit result) list"

definition fill_pool :: "'c list \<Rightarrow> 'c pyq" where
  "fill_pool connections =
     foldl (\<lambda>q c. snd (put_nowait fifo_push c q)) (empty_queue (length connections)) connections"

definition init_connections :: "'c list \<Rightarrow> 'c connection_pool result" where
  "init_connections connections =
     (if connections = [] then Inl (ValueError ''connections must not be empty'')
      else Inr \<lparr>pool_queue = fill_pool connections, waiting_for = (\<lambda>_. None), leases = [],
                pool_log = []\<rparr>)"

definition available_count :: "'c connection_pool \<Rightarrow> nat" where
  "available_count p = length (items (pool_queue p))"

datatype 'c checkout_event =
    Checkout tid "int option"
  | Checkout_resumes tid
  | Checkout_expires tid
  | Checkout_interrupted tid
  | Block_ends tid 'c "unit result"

definition entered :: "tid \<Rightarrow> 'c result \<times> 'c pyq \<Rightarrow> 'c connection_pool \<Rightarrow> 'c connection_pool" where
  "entered t rq p =
     (case rq of
        (Inr c, q) \<Rightarrow>
          p\<lparr>pool_queue := q, waiting_for := (waiting_for p)(t := None), leases := leases p @ [(t, c)]\<rparr>
      | (Inl e, q) \<Rightarrow>
          p\<lparr>pool_queue := q, waiting_for := (waiting_for p)(t := None),
            pool_log := pool_log p @ [(t, Inl e)]\<rparr>)"

text \<open>
  The \<^verbatim>\<open>finally\<close> clause: the block's outcome goes on, unless putting the connection back
  raises.
\<close>

definition checked_in :: "tid \<Rightarrow> 'c \<Rightarrow> unit result \<Rightarrow> 'c connection_pool \<Rightarrow> 'c connection_pool" where
  "checked_in t c outcome p =
     (case put_nowait fifo_push c (pool_queue p) of
        (r, q) \<Rightarrow>
          p\<lparr>pool_queue := q, leases := remove1 (t, c) (leases p),
            pool_log := pool_log p @ [(t, case r of Inl e \<Rightarrow> Inl e | Inr _ \<Rightarrow> outcome)]\<rparr>)"

fun checkout_step :: "'c connection_pool \<Rightarrow> 'c checkout_event \<Rightarrow> 'c connection_pool option" where
  "checkout_step p (Checkout t timeout) =
     (if waiting_for p t \<noteq> None then None
      else case get_begin fifo_pop timeout (pool_queue p) of
        Some rq \<Rightarrow> Some (entered t rq p)
      | None \<Rightarrow> Some (p\<lparr>waiting_for := (waiting_for p)(t \<mapsto> (timeout \<noteq> None))\<rparr>))"
| "checkout_step p (Checkout_resumes t) =
     (if waiting_for p t = None then None
      else map_option (\<lambda>rq. entered t rq p) (get_now fifo_pop (pool_queue p)))"
| "checkout_step p (Checkout_expires t) =
     (if waiting_for p t \<noteq> Some True \<or> get_now fifo_pop (pool_queue p) \<noteq> None then None
      else Some (entered t (Inl QueueEmpty, pool_queue p) p))"
| "checkout_step p (Checkout_interrupted t) =
     (if waiting_for p t = None then None
      else Some (entered t (Inl interrupt, pool_queue p) p))"
| "checkout_step p (Block_ends t c outcome) =
     (if waiting_for p t \<noteq> None \<or> (t, c) \<notin> set (leases p) then None
      else Some (checked_in t c outcome p))"

subsection \<open>Invariant\<close>

definition conserved_pool :: "'c list \<Rightarrow> 'c connection_pool \<Rightarrow> bool" where
  "conserved_pool cs p \<longleftrightarrow>
     mset (items (pool_queue p)) + mset (map snd (leases p)) = mset cs \<and>
     maxsize (pool_queue p) = length cs \<and> \<not> shut (pool_queue p)"

lemma fill_pool_items:
  "items (fill_pool cs) = cs \<and> maxsize (fill_pool cs) = length cs \<and> \<not> shut (fill_pool cs)"
proof -
  have "length (items q) + length xs \<le> maxsize q \<Longrightarrow> \<not> shut q \<Longrightarrow>
      (let q' = foldl (\<lambda>q c. snd (put_nowait fifo_push c q)) q xs
       in items q' = items q @ xs \<and> maxsize q' = maxsize q \<and> \<not> shut q')"
    for xs and q :: "'a pyq"
  proof (induction xs arbitrary: q)
    case (Cons x xs)
    let ?q = "snd (put_nowait fifo_push x q)"
    from Cons.prems have "items ?q = items q @ [x]" "maxsize ?q = maxsize q" "\<not> shut ?q"
      by (auto simp: queue_ops fifo_push_def)
    with Cons.IH[of ?q] Cons.prems show ?case by (simp add: Let_def)
  qed simp
  from this[of "empty_queue (length cs)" cs] show ?thesis
    by (simp add: fill_pool_def empty_queue_def Let_def)
qed

lemma conserved_pool_start: "init_connections cs = Inr p \<Longrightarrow> conserved_pool cs p"
  by (auto simp: init_connections_def conserved_pool_def fill_pool_items split: if_splits)

lemma conserved_get:
  assumes "conserved_pool cs p" and "get_now fifo_pop (pool_queue p) = Some rq"
  shows "conserved_pool cs (entered t rq p)"
  using assms
  by (cases "items (pool_queue p)") (auto simp: conserved_pool_def get_now_def entered_def)

lemma room_for_lease:
  assumes "conserved_pool cs p" and "(t, c) \<in> set (leases p)"
  shows "length (items (pool_queue p)) < length cs"
proof -
  from assms(1) have "length (items (pool_queue p)) + length (leases p) = length cs"
    by (metis conserved_pool_def length_map mset_append size_mset length_append)
  with assms(2) show ?thesis by (cases "leases p") auto
qed

lemma put_back:
  assumes "conserved_pool cs p" and "(t, c) \<in> set (leases p)"
  shows "put_nowait fifo_push c (pool_queue p) =
     (Inr (), (pool_queue p)\<lparr>items := items (pool_queue p) @ [c],
                             unfinished := unfinished (pool_queue p) + 1\<rparr>)"
  using assms room_for_lease[OF assms]
  by (simp add: conserved_pool_def queue_ops fifo_push_def)

lemma conserved_checkin:
  assumes "conserved_pool cs p" and "(t, c) \<in> set (leases p)"
  shows "conserved_pool cs (checked_in t c outcome p)"
proof -
  have "mset (leases p) = add_mset (t, c) (mset (remove1 (t, c) (leases p)))"
    using assms(2) by simp
  then have "image_mset snd (mset (leases p)) =
      add_mset c (image_mset snd (mset (remove1 (t, c) (leases p))))"
    by (metis image_mset_add_mset snd_conv)
  with assms(1) put_back[OF assms] show ?thesis
    by (simp add: checked_in_def conserved_pool_def)
qed

lemma conserved_pool_step:
  assumes ok: "conserved_pool cs p" and step: "checkout_step p e = Some p'"
  shows "conserved_pool cs p'"
proof (cases e)
  case (Checkout t timeout)
  show ?thesis
  proof (cases "get_begin fifo_pop timeout (pool_queue p) = get_now fifo_pop (pool_queue p)")
    case True
    with ok step Checkout show ?thesis
      by (auto intro: conserved_get split: if_splits option.splits)
        (auto simp: conserved_pool_def)
  next
    case False
    then have "get_begin fifo_pop timeout (pool_queue p) = Some (Inl negative_timeout, pool_queue p)"
      by (auto simp: get_begin_def split: if_splits)
    with ok step Checkout show ?thesis by (auto simp: conserved_pool_def entered_def split: if_splits)
  qed
next
  case (Checkout_resumes t)
  with ok step show ?thesis by (auto intro: conserved_get split: if_splits)
next
  case (Checkout_expires t)
  with ok step show ?thesis by (auto simp: conserved_pool_def entered_def split: if_splits)
next
  case (Checkout_interrupted t)
  with ok step show ?thesis by (auto simp: conserved_pool_def entered_def split: if_splits)
next
  case (Block_ends t c outcome)
  with ok step show ?thesis by (auto intro: conserved_checkin split: if_splits)
qed

interpretation connections: invariant_machine checkout_step
  "\<lambda>p. init_connections cs = Inr p" "conserved_pool cs" for cs
  by unfold_locales (auto intro: conserved_pool_start conserved_pool_step simp del: checkout_step.simps)

subsection \<open>Every checkout comes to an end\<close>

fun wait_steps :: "bool option \<Rightarrow> nat" where
  "wait_steps None = 0"
| "wait_steps (Some b) = 2"

fun serves_checkout :: "'c checkout_event \<Rightarrow> bool" where
  "serves_checkout (Checkout_resumes t) = True"
| "serves_checkout (Block_ends t c outcome) = True"
| "serves_checkout _ = False"

fun no_new_checkout :: "'c checkout_event \<Rightarrow> bool" where
  "no_new_checkout (Checkout t timeout) = False"
| "no_new_checkout _ = True"

text \<open>The documented use: a caller that holds a connection does not wait for another one.\<close>

definition one_at_a_time :: "'c connection_pool \<Rightarrow> bool" where
  "one_at_a_time p \<longleftrightarrow> list_all (\<lambda>(t, c). waiting_for p t = None) (leases p)"

definition unused :: "'c connection_pool \<Rightarrow> bool" where
  "unused p \<longleftrightarrow> leases p = [] \<and> (\<forall>t. waiting_for p t = None)"

definition checkouts_left :: "'c connection_pool \<Rightarrow> nat" where
  "checkouts_left p = total wait_steps (waiting_for p) + length (leases p)"

definition lending :: "'c list \<Rightarrow> 'c connection_pool \<Rightarrow> bool" where
  "lending cs p \<longleftrightarrow> cs \<noteq> [] \<and> conserved_pool cs p \<and> finite_work wait_steps (waiting_for p)"

lemma waiting_after [simp]:
  "waiting_for (entered t rq p) = (waiting_for p)(t := None)"
  "waiting_for (checked_in t c r p) = waiting_for p"
  by (simp_all add: entered_def checked_in_def split: prod.split sum.split)

lemma checkout_step_waiting:
  assumes "checkout_step p e = Some p'"
  obtains t w where "waiting_for p' = (waiting_for p)(t := w)"
  using assms
proof (cases e)
  case (Checkout t timeout)
  with assms show thesis
    by (auto intro: that[of t None] that[of t "Some _"] split: if_splits option.splits)
next
  case (Block_ends t c r)
  with assms show thesis by (intro that[of t None]) (auto split: if_splits)
qed (use assms in \<open>auto intro: that[of _ None] split: if_splits\<close>)

lemma lending_step:
  assumes "lending cs p" and "checkout_step p e = Some p'"
  shows "lending cs p'"
proof -
  from assms(2) obtain t w where "waiting_for p' = (waiting_for p)(t := w)" by (rule checkout_step_waiting)
  with assms show ?thesis
    by (simp add: lending_def conserved_pool_step[OF _ assms(2)] finite_work_update)
qed

lemma lending_start: "init_connections cs = Inr p \<Longrightarrow> lending cs p"
  by (auto simp: lending_def conserved_pool_start)
    (auto simp: init_connections_def finite_work_def split: if_splits)

interpretation lends: invariant_machine checkout_step "\<lambda>p. init_connections cs = Inr p" "lending cs" for cs
  by unfold_locales (auto intro: lending_start lending_step)

text \<open>A step that leaves a wait, with a connection or without, and a step that ends a block.\<close>

lemma entered_less:
  assumes "lending cs p" and "waiting_for p t = Some b"
  shows "checkouts_left (entered t rq p) < checkouts_left p"
    and "one_at_a_time p \<Longrightarrow> one_at_a_time (entered t rq p)"
proof -
  have "finite_work wait_steps (waiting_for p)" using assms(1) by (simp add: lending_def)
  from total_update[OF this, of t None] assms(2)
  have "total wait_steps ((waiting_for p)(t := None)) + 2 = total wait_steps (waiting_for p)" by simp
  then show "checkouts_left (entered t rq p) < checkouts_left p"
    by (auto simp: checkouts_left_def entered_def split: prod.split sum.split)
  show "one_at_a_time p \<Longrightarrow> one_at_a_time (entered t rq p)"
    by (auto simp: one_at_a_time_def entered_def list_all_iff split: prod.split sum.split)
qed

lemma checked_in_less:
  assumes "(t, c) \<in> set (leases p)"
  shows "checkouts_left (checked_in t c r p) < checkouts_left p"
    and "one_at_a_time p \<Longrightarrow> one_at_a_time (checked_in t c r p)"
proof -
  have "length (remove1 (t, c) (leases p)) < length (leases p)"
    using assms length_pos_if_in_set[OF assms] by (simp add: length_remove1)
  then show "checkouts_left (checked_in t c r p) < checkouts_left p"
    by (auto simp: checkouts_left_def checked_in_def split: prod.split)
  show "one_at_a_time p \<Longrightarrow> one_at_a_time (checked_in t c r p)"
    by (auto simp: one_at_a_time_def checked_in_def list_all_iff dest: set_remove1_subset[THEN subsetD] split: prod.split)
qed

lemma lending_moves:
  assumes "lending cs p" and "no_new_checkout e" and "checkout_step p e = Some p'"
  shows "checkouts_left p' < checkouts_left p" and "one_at_a_time p \<Longrightarrow> one_at_a_time p'"
proof -
  have "checkouts_left p' < checkouts_left p \<and> (one_at_a_time p \<longrightarrow> one_at_a_time p')"
  proof (cases e)
    case (Block_ends t c r)
    with assms(3) checked_in_less[of t c p r] show ?thesis by (auto split: if_splits)
  next
    case (Checkout_resumes t)
    with assms(3) obtain b rq where "waiting_for p t = Some b" "p' = entered t rq p"
      by (auto split: if_splits)
    with entered_less[OF assms(1)] show ?thesis by simp
  next
    case (Checkout_expires t)
    with assms(3) obtain b rq where "waiting_for p t = Some b" "p' = entered t rq p"
      by (auto split: if_splits)
    with entered_less[OF assms(1)] show ?thesis by simp
  next
    case (Checkout_interrupted t)
    with assms(3) obtain b rq where "waiting_for p t = Some b" "p' = entered t rq p"
      by (auto split: if_splits)
    with entered_less[OF assms(1)] show ?thesis by simp
  qed (use assms(2) in simp)
  then show "checkouts_left p' < checkouts_left p" "one_at_a_time p \<Longrightarrow> one_at_a_time p'" by simp_all
qed

lemma lending_progress:
  assumes "lending cs p" and "one_at_a_time p" and "\<not> unused p"
  shows "\<exists>e. serves_checkout e \<and> checkout_step p e \<noteq> None"
proof (cases "leases p")
  case (Cons l ls)
  obtain t c where "l = (t, c)" by fastforce
  with Cons assms(2) show ?thesis
    by (intro exI[of _ "Block_ends t c (Inr ())"]) (simp add: one_at_a_time_def)
next
  case Nil
  with assms(3) obtain t where t: "waiting_for p t \<noteq> None" by (auto simp: unused_def)
  from Nil assms(1) have "items (pool_queue p) \<noteq> []" by (auto simp: lending_def conserved_pool_def)
  with t show ?thesis
    by (intro exI[of _ "Checkout_resumes t"]) (auto simp: get_now_def split: prod.splits)
qed

interpretation lends_ends: finishing_machine checkout_step "\<lambda>p. lending cs p \<and> one_at_a_time p"
  no_new_checkout serves_checkout unused checkouts_left for cs
proof unfold_locales
  show "no_new_checkout e" if "serves_checkout e" for e :: "'a checkout_event"
    using that by (cases e) auto
  show "lending cs p' \<and> one_at_a_time p'"
    if "lending cs p \<and> one_at_a_time p" "no_new_checkout e" "checkout_step p e = Some p'" for p p' e
    using that lending_step lending_moves(2) by blast
  show "checkouts_left p' \<le> checkouts_left p"
    if "lending cs p \<and> one_at_a_time p" "no_new_checkout e" "checkout_step p e = Some p'" for p p' e
    using that lending_moves(1)[of cs p e p'] by simp
  show "checkouts_left p' < checkouts_left p"
    if "lending cs p \<and> one_at_a_time p" "serves_checkout e" "checkout_step p e = Some p'" for p p' e
    using that lending_moves(1)[of cs p e p'] by (cases e) auto
  show "\<exists>e. serves_checkout e \<and> checkout_step p e \<noteq> None"
    if "lending cs p \<and> one_at_a_time p" "\<not> unused p" for p
    using that lending_progress by blast
qed

subsection \<open>Properties\<close>

text \<open>
  C8. Connections are conserved under every interleaving: the available and the leased
  connections are together exactly the initial ones, so different connections are never
  leased to two blocks at once, and no outcome of a block loses one.
\<close>

theorem connections_are_conserved:
  assumes "init_connections cs = Inr p0" and "runs checkout_step p0 schedule = Some p"
  shows "mset (items (pool_queue p)) + mset (map snd (leases p)) = mset cs \<and>
         available_count p + length (leases p) = length cs \<and>
         (distinct cs \<longrightarrow> distinct (map snd (leases p)) \<and>
            set (map snd (leases p)) \<inter> set (items (pool_queue p)) = {})"
proof -
  have m: "mset (items (pool_queue p) @ map snd (leases p)) = mset cs"
    using connections.invariant[OF assms] by (simp add: conserved_pool_def)
  then have "length (items (pool_queue p) @ map snd (leases p)) = length cs"
    by (metis size_mset)
  moreover have "distinct cs \<longrightarrow> distinct (items (pool_queue p) @ map snd (leases p))"
    using m by (metis mset_eq_imp_distinct_iff)
  ultimately show ?thesis using m by (auto simp: available_count_def)
qed

text \<open>
  Leaving a \<open>checkout\<close> block always succeeds: the connection goes back, it becomes available
  to the next caller, and the block's own outcome, an exception included, is what the caller
  gets, never \<open>queue.Full\<close>.
\<close>

lemma check_in_never_full:
  assumes "init_connections cs = Inr p0" and "runs checkout_step p0 schedule = Some p"
    and "(t, c) \<in> set (leases p)" and "waiting_for p t = None"
  shows "\<exists>p'. checkout_step p (Block_ends t c outcome) = Some p' \<and>
           pool_log p' = pool_log p @ [(t, outcome)] \<and>
           items (pool_queue p') = items (pool_queue p) @ [c] \<and>
           available_count p' = available_count p + 1"
  using assms(3,4) put_back[OF connections.invariant[OF assms(1,2)] assms(3)]
  by (auto simp: checked_in_def available_count_def)

text \<open>
  C26. If callers check out one connection at a time, as the class documents, every checkout is
  served: from every reachable state in which no caller waits while it holds a connection, and
  as long as no new checkout begins, at most two steps are left for each waiting caller and
  one for each open block; when none of them is possible, nobody waits and every connection is
  back; and from everywhere the pool can get there.
\<close>

theorem every_checkout_ends:
  fixes p :: "'c connection_pool"
  assumes "init_connections cs = Inr p0" and "runs checkout_step p0 before = Some p"
    and "one_at_a_time p" and "list_all no_new_checkout schedule"
    and "runs checkout_step p schedule = Some p'"
  shows "length (filter serves_checkout schedule) \<le> checkouts_left p \<and>
         ((\<forall>e. serves_checkout e \<longrightarrow> checkout_step p' e = None) \<longrightarrow>
            (\<forall>t. waiting_for p' t = None) \<and> available_count p' = length cs) \<and>
         (\<exists>rest q. list_all serves_checkout rest \<and> runs checkout_step p' rest = Some q \<and> unused q)"
proof -
  from lends.invariant[OF assms(1,2)] assms(3) have "lending cs p \<and> one_at_a_time p" by simp
  note ends = lends_ends.comes_to_an_end[OF this assms(4,5)]
  have "runs checkout_step p0 (before @ schedule) = Some p'" using assms(2,5) by (simp add: runs_append)
  from lends.invariant[OF assms(1) this]
  have "mset (items (pool_queue p') @ map snd (leases p')) = mset cs"
    by (simp add: lending_def conserved_pool_def)
  then have "length (items (pool_queue p') @ map snd (leases p')) = length cs" by (metis size_mset)
  with ends show ?thesis by (auto simp: unused_def available_count_def)
qed

definition one_connection :: "string connection_pool" where
  "one_connection =
     \<lparr>pool_queue = fill_pool [''db''], waiting_for = (\<lambda>_. None), leases = [], pool_log = []\<rparr>"

definition checkout_schedule :: "string checkout_event list" where
  "checkout_schedule =
     [Checkout 0 None, Checkout 1 (Some 1), Checkout_expires 1, Checkout 1 None,
      Checkout_interrupted 1, Checkout 2 None,
      Block_ends 0 ''db'' (Inl (UserError ''query'')), Checkout_resumes 2]"

definition checkout_end :: "string connection_pool" where
  "checkout_end = the (runs checkout_step one_connection checkout_schedule)"

lemma checkout_end_run:
  "init_connections [''db''] = Inr one_connection"
  "runs checkout_step one_connection checkout_schedule = Some checkout_end"
  "leases checkout_end = [(2, ''db'')]" "waiting_for checkout_end 2 = None"
  "pool_log checkout_end = [(1, Inl QueueEmpty), (1, Inl interrupt), (0, Inl (UserError ''query''))]"
  by (simp_all add: init_connections_def one_connection_def checkout_end_def checkout_schedule_def
      queue_ops fifo_push_def fill_pool_def empty_queue_def entered_def checked_in_def)

theorem connections_are_conserved_witness:
  "mset (items (pool_queue checkout_end)) + mset [''db''] = mset [''db''] \<and>
   available_count checkout_end + 1 = 1"
  using connections_are_conserved[OF checkout_end_run(1,2)] checkout_end_run(3) by simp

lemma check_in_never_full_witness:
  "\<exists>p'. checkout_step checkout_end (Block_ends 2 ''db'' (Inr ())) = Some p' \<and>
     pool_log p' = pool_log checkout_end @ [(2, Inr ())] \<and>
     items (pool_queue p') = items (pool_queue checkout_end) @ [''db''] \<and>
     available_count p' = available_count checkout_end + 1"
  by (rule check_in_never_full[OF checkout_end_run(1,2) _ checkout_end_run(4)])
    (simp add: checkout_end_run(3))

definition last_block :: "string checkout_event list" where
  "last_block = [Block_ends 2 ''db'' (Inr ())]"

definition all_back :: "string connection_pool" where
  "all_back = the (runs checkout_step checkout_end last_block)"

lemma last_block_run:
  "one_at_a_time checkout_end" "list_all no_new_checkout last_block"
  "runs checkout_step checkout_end last_block = Some all_back"
  using checkout_end_run(3,4) by (simp_all add: one_at_a_time_def last_block_def all_back_def)

theorem every_checkout_ends_witness:
  "length (filter serves_checkout last_block) \<le> checkouts_left checkout_end"
  by (rule conjunct1[OF every_checkout_ends[OF checkout_end_run(1,2) last_block_run]])

text \<open>
  Without that discipline the pool can lock up: two callers hold one connection each and wait
  for the other's without a timeout.
\<close>

definition nested_checkouts :: "string checkout_event list" where
  "nested_checkouts = [Checkout 0 None, Checkout 1 None, Checkout 0 None, Checkout 1 None]"

lemma nested_checkouts_lock_up:
  "\<exists>p0 p. init_connections [''db1'', ''db2''] = Inr p0 \<and> runs checkout_step p0 nested_checkouts = Some p \<and>
     \<not> unused p \<and> (\<forall>e. serves_checkout e \<longrightarrow> checkout_step p e = None)"
proof -
  define p0 :: "string connection_pool" where
    "p0 = \<lparr>pool_queue = fill_pool [''db1'', ''db2''], waiting_for = (\<lambda>_. None), leases = [], pool_log = []\<rparr>"
  define p where "p = the (runs checkout_step p0 nested_checkouts)"
  have p: "runs checkout_step p0 nested_checkouts = Some p" "leases p = [(0, ''db1''), (1, ''db2'')]"
      "items (pool_queue p) = []" "\<not> shut (pool_queue p)" "waiting_for p = [0 \<mapsto> False, 1 \<mapsto> False]"
    by (simp_all add: p_def p0_def nested_checkouts_def queue_ops fifo_push_def fill_pool_def
        empty_queue_def entered_def)
  have "checkout_step p e = None" if "serves_checkout e" for e
    using that p(2-5) by (cases e) (auto simp: get_now_def)
  moreover have "init_connections [''db1'', ''db2''] = Inr p0" by (simp add: init_connections_def p0_def)
  moreover have "\<not> unused p" using p(2) by (simp add: unused_def)
  ultimately show ?thesis using p(1) by blast
qed

end
