(* ===== verification/Dispatch_Queue.thy ===== *)
theory Dispatch_Queue
  imports Py_Queue "HOL-Library.Product_Lexorder"
begin

section \<open>Priority queues of numbered entries\<close>

text \<open>
  What \<^verbatim>\<open>supportqueue\<close> and \<^verbatim>\<open>asyncshippingqueue\<close> share: a producer takes a
  sequence number under a lock and then puts the entry \<open>(priority, sequence, job)\<close> into an
  unbounded priority queue. Entries are compared as Python compares tuples; the theory
  shows that two entries never agree on priority and sequence, so the jobs themselves, which
  have no order, are never compared.
\<close>

type_synonym 'j entry = "int \<times> nat \<times> 'j"

definition entry_key :: "'j entry \<Rightarrow> int \<times> nat" where
  "entry_key e = (fst e, fst (snd e))"

abbreviation sequence_of :: "'j entry \<Rightarrow> nat" where
  "sequence_of e \<equiv> fst (snd e)"

abbreviation job_of :: "'j entry \<Rightarrow> 'j" where
  "job_of e \<equiv> snd (snd e)"

text \<open>
  \<open>in_hand\<close> holds the producers between their two steps. \<open>added\<close>, \<open>taken\<close> and \<open>marked\<close> are
  history variables.
\<close>

record 'j numbered =
  entries :: "'j entry pyq"
  next_sequence :: nat
  in_hand :: "tid \<Rightarrow> (nat \<times> 'j) option"
  added :: "'j entry list"
  taken :: "'j entry list"
  marked :: nat

definition init_numbered :: "'j numbered" where
  "init_numbered =
     \<lparr>entries = empty_queue 0, next_sequence = 0, in_hand = (\<lambda>_. None), added = [], taken = [],
      marked = 0\<rparr>"

definition take_number :: "tid \<Rightarrow> 'j \<Rightarrow> 'j numbered \<Rightarrow> 'j numbered" where
  "take_number t job s =
     s\<lparr>in_hand := (in_hand s)(t \<mapsto> (next_sequence s, job)), next_sequence := next_sequence s + 1\<rparr>"

definition enqueue :: "('j \<Rightarrow> int) \<Rightarrow> tid \<Rightarrow> 'j numbered \<Rightarrow> 'j numbered option" where
  "enqueue urgency t s =
     (case in_hand s t of
        None \<Rightarrow> None
      | Some (n, job) \<Rightarrow>
          (case put_now (heap_push entry_key) (urgency job, n, job) (entries s) of
             Some (Inr _, q) \<Rightarrow>
               Some (s\<lparr>entries := q, in_hand := (in_hand s)(t := None),
                      added := added s @ [(urgency job, n, job)]\<rparr>)
           | _ \<Rightarrow> None))"

definition take_entry :: "'j numbered \<Rightarrow> ('j entry \<times> 'j numbered) option" where
  "take_entry s =
     (case get_now heap_pop (entries s) of
        Some (Inr e, q) \<Rightarrow> Some (e, s\<lparr>entries := q, taken := taken s @ [e]\<rparr>)
      | _ \<Rightarrow> None)"

definition mark_done :: "'j numbered \<Rightarrow> unit result \<times> 'j numbered" where
  "mark_done s =
     (case queue_task_done (entries s) of
        (Inr _, q) \<Rightarrow> (Inr (), s\<lparr>entries := q, marked := marked s + 1\<rparr>)
      | (Inl e, q) \<Rightarrow> (Inl e, s\<lparr>entries := q\<rparr>))"

definition waiting_count :: "'j numbered \<Rightarrow> nat" where
  "waiting_count s = length (items (entries s))"

definition may_join :: "'j numbered \<Rightarrow> bool" where
  "may_join s \<longleftrightarrow> unfinished (entries s) = 0"

subsection \<open>Invariant\<close>

definition sorted_entries :: "'j entry list \<Rightarrow> bool" where
  "sorted_entries es \<longleftrightarrow> sorted_wrt (\<lambda>a b. entry_key a < entry_key b) es"

fun fresh_number :: "nat \<Rightarrow> 'j entry list \<Rightarrow> (nat \<times> 'j) option \<Rightarrow> bool" where
  "fresh_number n es None = True"
| "fresh_number n es (Some (k, job)) = (k < n \<and> k \<notin> sequence_of ` set es)"

definition hands_differ :: "(tid \<Rightarrow> (nat \<times> 'j) option) \<Rightarrow> bool" where
  "hands_differ h \<longleftrightarrow> (\<forall>t u k. t \<noteq> u \<and> map_option fst (h t) = Some k \<longrightarrow> map_option fst (h u) \<noteq> Some k)"

definition numbered_ok :: "('j \<Rightarrow> int) \<Rightarrow> 'j numbered \<Rightarrow> bool" where
  "numbered_ok urgency s \<longleftrightarrow>
     sorted_entries (items (entries s)) \<and>
     mset (added s) = mset (taken s) + mset (items (entries s)) \<and>
     distinct (map sequence_of (added s)) \<and>
     (\<forall>e \<in> set (added s). sequence_of e < next_sequence s \<and> fst e = urgency (job_of e)) \<and>
     (\<forall>t. fresh_number (next_sequence s) (added s) (in_hand s t)) \<and> hands_differ (in_hand s) \<and>
     maxsize (entries s) = 0 \<and> \<not> shut (entries s) \<and>
     unfinished (entries s) + marked s = length (added s)"

lemma sorted_insort:
  assumes "sorted_entries es" and "\<forall>x \<in> set es. sequence_of x \<noteq> sequence_of e"
  shows "sorted_entries (insort_key entry_key e es)"
  using assms
proof (induction es)
  case Nil
  then show ?case by (simp add: sorted_entries_def)
next
  case (Cons x es)
  have "entry_key e \<noteq> entry_key x" using Cons.prems(2) by (auto simp: entry_key_def)
  with Cons show ?case
    by (auto simp: sorted_entries_def set_insort_key dest: order_less_trans)
qed

lemma init_numbered_fields [simp]:
  "in_hand init_numbered = (\<lambda>_. None)" "taken init_numbered = []" "added init_numbered = []"
  by (simp_all add: init_numbered_def)

lemma numbered_ok_init: "numbered_ok urgency init_numbered"
  by (simp add: numbered_ok_def init_numbered_def empty_queue_def sorted_entries_def hands_differ_def)

lemma numbered_ok_number:
  assumes "numbered_ok urgency s" and "in_hand s t = None"
  shows "numbered_ok urgency (take_number t job s)"
proof -
  have old: "fresh_number (next_sequence s) (added s) (in_hand s u)" for u
    using assms(1) by (simp add: numbered_ok_def)
  have "fresh_number (Suc (next_sequence s)) (added s) (in_hand s u)" for u
    using old[of u] by (cases "in_hand s u") auto
  moreover have "next_sequence s \<notin> sequence_of ` set (added s)"
    using assms(1) by (auto simp: numbered_ok_def)
  moreover have "map_option fst (in_hand s u) \<noteq> Some (next_sequence s)" for u
    using old[of u] by (cases "in_hand s u") auto
  ultimately show ?thesis using assms
    by (auto simp: numbered_ok_def take_number_def hands_differ_def less_Suc_eq)
qed

lemma numbered_ok_enqueue:
  assumes ok: "numbered_ok urgency s" and step: "enqueue urgency t s = Some s'"
  shows "numbered_ok urgency s'"
proof -
  let ?es = "items (entries s)"
  from ok have empty: "\<not> shut (entries s)" "maxsize (entries s) = 0" by (simp_all add: numbered_ok_def)
  with step obtain n job where hand: "in_hand s t = Some (n, job)" and
    s': "s' = s\<lparr>entries := (entries s)\<lparr>items := insort_key entry_key (urgency job, n, job) ?es,
                                      unfinished := unfinished (entries s) + 1\<rparr>,
               in_hand := (in_hand s)(t := None), added := added s @ [(urgency job, n, job)]\<rparr>"
    by (auto simp: enqueue_def put_now_def full_def heap_push_def split: option.splits if_splits)
  have old: "fresh_number (next_sequence s) (added s) (in_hand s u)" for u
    using ok by (simp add: numbered_ok_def)
  from old[of t] hand have n: "n < next_sequence s" "n \<notin> sequence_of ` set (added s)" by auto
  have "set ?es \<subseteq> set (added s)"
    using ok by (metis mset_subset_eq_add_right numbered_ok_def set_mset_mono set_mset_mset)
  with n have "\<forall>x \<in> set ?es. sequence_of x \<noteq> sequence_of (urgency job, n, job)" by auto
  with ok have "sorted_entries (insort_key entry_key (urgency job, n, job) ?es)"
    by (intro sorted_insort) (simp_all add: numbered_ok_def)
  moreover have "fresh_number (next_sequence s) (added s @ [(urgency job, n, job)]) (in_hand s u)"
    if "u \<noteq> t" for u
  proof -
    from ok hand that have "map_option fst (in_hand s u) \<noteq> Some n"
      by (fastforce simp: numbered_ok_def hands_differ_def)
    with old[of u] show ?thesis by (cases "in_hand s u") auto
  qed
  ultimately show ?thesis using ok n s' by (auto simp: numbered_ok_def hands_differ_def)
qed

lemma take_entry_cases:
  "numbered_ok urgency s \<Longrightarrow> take_entry s = Some (e, s') \<Longrightarrow>
     \<exists>es. items (entries s) = e # es \<and> s' = s\<lparr>entries := (entries s)\<lparr>items := es\<rparr>, taken := taken s @ [e]\<rparr>"
  by (cases "items (entries s)") (auto simp: take_entry_def get_now_def heap_pop_def numbered_ok_def)

lemma numbered_ok_take:
  assumes "numbered_ok urgency s" and "take_entry s = Some (e, s')"
  shows "numbered_ok urgency s'"
  using assms(1) take_entry_cases[OF assms]
  by (elim exE conjE) (simp add: numbered_ok_def sorted_entries_def)

lemma numbered_ok_mark: "numbered_ok urgency s \<Longrightarrow> numbered_ok urgency (snd (mark_done s))"
  by (auto simp: numbered_ok_def mark_done_def queue_task_done_def)

text \<open>The entry that is taken comes strictly before every entry that stays.\<close>

lemma take_most_urgent:
  assumes "numbered_ok urgency s" and "take_entry s = Some (e, s')"
  shows "\<forall>x \<in> set (items (entries s')). entry_key e < entry_key x"
  using assms(1) take_entry_cases[OF assms] by (auto simp: numbered_ok_def sorted_entries_def)

text \<open>Every added entry is taken at most once, and waits until it is.\<close>

lemma taken_once:
  assumes "numbered_ok urgency s"
  shows "distinct (map sequence_of (taken s @ items (entries s))) \<and>
         mset (map job_of (added s)) = mset (map job_of (taken s)) + mset (map job_of (items (entries s)))"
proof -
  from assms have m: "mset (added s) = mset (taken s @ items (entries s))"
    by (simp add: numbered_ok_def)
  then have "mset (map sequence_of (added s)) = mset (map sequence_of (taken s @ items (entries s)))"
    by (metis mset_map)
  then have "distinct (map sequence_of (taken s @ items (entries s)))"
    using assms mset_eq_imp_distinct_iff unfolding numbered_ok_def by blast
  moreover have "mset (map job_of (added s)) = mset (map job_of (taken s @ items (entries s)))"
    using m by (metis mset_map)
  ultimately show ?thesis by simp
qed

text \<open>
  \<open>join\<close> counts every added entry: one that nobody has taken yet keeps it waiting, unless more
  entries have been marked than taken.
\<close>

lemma join_counts_waiting:
  assumes "numbered_ok urgency s" and "marked s \<le> length (taken s)" and "may_join s"
  shows "items (entries s) = [] \<and> marked s = length (taken s)"
proof -
  from assms(1) have "length (added s) = length (taken s) + length (items (entries s))"
    by (metis length_append mset_append numbered_ok_def size_mset)
  with assms show ?thesis by (auto simp: numbered_ok_def may_join_def)
qed

subsection \<open>The interface to a component\<close>

text \<open>
  A component whose steps act on its numbered entries only by the operations above keeps the
  invariant, whatever else its steps do.
\<close>

definition core_move :: "('j \<Rightarrow> int) \<Rightarrow> 'j numbered \<Rightarrow> 'j numbered \<Rightarrow> bool" where
  "core_move urgency s s' \<longleftrightarrow>
     s' = s \<or> (\<exists>t job. in_hand s t = None \<and> s' = take_number t job s) \<or>
     (\<exists>t. enqueue urgency t s = Some s') \<or> (\<exists>e. take_entry s = Some (e, s')) \<or>
     s' = snd (mark_done s)"

lemma core_moves:
  "core_move urgency s s"
  "\<forall>n j. in_hand s t \<noteq> Some (n, j) \<Longrightarrow> core_move urgency s (take_number t job s)"
  "enqueue urgency t s = Some s' \<Longrightarrow> core_move urgency s s'"
  "take_entry s = Some (e, s') \<Longrightarrow> core_move urgency s s'"
  "mark_done s = (r, s') \<Longrightarrow> core_move urgency s s'"
  unfolding core_move_def by (blast | cases "in_hand s t"; force | metis snd_conv)+

lemma core_move_ok: "numbered_ok urgency s \<Longrightarrow> core_move urgency s s' \<Longrightarrow> numbered_ok urgency s'"
  unfolding core_move_def
  by (auto intro: numbered_ok_number numbered_ok_enqueue numbered_ok_take numbered_ok_mark)

locale numbered_client =
  fixes step :: "'s \<Rightarrow> 'e \<Rightarrow> 's option"
    and core :: "'s \<Rightarrow> 'j numbered"
    and urgency :: "'j \<Rightarrow> int"
    and initial :: 's
  assumes core_initial: "core initial = init_numbered"
    and core_step: "step s e = Some s' \<Longrightarrow> core_move urgency (core s) (core s')"
begin

lemma core_ok: "runs step initial es = Some s \<Longrightarrow> numbered_ok urgency (core s)"
proof (induction es arbitrary: s rule: rev_induct)
  case Nil
  then show ?case using core_initial by (auto simp: numbered_ok_init)
next
  case (snoc e es)
  then obtain s1 where "runs step initial es = Some s1" "step s1 e = Some s"
    by (auto simp: runs_snoc split: option.splits)
  with snoc.IH core_step core_move_ok show ?case by blast
qed

end

subsection \<open>A single producer\<close>

text \<open>Submitting a list of jobs one after another, and draining the queue.\<close>

definition submit_job :: "('j \<Rightarrow> int) \<Rightarrow> 'j \<Rightarrow> 'j numbered \<Rightarrow> 'j numbered" where
  "submit_job urgency job s = the (enqueue urgency 0 (take_number 0 job s))"

fun take_jobs :: "nat \<Rightarrow> 'j numbered \<Rightarrow> 'j list" where
  "take_jobs 0 s = []"
| "take_jobs (Suc n) s =
     (case take_entry s of None \<Rightarrow> [] | Some (e, s') \<Rightarrow> job_of e # take_jobs n s')"

lemma sorted_unique:
  fixes g :: "'a \<Rightarrow> 'b :: linorder"
  assumes "sorted_wrt (<) (map g xs)" and "sorted_wrt (<) (map g ys)" and "set xs = set ys"
  shows "xs = ys"
proof -
  have "map g xs = map g ys" using assms by (intro strict_sorted_equal) auto
  moreover have "inj_on g (set xs \<union> set ys)"
    using assms(1,3) by (metis Un_absorb distinct_map strict_sorted_iff)
  ultimately show ?thesis by (rule map_inj_on)
qed

text \<open>Sorting by the key of the entry is stable sorting by the priority.\<close>

lemma entries_sorted_by_priority:
  fixes xs ys :: "'j entry list"
  assumes "sorted_entries ys" and "mset ys = mset xs"
    and "sorted_wrt (<) (map sequence_of xs)"
  shows "ys = sort_key fst xs"
proof (rule properties_for_sort_key[symmetric])
  show "mset ys = mset xs" by (rule assms(2))
  have "sorted_wrt (\<lambda>a b. fst a \<le> fst b) ys"
    using assms(1) unfolding sorted_entries_def
    by (rule sorted_wrt_mono_rel[rotated]) (auto simp: entry_key_def less_prod_def)
  then show "sorted (map fst ys)" by (simp add: sorted_map)
next
  fix k
  let ?same = "\<lambda>x :: 'j entry. fst k = fst x"
  have "sorted_wrt (\<lambda>a b. entry_key a < entry_key b) (filter ?same ys)"
    using assms(1) unfolding sorted_entries_def by (rule sorted_wrt_filter)
  then have "sorted_wrt (\<lambda>a b. sequence_of a < sequence_of b) (filter ?same ys)"
    by (rule sorted_wrt_mono_rel[rotated]) (auto simp: entry_key_def less_prod_def)
  moreover have "sorted_wrt (\<lambda>a b. sequence_of a < sequence_of b) (filter ?same xs)"
    using assms(3) by (simp add: sorted_wrt_map sorted_wrt_filter)
  moreover have "set (filter ?same ys) = set (filter ?same xs)"
    using assms(2) by (metis mset_filter set_mset_mset)
  ultimately show "filter ?same ys = filter ?same xs"
    by (intro sorted_unique[where g = sequence_of]) (simp_all add: sorted_wrt_map)
qed

lemma submit_job_added:
  assumes "numbered_ok urgency s" and "in_hand s = (\<lambda>_. None)"
  shows "numbered_ok urgency (submit_job urgency job s) \<and>
         in_hand (submit_job urgency job s) = (\<lambda>_. None) \<and>
         taken (submit_job urgency job s) = taken s \<and>
         next_sequence (submit_job urgency job s) = next_sequence s + 1 \<and>
         added (submit_job urgency job s) = added s @ [(urgency job, next_sequence s, job)]"
proof -
  let ?n = "take_number 0 job s"
  from assms have ok: "numbered_ok urgency ?n" by (simp add: numbered_ok_number)
  have "\<not> shut (entries s)" "maxsize (entries s) = 0" using assms(1) by (simp_all add: numbered_ok_def)
  then obtain s' where s': "enqueue urgency 0 ?n = Some s'" "in_hand s' = (in_hand s)(0 := None)"
    "taken s' = taken s" "next_sequence s' = next_sequence s + 1"
    "added s' = added s @ [(urgency job, next_sequence s, job)]"
    by (auto simp: enqueue_def take_number_def put_now_def full_def)
  with numbered_ok_enqueue[OF ok s'(1)] assms(2) show ?thesis by (auto simp: submit_job_def)
qed

lemma submit_jobs_added:
  assumes "numbered_ok urgency s" and "in_hand s = (\<lambda>_. None)" and "taken s = []"
    and "sorted_wrt (<) (map sequence_of (added s))"
  shows "let s' = foldl (\<lambda>s job. submit_job urgency job s) s jobs in
         numbered_ok urgency s' \<and> taken s' = [] \<and> sorted_wrt (<) (map sequence_of (added s')) \<and>
         map job_of (added s') = map job_of (added s) @ jobs"
  using assms
proof (induction jobs arbitrary: s)
  case (Cons job jobs)
  note one = submit_job_added[OF Cons.prems(1,2), of job]
  have "\<forall>e \<in> set (added s). sequence_of e < next_sequence s"
    using Cons.prems(1) by (simp add: numbered_ok_def)
  with one Cons.prems have "sorted_wrt (<) (map sequence_of (added (submit_job urgency job s)))"
    by (simp add: sorted_wrt_append)
  with Cons.IH[of "submit_job urgency job s"] one Cons.prems(3) show ?case by (simp add: Let_def)
qed (simp add: Let_def)

lemma take_jobs_all:
  "numbered_ok urgency s \<Longrightarrow> length (items (entries s)) \<le> n \<Longrightarrow>
   take_jobs n s = map job_of (items (entries s))"
proof (induction n arbitrary: s)
  case (Suc n)
  show ?case
  proof (cases "items (entries s)")
    case Nil
    with Suc.prems show ?thesis by (simp add: take_entry_def get_now_def numbered_ok_def)
  next
    case (Cons e es)
    let ?s = "s\<lparr>entries := (entries s)\<lparr>items := es\<rparr>, taken := taken s @ [e]\<rparr>"
    from Cons have take: "take_entry s = Some (e, ?s)"
      by (simp add: take_entry_def get_now_def heap_pop_def)
    from Suc.IH[OF numbered_ok_take[OF Suc.prems(1) take]] Suc.prems(2) Cons take
    show ?thesis by simp
  qed
qed simp

lemma map_insort_key:
  "\<forall>y \<in> insert x (set ys). f y = g (h y) \<Longrightarrow>
   map h (insort_key f x ys) = insort_key g (h x) (map h ys)"
  by (induction ys) auto

lemma map_sort_key:
  "\<forall>x \<in> set xs. f x = g (h x) \<Longrightarrow> map h (sort_key f xs) = sort_key g (map h xs)"
proof (induction xs)
  case (Cons x xs)
  then have "map h (insort_key f x (sort_key f xs)) = insort_key g (h x) (map h (sort_key f xs))"
    by (intro map_insort_key) simp
  with Cons show ?case by simp
qed simp

text \<open>Jobs submitted one after another leave in the order of a stable sort by priority.\<close>

lemma submit_then_take:
  "take_jobs (length jobs) (foldl (\<lambda>s job. submit_job urgency job s) init_numbered jobs) =
           sort_key urgency jobs"
proof -
  let ?s = "foldl (\<lambda>s job. submit_job urgency job s) init_numbered jobs"
  have s: "numbered_ok urgency ?s" "taken ?s = []" "sorted_wrt (<) (map sequence_of (added ?s))"
    "map job_of (added ?s) = jobs"
    using submit_jobs_added[OF numbered_ok_init, of urgency jobs] by (simp_all add: Let_def)
  from s(1,2) have m: "mset (items (entries ?s)) = mset (added ?s)" by (simp add: numbered_ok_def)
  from s(1) have "items (entries ?s) = sort_key fst (added ?s)"
    by (intro entries_sorted_by_priority m s(3)) (simp add: numbered_ok_def)
  moreover have "map job_of (sort_key fst (added ?s)) = sort_key urgency (map job_of (added ?s))"
    using s(1) by (intro map_sort_key) (simp add: numbered_ok_def)
  ultimately have "map job_of (items (entries ?s)) = sort_key urgency (map job_of (added ?s))" by simp
  moreover have "length (items (entries ?s)) \<le> length jobs"
    using m s(4) by (metis length_map order_refl size_mset)
  ultimately show ?thesis using take_jobs_all[OF s(1)] s(4) by simp
qed

end
