(* ===== verification/Support_Queue.thy ===== *)
theory Support_Queue
  imports Dispatch_Queue
begin

section \<open>supportqueue: the most urgent ticket first\<close>

text \<open>
  Models \<^verbatim>\<open>supportqueue/queue.py\<close>: producers number their ticket under a lock and then
  put it, agents claim without blocking. The two steps of \<open>submit\<close> may interleave with
  everything else.
\<close>

record support_ticket =
  ticket_id :: string
  customer_id :: string
  ticket_priority :: int
  subject :: string

definition make_ticket :: "string \<Rightarrow> string \<Rightarrow> int \<Rightarrow> string \<Rightarrow> support_ticket result" where
  "make_ticket ticket customer prio subj =
     (if ticket = '''' then Inl (ValueError ''ticket_id must not be empty'')
      else if customer = '''' then Inl (ValueError ''customer_id must not be empty'')
      else if prio < 0 then Inl (ValueError ''priority must not be negative'')
      else if subj = '''' then Inl (ValueError ''subject must not be empty'')
      else Inr \<lparr>ticket_id = ticket, customer_id = customer, ticket_priority = prio, subject = subj\<rparr>)"

datatype support_reply =
    Submitted support_ticket
  | Claimed "support_ticket option"
  | Handled "unit result"
  | All_handled

record support =
  tickets :: "support_ticket numbered"
  support_log :: "(tid \<times> support_reply) list"

definition init_support :: support where
  "init_support = \<lparr>tickets = init_numbered, support_log = []\<rparr>"

text \<open>The two steps of \<open>submit\<close>, and the other methods.\<close>

definition submit_number :: "tid \<Rightarrow> support_ticket \<Rightarrow> support \<Rightarrow> support option" where
  "submit_number t ticket s =
     (if in_hand (tickets s) t \<noteq> None then None
      else Some (s\<lparr>tickets := take_number t ticket (tickets s)\<rparr>))"

definition submit_put :: "tid \<Rightarrow> support \<Rightarrow> support option" where
  "submit_put t s =
     (case in_hand (tickets s) t of
        None \<Rightarrow> None
      | Some (n, ticket) \<Rightarrow>
          map_option (\<lambda>c. s\<lparr>tickets := c, support_log := support_log s @ [(t, Submitted ticket)]\<rparr>)
            (enqueue ticket_priority t (tickets s)))"

definition claim_next :: "support \<Rightarrow> support_ticket option \<times> support" where
  "claim_next s =
     (case take_entry (tickets s) of
        None \<Rightarrow> (None, s)
      | Some (e, c) \<Rightarrow> (Some (job_of e), s\<lparr>tickets := c\<rparr>))"

definition ticket_done :: "support \<Rightarrow> unit result \<times> support" where
  "ticket_done s = (case mark_done (tickets s) of (r, c) \<Rightarrow> (r, s\<lparr>tickets := c\<rparr>))"

definition tickets_waiting :: "support \<Rightarrow> nat" where
  "tickets_waiting s = waiting_count (tickets s)"

datatype support_event =
    Number_ticket tid support_ticket
  | Put_ticket tid
  | Claim tid
  | Ticket_done tid
  | Join_returns tid

definition support_step :: "support \<Rightarrow> support_event \<Rightarrow> support option" where
  "support_step s e =
     (case e of
        Number_ticket t ticket \<Rightarrow> submit_number t ticket s
      | Put_ticket t \<Rightarrow> submit_put t s
      | Claim t \<Rightarrow>
          (case claim_next s of
             (r, s') \<Rightarrow> Some (s'\<lparr>support_log := support_log s' @ [(t, Claimed r)]\<rparr>))
      | Ticket_done t \<Rightarrow>
          (case ticket_done s of
             (r, s') \<Rightarrow> Some (s'\<lparr>support_log := support_log s' @ [(t, Handled r)]\<rparr>))
      | Join_returns t \<Rightarrow>
          if may_join (tickets s)
          then Some (s\<lparr>support_log := support_log s @ [(t, All_handled)]\<rparr>) else None)"

lemma support_moves:
  "support_step s e = Some s' \<Longrightarrow> core_move ticket_priority (tickets s) (tickets s')"
  by (cases e) (auto simp: support_step_def submit_number_def submit_put_def claim_next_def
      ticket_done_def intro: core_moves split: if_splits option.splits prod.splits)

interpretation support_tickets: numbered_client support_step tickets ticket_priority init_support
  by unfold_locales (auto simp: init_support_def intro: support_moves)

subsection \<open>Submissions and claims in the log\<close>

fun submitted_of :: "tid \<times> support_reply \<Rightarrow> support_ticket list" where
  "submitted_of (_, Submitted ticket) = [ticket]"
| "submitted_of _ = []"

fun claimed_of :: "tid \<times> support_reply \<Rightarrow> support_ticket list" where
  "claimed_of (_, Claimed (Some ticket)) = [ticket]"
| "claimed_of _ = []"

definition submitted :: "support \<Rightarrow> support_ticket list" where
  "submitted s = concat (map submitted_of (support_log s))"

definition claimed :: "support \<Rightarrow> support_ticket list" where
  "claimed s = concat (map claimed_of (support_log s))"

definition logged :: "support \<Rightarrow> bool" where
  "logged s \<longleftrightarrow> map job_of (added (tickets s)) = submitted s \<and> map job_of (taken (tickets s)) = claimed s"

lemma logged_start: "s = init_support \<Longrightarrow> logged s"
  by (simp add: logged_def init_support_def submitted_def claimed_def)

lemma logged_step: "logged s \<Longrightarrow> support_step s e = Some s' \<Longrightarrow> logged s'"
  by (cases e) (auto simp: support_step_def logged_def submitted_def claimed_def submit_number_def
      submit_put_def claim_next_def ticket_done_def take_number_def enqueue_def take_entry_def
      mark_done_def split: if_splits option.splits prod.splits sum.splits)

interpretation support_logged: invariant_machine support_step "\<lambda>s. s = init_support" logged
  by unfold_locales (auto intro: logged_start logged_step)

subsection \<open>Properties\<close>

text \<open>
  C16. A claim returns the most urgent ticket under every interleaving: a ticket that is claimed
  has, together with its sequence number, a strictly smaller key than every ticket that stays
  in the queue, so the most urgent priority goes first and the earlier number breaks ties
  (two tickets are never compared themselves); a claim returns nothing only if the queue is
  empty.
\<close>

theorem claim_takes_most_urgent:
  assumes "runs support_step init_support schedule = Some s" and "claim_next s = (r, s')"
  shows "case r of
           None \<Rightarrow> tickets_waiting s = 0 \<and> s' = s
         | Some ticket \<Rightarrow> \<exists>n. (ticket_priority ticket, n, ticket) \<in> set (items (entries (tickets s))) \<and>
             (\<forall>x \<in> set (items (entries (tickets s'))).
                (ticket_priority ticket, n) < entry_key x \<and> ticket_priority ticket \<le> ticket_priority (job_of x))"
proof (cases "take_entry (tickets s)")
  case None
  have "\<not> shut (entries (tickets s))"
    using support_tickets.core_ok[OF assms(1)] by (simp add: numbered_ok_def)
  with None assms(2) show ?thesis
    by (auto simp: claim_next_def take_entry_def get_now_def tickets_waiting_def waiting_count_def
        heap_pop_def split: if_splits prod.splits)
next
  case (Some ec)
  obtain e c where ec: "ec = (e, c)" by fastforce
  note ok = support_tickets.core_ok[OF assms(1)]
  from Some ec assms(2) have r: "r = Some (job_of e)" "tickets s' = c"
    by (auto simp: claim_next_def)
  from take_entry_cases[OF ok] Some ec obtain es where
    es: "items (entries (tickets s)) = e # es" "items (entries c) = es" by auto
  have sub: "set (items (entries (tickets s))) \<subseteq> set (added (tickets s))"
    using ok by (metis mset_subset_eq_add_right numbered_ok_def set_mset_mono set_mset_mset)
  then have prio: "fst x = ticket_priority (job_of x)" if "x \<in> set (e # es)" for x
    using that es ok by (auto simp: numbered_ok_def)
  have less: "\<forall>x \<in> set es. entry_key e < entry_key x"
    using take_most_urgent[OF ok, of e c] Some ec es by simp
  have key: "entry_key e = (ticket_priority (job_of e), sequence_of e)"
    "(ticket_priority (job_of e), sequence_of e, job_of e) = e"
    using prio[of e] by (simp_all add: entry_key_def prod_eq_iff)
  have "ticket_priority (job_of e) \<le> ticket_priority (job_of x)" if "x \<in> set es" for x
    using that less prio[of x] prio[of e] by (force simp: entry_key_def less_prod_def)
  with less key es r show ?thesis
    by (auto intro!: exI[of _ "sequence_of e"])
qed

text \<open>
  Every submitted ticket is claimed at most once and none is lost: under every interleaving
  the submitted tickets are, as a multiset, the claimed ones and the waiting ones.
\<close>

lemma tickets_claimed_once:
  assumes "runs support_step init_support schedule = Some s"
  shows "mset (submitted s) = mset (claimed s) + mset (map job_of (items (entries (tickets s)))) \<and>
         length (submitted s) = length (claimed s) + tickets_waiting s"
proof -
  from support_logged.invariant[OF refl assms] have log: "logged s" .
  from taken_once[OF support_tickets.core_ok[OF assms]] log
  have m: "mset (submitted s) = mset (claimed s) + mset (map job_of (items (entries (tickets s))))"
    by (metis logged_def)
  have "length (submitted s) = length (claimed s) + tickets_waiting s"
    using arg_cong[OF m, of size] by (simp add: tickets_waiting_def waiting_count_def)
  with m show ?thesis by blast
qed

text \<open>
  Tickets submitted one after another are claimed in the order of a stable sort by priority:
  first come, first served among equally urgent tickets.
\<close>

lemma tickets_leave_sorted:
  "take_jobs (length ts) (foldl (\<lambda>s ticket. submit_job ticket_priority ticket s) init_numbered ts) =
     sort_key ticket_priority ts"
  by (rule submit_then_take)

text \<open>
  \<open>join\<close> waits for every submitted ticket, not only for the claimed ones: it returns only when
  no ticket is waiting to be claimed and every claimed one has been marked, provided that no
  more tickets have been marked than claimed.
\<close>

lemma join_waits_for_unclaimed:
  assumes "runs support_step init_support schedule = Some s"
    and "marked (tickets s) \<le> length (claimed s)"
    and "support_step s (Join_returns t) = Some s'"
  shows "tickets_waiting s = 0 \<and> marked (tickets s) = length (claimed s)"
proof -
  from support_logged.invariant[OF refl assms(1)] have "length (taken (tickets s)) = length (claimed s)"
    by (metis length_map logged_def)
  with join_counts_waiting[OF support_tickets.core_ok[OF assms(1)]] assms(2,3) show ?thesis
    by (auto simp: support_step_def tickets_waiting_def waiting_count_def split: if_splits)
qed

definition ticket_a :: support_ticket where
  "ticket_a = \<lparr>ticket_id = ''T1'', customer_id = ''c1'', ticket_priority = 2, subject = ''slow''\<rparr>"

definition ticket_b :: support_ticket where
  "ticket_b = \<lparr>ticket_id = ''T2'', customer_id = ''c2'', ticket_priority = 1, subject = ''down''\<rparr>"

text \<open>Two producers number their tickets in one order and put them in the other.\<close>

definition support_schedule :: "support_event list" where
  "support_schedule =
     [Number_ticket 0 ticket_a, Number_ticket 1 ticket_b, Put_ticket 1, Put_ticket 0, Claim 2,
      Ticket_done 2]"

definition support_end :: support where
  "support_end = the (runs support_step init_support support_schedule)"

lemmas support_eval =
  support_step_def submit_number_def submit_put_def claim_next_def ticket_done_def take_number_def
  enqueue_def take_entry_def mark_done_def queue_ops heap_push_def heap_pop_def entry_key_def
  init_support_def init_numbered_def empty_queue_def ticket_a_def ticket_b_def less_eq_prod_def

lemma support_end_run:
  "runs support_step init_support support_schedule = Some support_end"
  "claimed support_end = [ticket_b]"
  "tickets_waiting support_end = 1"
  by (simp_all add: support_end_def support_schedule_def support_eval claimed_def
      tickets_waiting_def waiting_count_def)

theorem claim_takes_most_urgent_witness:
  "fst (claim_next support_end) = Some ticket_a \<and>
   (\<exists>n. (ticket_priority ticket_a, n, ticket_a) \<in> set (items (entries (tickets support_end))))"
proof -
  have r: "fst (claim_next support_end) = Some ticket_a"
    by (simp add: support_end_def support_schedule_def support_eval)
  with claim_takes_most_urgent[OF support_end_run(1) surjective_pairing] show ?thesis by auto
qed

lemma tickets_claimed_once_witness:
  "length (submitted support_end) = length [ticket_b] + 1"
  using tickets_claimed_once[OF support_end_run(1)] support_end_run(2,3) by simp

definition support_done :: support where
  "support_done = the (runs support_step init_support (support_schedule @ [Claim 0, Ticket_done 0]))"

lemma support_done_run:
  "runs support_step init_support (support_schedule @ [Claim 0, Ticket_done 0]) = Some support_done"
  "marked (tickets support_done) = 2" "length (claimed support_done) = 2"
  "support_step support_done (Join_returns 3) =
     Some (support_done\<lparr>support_log := support_log support_done @ [(3, All_handled)]\<rparr>)"
  by (simp_all add: support_done_def support_schedule_def support_eval claimed_def may_join_def)

lemma join_waits_for_unclaimed_witness:
  "tickets_waiting support_done = 0 \<and> marked (tickets support_done) = length (claimed support_done)"
  by (rule join_waits_for_unclaimed[OF support_done_run(1) _ support_done_run(4)])
    (simp add: support_done_run(2,3))

end
