(* ===== verification/Shipping_Queue.thy ===== *)
theory Shipping_Queue
  imports Dispatch_Queue
begin

section \<open>asyncshippingqueue: dispatch with a timeout\<close>

text \<open>
  Models \<^verbatim>\<open>asyncshippingqueue/queue.py\<close>. The numbering is that of the support queue;
  \<open>dispatch_next\<close> waits for a job, and \<open>asyncio.wait_for\<close> bounds the wait. A wait that times
  out returns \<open>None\<close> and takes nothing, even if a job has arrived meanwhile; with a timeout of
  zero \<open>wait_for\<close> cancels \<open>get\<close> before it has begun, so the call never takes a job. A waiting
  task may also be cancelled: \<open>get\<close> then leaves the queue alone.
\<close>

record shipment_job =
  shipment_id :: string
  order_id :: string
  ship_priority :: int
  carrier :: string

definition make_job :: "string \<Rightarrow> string \<Rightarrow> int \<Rightarrow> string \<Rightarrow> shipment_job result" where
  "make_job shipment order prio carr =
     (if shipment = '''' then Inl (ValueError ''shipment_id must not be empty'')
      else if order = '''' then Inl (ValueError ''order_id must not be empty'')
      else if prio < 0 then Inl (ValueError ''priority must not be negative'')
      else if carr = '''' then Inl (ValueError ''carrier must not be empty'')
      else Inr \<lparr>shipment_id = shipment, order_id = order, ship_priority = prio, carrier = carr\<rparr>)"

datatype shipping_reply =
    Job_submitted shipment_job
  | Dispatched "shipment_job option result"
  | Job_marked "unit result"
  | Jobs_joined

record shipping =
  jobs :: "shipment_job numbered"
  dispatching :: "tid \<Rightarrow> bool option"
  shipping_log :: "(tid \<times> shipping_reply) list"

definition init_shipping :: shipping where
  "init_shipping = \<lparr>jobs = init_numbered, dispatching = (\<lambda>_. None), shipping_log = []\<rparr>"

abbreviation ship_says :: "shipping \<Rightarrow> tid \<Rightarrow> shipping_reply \<Rightarrow> shipping" where
  "ship_says s t r \<equiv> s\<lparr>dispatching := (dispatching s)(t := None), shipping_log := shipping_log s @ [(t, r)]\<rparr>"

definition number_job :: "tid \<Rightarrow> shipment_job \<Rightarrow> shipping \<Rightarrow> shipping option" where
  "number_job t job s =
     (if in_hand (jobs s) t \<noteq> None \<or> dispatching s t \<noteq> None then None
      else Some (s\<lparr>jobs := take_number t job (jobs s)\<rparr>))"

definition put_job :: "tid \<Rightarrow> shipping \<Rightarrow> shipping option" where
  "put_job t s =
     (case in_hand (jobs s) t of
        None \<Rightarrow> None
      | Some (n, job) \<Rightarrow>
          map_option (\<lambda>c. ship_says (s\<lparr>jobs := c\<rparr>) t (Job_submitted job))
            (enqueue ship_priority t (jobs s)))"

definition take_job :: "tid \<Rightarrow> shipping \<Rightarrow> shipping option" where
  "take_job t s =
     map_option (\<lambda>(e, c). ship_says (s\<lparr>jobs := c\<rparr>) t (Dispatched (Inr (Some (job_of e)))))
       (take_entry (jobs s))"

text \<open>The call of \<open>dispatch_next\<close>; of the timeout in seconds only the sign matters.\<close>

definition dispatch_begin :: "tid \<Rightarrow> int option \<Rightarrow> shipping \<Rightarrow> shipping" where
  "dispatch_begin t timeout s =
     (if timeout \<noteq> None \<and> the timeout < 0
      then ship_says s t (Dispatched (Inl (ValueError ''timeout must not be negative'')))
      else if timeout = Some 0 then ship_says s t (Dispatched (Inr None))
      else case take_job t s of
        Some s' \<Rightarrow> s'
      | None \<Rightarrow> s\<lparr>dispatching := (dispatching s)(t \<mapsto> (timeout \<noteq> None))\<rparr>)"

definition jobs_waiting :: "shipping \<Rightarrow> nat" where
  "jobs_waiting s = waiting_count (jobs s)"

definition job_done :: "tid \<Rightarrow> shipping \<Rightarrow> shipping" where
  "job_done t s = (case mark_done (jobs s) of (r, c) \<Rightarrow> ship_says (s\<lparr>jobs := c\<rparr>) t (Job_marked r))"

datatype shipping_event =
    Number_job tid shipment_job
  | Put_job tid
  | Dispatch tid "int option"
  | Dispatch_resumes tid
  | Dispatch_expires tid
  | Dispatch_cancelled tid
  | Job_done tid
  | Jobs_join tid

definition shipping_step :: "shipping \<Rightarrow> shipping_event \<Rightarrow> shipping option" where
  "shipping_step s e =
     (case e of
        Number_job t job \<Rightarrow> number_job t job s
      | Put_job t \<Rightarrow> put_job t s
      | Dispatch t timeout \<Rightarrow>
          if dispatching s t \<noteq> None \<or> in_hand (jobs s) t \<noteq> None then None
          else Some (dispatch_begin t timeout s)
      | Dispatch_resumes t \<Rightarrow> if dispatching s t = None then None else take_job t s
      | Dispatch_expires t \<Rightarrow>
          if dispatching s t = Some True then Some (ship_says s t (Dispatched (Inr None))) else None
      | Dispatch_cancelled t \<Rightarrow>
          if dispatching s t = None then None
          else Some (ship_says s t (Dispatched (Inl cancelled)))
      | Job_done t \<Rightarrow>
          if dispatching s t \<noteq> None then None else Some (job_done t s)
      | Jobs_join t \<Rightarrow>
          if dispatching s t = None \<and> may_join (jobs s) then Some (ship_says s t Jobs_joined) else None)"

lemmas shipping_defs =
  shipping_step_def number_job_def put_job_def take_job_def dispatch_begin_def job_done_def

lemma shipping_moves:
  "shipping_step s e = Some s' \<Longrightarrow> core_move ship_priority (jobs s) (jobs s')"
  by (cases e) (auto simp: shipping_defs intro: core_moves split: if_splits option.splits prod.splits)

interpretation shipping_jobs: numbered_client shipping_step jobs ship_priority init_shipping
  by unfold_locales (auto simp: init_shipping_def intro: shipping_moves)

fun job_submitted :: "tid \<times> shipping_reply \<Rightarrow> shipment_job list" where
  "job_submitted (_, Job_submitted job) = [job]"
| "job_submitted _ = []"

fun job_dispatched :: "tid \<times> shipping_reply \<Rightarrow> shipment_job list" where
  "job_dispatched (_, Dispatched (Inr (Some job))) = [job]"
| "job_dispatched _ = []"

definition submitted_jobs :: "shipping \<Rightarrow> shipment_job list" where
  "submitted_jobs s = concat (map job_submitted (shipping_log s))"

definition dispatched_jobs :: "shipping \<Rightarrow> shipment_job list" where
  "dispatched_jobs s = concat (map job_dispatched (shipping_log s))"

definition jobs_logged :: "shipping \<Rightarrow> bool" where
  "jobs_logged s \<longleftrightarrow>
     map job_of (added (jobs s)) = submitted_jobs s \<and> map job_of (taken (jobs s)) = dispatched_jobs s"

lemma jobs_logged_start: "s = init_shipping \<Longrightarrow> jobs_logged s"
  by (simp add: jobs_logged_def init_shipping_def submitted_jobs_def dispatched_jobs_def)

lemma take_job_logged: "jobs_logged s \<Longrightarrow> take_job t s = Some s' \<Longrightarrow> jobs_logged s'"
  by (auto simp: take_job_def take_entry_def jobs_logged_def submitted_jobs_def dispatched_jobs_def
      split: option.splits sum.splits)

lemma jobs_logged_step:
  assumes "jobs_logged s" and "shipping_step s e = Some s'"
  shows "jobs_logged s'"
proof (cases e)
  case (Dispatch t timeout)
  with assms show ?thesis
    by (auto simp: shipping_step_def dispatch_begin_def intro: take_job_logged
        split: if_splits option.splits)
      (auto simp: jobs_logged_def submitted_jobs_def dispatched_jobs_def)
next
  case (Dispatch_resumes t)
  with assms take_job_logged show ?thesis by (auto simp: shipping_step_def split: if_splits)
next
  case (Job_done t)
  with assms show ?thesis
    by (auto simp: shipping_step_def job_done_def jobs_logged_def submitted_jobs_def
        dispatched_jobs_def mark_done_def split: if_splits prod.splits sum.splits)
qed (use assms in \<open>auto simp: shipping_step_def jobs_logged_def submitted_jobs_def dispatched_jobs_def
       number_job_def put_job_def take_number_def enqueue_def split: if_splits option.splits sum.splits prod.splits\<close>)

interpretation shipping_logged: invariant_machine shipping_step "\<lambda>s. s = init_shipping" jobs_logged
  by unfold_locales (auto intro: jobs_logged_start jobs_logged_step)

subsection \<open>Properties\<close>

text \<open>
  No shipment is lost or dispatched twice, timeouts and cancellations included: under every
  interleaving the submitted jobs are, as a multiset, the dispatched ones and the waiting ones,
  and a wait that times out or is cancelled leaves the queue as it was.
\<close>

lemma shipments_dispatched_once:
  assumes "runs shipping_step init_shipping schedule = Some s"
  shows "mset (submitted_jobs s) = mset (dispatched_jobs s) + mset (map job_of (items (entries (jobs s)))) \<and>
         (\<forall>t s'. shipping_step s (Dispatch_expires t) = Some s' \<longrightarrow>
            jobs s' = jobs s \<and> shipping_log s' = shipping_log s @ [(t, Dispatched (Inr None))]) \<and>
         (\<forall>t s'. shipping_step s (Dispatch_cancelled t) = Some s' \<longrightarrow> jobs s' = jobs s)"
proof -
  from shipping_logged.invariant[OF refl assms] have "jobs_logged s" .
  with taken_once[OF shipping_jobs.core_ok[OF assms]]
  have "mset (submitted_jobs s) = mset (dispatched_jobs s) + mset (map job_of (items (entries (jobs s))))"
    by (metis jobs_logged_def)
  then show ?thesis by (auto simp: shipping_step_def split: if_splits)
qed

text \<open>
  A task that waits for a job is never stranded: as soon as a job is in the queue it can go
  on, and it then takes the job with the least priority and sequence number.
\<close>

lemma dispatch_takes_most_urgent:
  assumes "runs shipping_step init_shipping schedule = Some s"
    and "dispatching s t \<noteq> None" and "jobs_waiting s \<noteq> 0"
  shows "\<exists>e s'. shipping_step s (Dispatch_resumes t) = Some s' \<and>
           e \<in> set (items (entries (jobs s))) \<and>
           (\<forall>x \<in> set (items (entries (jobs s'))). entry_key e < entry_key x) \<and>
           shipping_log s' = shipping_log s @ [(t, Dispatched (Inr (Some (job_of e))))]"
proof -
  note ok = shipping_jobs.core_ok[OF assms(1)]
  from assms(3) have "items (entries (jobs s)) \<noteq> []"
    by (simp add: jobs_waiting_def waiting_count_def)
  then obtain e es where es: "items (entries (jobs s)) = e # es" by (auto simp: neq_Nil_conv)
  then obtain c where c: "take_entry (jobs s) = Some (e, c)"
    by (auto simp: take_entry_def get_now_def heap_pop_def)
  have "shipping_step s (Dispatch_resumes t) =
      Some (ship_says (s\<lparr>jobs := c\<rparr>) t (Dispatched (Inr (Some (job_of e)))))"
    using assms(2) c by (simp add: shipping_step_def take_job_def)
  moreover have "\<forall>x \<in> set (items (entries c)). entry_key e < entry_key x"
    by (rule take_most_urgent[OF ok c])
  ultimately show ?thesis using es
    by (intro exI[of _ e] exI[of _ "ship_says (s\<lparr>jobs := c\<rparr>) t (Dispatched (Inr (Some (job_of e))))"])
      simp
qed

text \<open>
  With a timeout of zero, \<open>dispatch_next\<close> returns \<open>None\<close> and takes nothing, however many jobs
  are waiting.
\<close>

lemma zero_timeout_takes_nothing:
  "jobs (dispatch_begin t (Some 0) s) = jobs s \<and>
   shipping_log (dispatch_begin t (Some 0) s) = shipping_log s @ [(t, Dispatched (Inr None))]"
  by (simp add: dispatch_begin_def)

definition parcel :: shipment_job where
  "parcel = \<lparr>shipment_id = ''S1'', order_id = ''O1'', ship_priority = 1, carrier = ''dhl''\<rparr>"

definition shipping_schedule :: "shipping_event list" where
  "shipping_schedule =
     [Dispatch 0 None, Dispatch 1 (Some 2), Dispatch_expires 1, Number_job 2 parcel, Put_job 2]"

definition shipping_end :: shipping where
  "shipping_end = the (runs shipping_step init_shipping shipping_schedule)"

lemma shipping_end_run:
  "runs shipping_step init_shipping shipping_schedule = Some shipping_end"
  "dispatching shipping_end 0 \<noteq> None" "jobs_waiting shipping_end \<noteq> 0"
  "items (entries (jobs shipping_end)) = [(1, 0, parcel)]" "dispatched_jobs shipping_end = []"
  by (simp_all add: shipping_end_def shipping_schedule_def shipping_defs init_shipping_def
      init_numbered_def empty_queue_def take_number_def enqueue_def take_entry_def queue_ops
      heap_push_def parcel_def jobs_waiting_def waiting_count_def dispatched_jobs_def)

lemma shipments_dispatched_once_witness:
  "mset (submitted_jobs shipping_end) = {#parcel#}"
  using shipments_dispatched_once[OF shipping_end_run(1)] shipping_end_run(4,5) by simp

lemma dispatch_takes_most_urgent_witness:
  "\<exists>e s'. shipping_step shipping_end (Dispatch_resumes 0) = Some s' \<and>
     e \<in> set (items (entries (jobs shipping_end))) \<and>
     shipping_log s' = shipping_log shipping_end @ [(0, Dispatched (Inr (Some (job_of e))))]"
  using dispatch_takes_most_urgent[OF shipping_end_run(1-3)] by blast

end
