(* ===== verification/Rollback.thy ===== *)
theory Rollback
  imports Py_Queue
begin

section \<open>deploymentrollback: cleanup in reverse order\<close>

text \<open>
  Models \<^verbatim>\<open>deploymentrollback/rollback.py\<close>: a stack of registered actions. The handler is a
  callable of the caller: \<open>handler\<close> gives its outcome for each action. The functions come
  first, as one thread executes them; then the machine in which workers register and run
  actions at the same time.
\<close>

record rollback_action =
  action_id :: string
  resource_id :: string
  description :: string

definition make_action :: "string \<Rightarrow> string \<Rightarrow> string \<Rightarrow> rollback_action result" where
  "make_action action resource descr =
     (if action = '''' then Inl (ValueError ''action_id must not be empty'')
      else if resource = '''' then Inl (ValueError ''resource_id must not be empty'')
      else if descr = '''' then Inl (ValueError ''description must not be empty'')
      else Inr \<lparr>action_id = action, resource_id = resource, description = descr\<rparr>)"

type_synonym stack = "rollback_action pyq"

definition init_rollback :: stack where
  "init_rollback = empty_queue 0"

definition register :: "rollback_action \<Rightarrow> stack \<Rightarrow> stack" where
  "register action q = snd (put_nowait lifo_push action q)"

definition rollback_size :: "stack \<Rightarrow> nat" where
  "rollback_size q = length (items q)"

text \<open>The result, the stack afterwards, and the actions whose handler was called.\<close>

definition run_next ::
  "(rollback_action \<Rightarrow> unit result) \<Rightarrow> stack \<Rightarrow> bool result \<times> stack \<times> rollback_action list" where
  "run_next handler q =
     (case get_nowait lifo_pop q of
        (Inl e, q') \<Rightarrow> (if e = QueueEmpty then Inr False else Inl e, q', [])
      | (Inr action, q') \<Rightarrow>
          (case queue_task_done q' of
             (Inl e, q'') \<Rightarrow> (Inl e, q'', [action])
           | (Inr _, q'') \<Rightarrow>
               (case handler action of
                  Inl e \<Rightarrow> (Inl e, q'', [action])
                | Inr _ \<Rightarrow> (Inr True, q'', [action]))))"

lemma run_next_shrinks:
  "run_next handler q = (Inr True, q', called) \<Longrightarrow> length (items q') < length (items q)"
  by (auto simp: run_next_def get_nowait_def get_now_def queue_task_done_def lifo_pop_def
      split: if_splits sum.splits prod.splits)

text \<open>The loop of \<open>drain\<close>, with its counter.\<close>

function drain ::
  "(rollback_action \<Rightarrow> unit result) \<Rightarrow> int \<Rightarrow> stack \<Rightarrow> int result \<times> stack \<times> rollback_action list" where
  "drain handler completed q =
     (case run_next handler q of
        (Inl e, q', called) \<Rightarrow> (Inl e, q', called)
      | (Inr False, q', called) \<Rightarrow> (Inr completed, q', called)
      | (Inr True, q', called) \<Rightarrow>
          (case drain handler (completed + 1) q' of
             (r, q'', rest) \<Rightarrow> (r, q'', called @ rest)))"
  by pat_completeness auto
termination
  by (relation "measure (\<lambda>(handler, completed, q). length (items q))")
    (auto dest: run_next_shrinks[OF sym])

declare drain.simps [simp del]

text \<open>What undoing the actions in a given order does: it stops after the first failure.\<close>

definition undone :: "(rollback_action \<Rightarrow> unit result) \<Rightarrow> rollback_action list \<Rightarrow> rollback_action list" where
  "undone handler as = takeWhile (\<lambda>a. handler a = Inr ()) as"

lemma run_next_snoc:
  assumes "items q = xs @ [a]" and "length (items q) \<le> unfinished q"
  shows "run_next handler q =
     (case handler a of Inl e \<Rightarrow> Inl e | Inr _ \<Rightarrow> Inr True,
      q\<lparr>items := xs, unfinished := unfinished q - 1\<rparr>, [a])"
  using assms by (auto simp: run_next_def get_nowait_def get_now_def lifo_pop_def queue_task_done_def
      split: sum.splits)

lemma run_next_empty:
  "items q = [] \<Longrightarrow> \<not> shut q \<Longrightarrow> run_next handler q = (Inr False, q, [])"
  by (simp add: run_next_def get_nowait_def get_now_def)

lemma drain_eq:
  assumes "length (items q) \<le> unfinished q" and "\<not> shut q"
  shows "drain handler n q =
    (let as = rev (items q); ok = undone handler as; left = drop (length ok) as in
       case left of
         [] \<Rightarrow> (Inr (n + int (length as)),
                q\<lparr>items := [], unfinished := unfinished q - length as\<rparr>, as)
       | a # rest \<Rightarrow> (Inl (projl (handler a)),
                q\<lparr>items := rev rest, unfinished := unfinished q - length ok - 1\<rparr>, ok @ [a]))"
  using assms
proof (induction "items q" arbitrary: q n rule: rev_induct)
  case Nil
  then have "items q = []" by simp
  with run_next_empty[OF this] Nil.prems show ?case
    by (subst drain.simps) (simp add: undone_def Let_def)
next
  case (snoc a xs)
  note q = snoc.hyps(2)[symmetric]
  let ?q = "q\<lparr>items := xs, unfinished := unfinished q - 1\<rparr>"
  note run = run_next_snoc[OF q snoc.prems(1), of handler]
  show ?case
  proof (cases "handler a")
    case (Inl e)
    with run q show ?thesis by (subst drain.simps) (simp add: undone_def Let_def)
  next
    case (Inr u)
    let ?ok = "undone handler (rev xs)"
    from snoc.prems q have fits: "length (items ?q) \<le> unfinished ?q" by simp
    have ih: "drain handler (n + 1) ?q =
      (let as = rev (items ?q); ok = undone handler as; left = drop (length ok) as in
       case left of
         [] \<Rightarrow> (Inr (n + 1 + int (length as)),
                ?q\<lparr>items := [], unfinished := unfinished ?q - length as\<rparr>, as)
       | a # rest \<Rightarrow> (Inl (projl (handler a)),
                ?q\<lparr>items := rev rest, unfinished := unfinished ?q - length ok - 1\<rparr>, ok @ [a]))"
      by (rule snoc.hyps(1)[OF _ fits]) (use snoc.prems in simp_all)
    have one: "drain handler n q = (case drain handler (n + 1) ?q of (r, q'', rest) \<Rightarrow> (r, q'', a # rest))"
      using Inr run by (subst drain.simps) simp
    have ok: "undone handler (rev (items q)) = a # ?ok" using Inr q by (simp add: undone_def)
    show ?thesis
      using ih one ok q by (cases "drop (length ?ok) (rev xs)") (simp_all add: Let_def)
  qed
qed

subsection \<open>Threads that register and run at the same time\<close>

text \<open>
  Each thread has its stack of open calls, innermost first: \<open>In_loop\<close> is \<open>drain\<close> with its
  counter, \<open>In_handler\<close> is \<open>run_next\<close> while its handler runs. A handler is code of the
  caller, so it may register actions or call \<open>run_next\<close> and \<open>drain\<close> again, from inside.
  The lists of actions in a frame and in a reply are history variables: what this call of
  \<open>drain\<close> or \<open>run_next\<close> has undone.
\<close>

datatype frame =
    In_loop int "rollback_action list"
  | In_handler rollback_action

datatype reply =
    Next_said "bool result" "rollback_action list"
  | Drain_said "int result" "rollback_action list"

record rollback =
  stack :: stack
  calls :: "frame list list"
  replies :: "(tid \<times> reply) list"
  registered :: "rollback_action list"
  begun :: "rollback_action list"
  ended :: "(rollback_action \<times> unit result) list"

definition fresh_rollback :: "nat \<Rightarrow> rollback" where
  "fresh_rollback threads =
     \<lparr>stack = init_rollback, calls = replicate threads [], replies = [], registered = [],
      begun = [], ended = []\<rparr>"

datatype rollback_event =
    Register tid rollback_action
  | Call_drain tid
  | Take_action tid
  | Handler_ends tid "unit result"
  | Join_ends tid

text \<open>What the return of \<open>run_next\<close> does in its caller: in the loop of \<open>drain\<close>, or elsewhere.\<close>

fun next_returns ::
  "bool result \<Rightarrow> rollback_action list \<Rightarrow> frame list \<Rightarrow> frame list \<times> reply list" where
  "next_returns (Inr True) as (In_loop n acts # fs) = (In_loop (n + 1) (acts @ as) # fs, [])"
| "next_returns (Inr False) as (In_loop n acts # fs) = (fs, [Drain_said (Inr n) acts])"
| "next_returns (Inl e) as (In_loop n acts # fs) = (fs, [Drain_said (Inl e) acts])"
| "next_returns r as fs = (fs, [Next_said r as])"

definition return_to :: "tid \<Rightarrow> bool result \<Rightarrow> rollback_action list \<Rightarrow> frame list \<Rightarrow> rollback \<Rightarrow> rollback" where
  "return_to t r as fs s =
     (case next_returns r as fs of (fs', rs) \<Rightarrow>
        s\<lparr>calls := (calls s)[t := fs'], replies := replies s @ map (Pair t) rs\<rparr>)"

text \<open>The code of the caller runs outside of all calls and inside of a handler.\<close>

fun user_code :: "frame list \<Rightarrow> bool" where
  "user_code (In_loop n acts # fs) = False"
| "user_code fs = True"

definition at_user_code :: "rollback \<Rightarrow> tid \<Rightarrow> bool" where
  "at_user_code s t \<longleftrightarrow> t < length (calls s) \<and> user_code (calls s ! t)"

text \<open>
  \<open>run_next\<close> is \<open>Take_action\<close> and, if there was an action, \<open>Handler_ends\<close> with \<open>task_done\<close>;
  it is called by \<open>drain\<close> or by the code of the caller, whatever is on top of the stack of
  calls.
\<close>

definition take_action :: "tid \<Rightarrow> rollback \<Rightarrow> rollback" where
  "take_action t s =
     (case get_nowait lifo_pop (stack s) of
        (Inr a, q) \<Rightarrow>
          s\<lparr>stack := q, calls := (calls s)[t := In_handler a # calls s ! t], begun := begun s @ [a]\<rparr>
      | (Inl e, q) \<Rightarrow>
          return_to t (if e = QueueEmpty then Inr False else Inl e) [] (calls s ! t) (s\<lparr>stack := q\<rparr>))"

definition action_ends :: "tid \<Rightarrow> rollback_action \<Rightarrow> unit result \<Rightarrow> frame list \<Rightarrow> rollback \<Rightarrow> rollback" where
  "action_ends t a r fs s =
     (let s' = s\<lparr>stack := snd (queue_task_done (stack s)), ended := ended s @ [(a, r)]\<rparr> in
        case r of
          Inr _ \<Rightarrow> return_to t (Inr True) [a] fs s'
        | Inl e \<Rightarrow> return_to t (Inl e) [] fs s')"

definition rollback_step :: "rollback \<Rightarrow> rollback_event \<Rightarrow> rollback option" where
  "rollback_step s e =
     (case e of
        Register t a \<Rightarrow>
          if at_user_code s t
          then Some (s\<lparr>stack := register a (stack s), registered := registered s @ [a]\<rparr>) else None
      | Call_drain t \<Rightarrow>
          if at_user_code s t
          then Some (s\<lparr>calls := (calls s)[t := In_loop 0 [] # calls s ! t]\<rparr>) else None
      | Take_action t \<Rightarrow> if t < length (calls s) then Some (take_action t s) else None
      | Handler_ends t r \<Rightarrow>
          if t < length (calls s)
          then (case calls s ! t of
                  In_handler a # fs \<Rightarrow> Some (action_ends t a r fs s)
                | _ \<Rightarrow> None)
          else None
      | Join_ends t \<Rightarrow> if at_user_code s t \<and> unfinished (stack s) = 0 then Some s else None)"

subsection \<open>Invariant\<close>

fun frame_action :: "frame \<Rightarrow> rollback_action list" where
  "frame_action (In_handler a) = [a]"
| "frame_action (In_loop n acts) = []"

fun counted_in :: "frame \<Rightarrow> rollback_action list" where
  "counted_in (In_handler a) = []"
| "counted_in (In_loop n acts) = acts"

fun reported :: "reply \<Rightarrow> rollback_action list" where
  "reported (Next_said r as) = as"
| "reported (Drain_said r as) = as"

definition in_progress :: "rollback \<Rightarrow> rollback_action list" where
  "in_progress s = concat (map (concat \<circ> map frame_action) (calls s))"

definition in_drains :: "rollback \<Rightarrow> rollback_action list" where
  "in_drains s = concat (map (concat \<circ> map counted_in) (calls s))"

definition undone_by :: "(tid \<times> reply) list \<Rightarrow> rollback_action list" where
  "undone_by rs = concat (map (reported \<circ> snd) rs)"

definition undone_in :: "(rollback_action \<times> unit result) list \<Rightarrow> rollback_action list" where
  "undone_in es = map fst (filter (\<lambda>(a, r). r = Inr ()) es)"

fun frame_exact :: "frame \<Rightarrow> bool" where
  "frame_exact (In_loop n acts) \<longleftrightarrow> n = int (length acts)"
| "frame_exact (In_handler a) \<longleftrightarrow> True"

fun reply_exact :: "reply \<Rightarrow> bool" where
  "reply_exact (Next_said r as) \<longleftrightarrow> length as = (if r = Inr True then 1 else 0)"
| "reply_exact (Drain_said (Inr n) as) \<longleftrightarrow> n = int (length as)"
| "reply_exact (Drain_said (Inl e) as) \<longleftrightarrow> True"

definition rollback_ok :: "rollback \<Rightarrow> bool" where
  "rollback_ok s \<longleftrightarrow>
     \<not> shut (stack s) \<and> maxsize (stack s) = 0 \<and>
     mset (registered s) = mset (begun s) + mset (items (stack s)) \<and>
     mset (begun s) = mset (in_progress s) + mset (map fst (ended s)) \<and>
     unfinished (stack s) = length (items (stack s)) + length (in_progress s) \<and>
     mset (undone_in (ended s)) = mset (in_drains s) + mset (undone_by (replies s)) \<and>
     list_all (list_all frame_exact) (calls s) \<and> list_all (reply_exact \<circ> snd) (replies s)"

lemma rollback_ok_start: "s = fresh_rollback threads \<Longrightarrow> rollback_ok s"
  by (simp add: rollback_ok_def fresh_rollback_def init_rollback_def empty_queue_def in_progress_def
      in_drains_def undone_by_def undone_in_def list_all_length)

text \<open>Replacing the stack of calls of one thread.\<close>

lemma calls_update:
  assumes "t < length (calls s)" and "calls s' = (calls s)[t := fs]"
  shows "mset (in_progress s') + mset (concat (map frame_action (calls s ! t))) =
           mset (in_progress s) + mset (concat (map frame_action fs))"
    and "mset (in_drains s') + mset (concat (map counted_in (calls s ! t))) =
           mset (in_drains s) + mset (concat (map counted_in fs))"
    and "list_all (list_all frame_exact) (calls s) \<Longrightarrow> list_all frame_exact fs \<Longrightarrow>
         list_all (list_all frame_exact) (calls s')"
proof -
  show "mset (in_progress s') + mset (concat (map frame_action (calls s ! t))) =
      mset (in_progress s) + mset (concat (map frame_action fs))"
    using mset_concat_update[OF assms(1), of "concat \<circ> map frame_action" fs] assms(2)
    by (simp add: in_progress_def)
  show "mset (in_drains s') + mset (concat (map counted_in (calls s ! t))) =
      mset (in_drains s) + mset (concat (map counted_in fs))"
    using mset_concat_update[OF assms(1), of "concat \<circ> map counted_in" fs] assms(2)
    by (simp add: in_drains_def)
  show "list_all (list_all frame_exact) (calls s')"
    if "list_all (list_all frame_exact) (calls s)" "list_all frame_exact fs"
    using that assms by (auto simp: list_all_length nth_list_update)
qed

text \<open>The return of \<open>run_next\<close> passes what was undone on to the caller and its exact count.\<close>

lemma next_returns_ok:
  assumes "next_returns r as fs = (fs', rs)" and "length as = (if r = Inr True then 1 else 0)"
    and "list_all frame_exact fs"
  shows "concat (map frame_action fs') = concat (map frame_action fs)"
    and "mset (concat (map counted_in fs')) + mset (concat (map reported rs)) =
           mset (concat (map counted_in fs)) + mset as"
    and "list_all frame_exact fs'" and "list_all reply_exact rs"
  using assms by (cases "(r, as, fs)" rule: next_returns.cases; auto)+

lemma mset_transfer:
  assumes "X + (I + F) = D + F'" and "F' + R = F + A"
  shows "X + R + I = D + (A :: 'a multiset)"
proof (rule multiset_eqI)
  fix a
  show "count (X + R + I) a = count (D + A) a"
    using arg_cong[OF assms(1), of "\<lambda>m. count m a"] arg_cong[OF assms(2), of "\<lambda>m. count m a"] by simp
qed

lemma return_to_fields [simp]:
  "stack (return_to t r as fs s) = stack s" "registered (return_to t r as fs s) = registered s"
  "begun (return_to t r as fs s) = begun s" "ended (return_to t r as fs s) = ended s"
  "length (calls (return_to t r as fs s)) = length (calls s)"
  by (cases "next_returns r as fs", simp add: return_to_def)+

lemma return_to_ok:
  assumes t: "t < length (calls s)" and exact: "list_all (list_all frame_exact) (calls s)"
    and "list_all (reply_exact \<circ> snd) (replies s)" and len: "length as = (if r = Inr True then 1 else 0)"
    and fs: "calls s ! t = inner @ fs"
  shows "mset (in_progress (return_to t r as fs s)) + mset (concat (map frame_action inner)) = mset (in_progress s)"
    and "mset (in_drains (return_to t r as fs s)) + mset (undone_by (replies (return_to t r as fs s))) +
           mset (concat (map counted_in inner)) = mset (in_drains s) + mset (undone_by (replies s)) + mset as"
    and "list_all (list_all frame_exact) (calls (return_to t r as fs s))"
    and "list_all (reply_exact \<circ> snd) (replies (return_to t r as fs s))"
proof -
  obtain fs' rs where ret: "next_returns r as fs = (fs', rs)" by fastforce
  have "list_all frame_exact (calls s ! t)" using exact t by (simp add: list_all_length)
  with fs have "list_all frame_exact fs" by simp
  note ok = next_returns_ok[OF ret len this]
  let ?s = "return_to t r as fs s"
  have s': "calls ?s = (calls s)[t := fs']" "replies ?s = replies s @ map (Pair t) rs"
    using ret by (simp_all add: return_to_def)
  note upd = calls_update[OF t s'(1)]
  have undone: "undone_by (replies ?s) = undone_by (replies s) @ concat (map reported rs)"
    using s'(2) by (simp add: undone_by_def comp_def)
  show "mset (in_progress ?s) + mset (concat (map frame_action inner)) = mset (in_progress s)"
    using upd(1) ok(1) fs by simp
  show "mset (in_drains ?s) + mset (undone_by (replies ?s)) + mset (concat (map counted_in inner)) =
      mset (in_drains s) + mset (undone_by (replies s)) + mset as"
    using mset_transfer[OF _ ok(2), of "mset (in_drains ?s)" "mset (concat (map counted_in inner))"
        "mset (in_drains s)"] upd(2) fs undone
    by (simp add: ac_simps)
  show "list_all (list_all frame_exact) (calls ?s)" by (rule upd(3)[OF exact ok(3)])
  show "list_all (reply_exact \<circ> snd) (replies ?s)"
    using s'(2) ok(4) assms(3) by (auto simp: list_all_iff)
qed

lemma rollback_okD:
  assumes "rollback_ok s"
  shows "list_all (list_all frame_exact) (calls s)" "list_all (reply_exact \<circ> snd) (replies s)"
    "\<not> shut (stack s)" "maxsize (stack s) = 0"
  using assms by (simp_all add: rollback_ok_def)

lemma take_action_empty:
  assumes "items (stack s) = []" and "\<not> shut (stack s)"
  shows "take_action t s = return_to t (Inr False) [] (calls s ! t) s"
  using assms by (simp add: take_action_def get_nowait_def get_now_def)

lemma take_action_snoc:
  assumes "items (stack s) = xs @ [a]"
  shows "take_action t s = s\<lparr>stack := (stack s)\<lparr>items := xs\<rparr>,
    calls := (calls s)[t := In_handler a # calls s ! t], begun := begun s @ [a]\<rparr>"
  using assms by (simp add: take_action_def get_nowait_def get_now_def lifo_pop_def)

lemma take_action_ok:
  assumes ok: "rollback_ok s" and t: "t < length (calls s)"
  shows "rollback_ok (take_action t s)"
proof (cases "items (stack s)" rule: rev_cases)
  case Nil
  have "length [] = (if Inr False = (Inr True :: bool result) then 1 else (0 :: nat))"
      "calls s ! t = [] @ calls s ! t" by simp_all
  note ret = return_to_ok[OF t rollback_okD(1,2)[OF ok] this]
  from ret take_action_empty[OF Nil rollback_okD(3)[OF ok], of t] ok show ?thesis
    by (simp add: rollback_ok_def flip: size_mset)
next
  case (snoc xs a)
  let ?s = "take_action t s"
  note s' = take_action_snoc[OF snoc, of t]
  then have "calls ?s = (calls s)[t := In_handler a # calls s ! t]" by simp
  note upd = calls_update[OF t this]
  have "list_all frame_exact (calls s ! t)" using rollback_okD(1)[OF ok] t by (simp add: list_all_length)
  with upd(3) rollback_okD(1)[OF ok] have "list_all (list_all frame_exact) (calls ?s)" by simp
  moreover from upd(1) have run: "mset (in_progress ?s) = add_mset a (mset (in_progress s))" by simp
  moreover from upd(2) have "mset (in_drains ?s) = mset (in_drains s)" by simp
  moreover from run have "length (in_progress ?s) = Suc (length (in_progress s))"
    by (metis size_add_mset size_mset)
  ultimately show ?thesis using ok s' snoc by (simp add: rollback_ok_def)
qed

lemma action_ends_ok:
  assumes ok: "rollback_ok s" and t: "t < length (calls s)" and fs: "calls s ! t = In_handler a # fs"
  shows "rollback_ok (action_ends t a r fs s)"
proof -
  let ?r = "case r of Inr _ \<Rightarrow> Inr True | Inl e \<Rightarrow> Inl e"
  let ?as = "case r of Inr _ \<Rightarrow> [a] | Inl e \<Rightarrow> []"
  let ?s1 = "s\<lparr>stack := snd (queue_task_done (stack s)), ended := ended s @ [(a, r)]\<rparr>"
  let ?s = "action_ends t a r fs s"
  have s': "?s = return_to t ?r ?as fs ?s1"
    by (simp add: action_ends_def Let_def split: sum.split)
  have "t < length (calls ?s1)" "list_all (list_all frame_exact) (calls ?s1)"
      "list_all (reply_exact \<circ> snd) (replies ?s1)" "calls ?s1 ! t = [In_handler a] @ fs"
      "length ?as = (if ?r = Inr True then 1 else 0)"
    using t rollback_okD[OF ok] fs by (simp_all split: sum.split)
  note ret = return_to_ok[OF this(1-3,5,4)]
  have same: "in_progress ?s1 = in_progress s" "in_drains ?s1 = in_drains s" by (simp_all add: in_progress_def in_drains_def)
  from ret(1) have run: "mset (in_progress s) = add_mset a (mset (in_progress ?s))" by (simp add: s' same)
  then have len: "length (in_progress s) = Suc (length (in_progress ?s))" by (metis size_add_mset size_mset)
  from ret(2) have und: "mset (in_drains ?s) + mset (undone_by (replies ?s)) =
      mset (in_drains s) + mset (undone_by (replies s)) + mset ?as" by (simp add: s' same)
  have succ: "mset (undone_in (ended s @ [(a, r)])) = mset (undone_in (ended s)) + mset ?as"
    by (simp add: undone_in_def split: sum.split)
  have "stack ?s = snd (queue_task_done (stack s))" "registered ?s = registered s" "begun ?s = begun s"
      "ended ?s = ended s @ [(a, r)]" by (simp_all add: s')
  with ok run len und succ ret(3,4)[folded s'] show ?thesis
    by (simp add: rollback_ok_def queue_task_done_def)
qed

lemma rollback_ok_step:
  assumes ok: "rollback_ok s" and step: "rollback_step s e = Some s'"
  shows "rollback_ok s'"
proof (cases e)
  case (Register t a)
  with assms show ?thesis
    by (auto simp: rollback_step_def rollback_ok_def register_def put_nowait_def put_now_def full_def
        lifo_push_def in_progress_def in_drains_def split: if_splits)
next
  case (Call_drain t)
  with step have t: "t < length (calls s)" and s': "s' = s\<lparr>calls := (calls s)[t := In_loop 0 [] # calls s ! t]\<rparr>"
    by (auto simp: rollback_step_def at_user_code_def split: if_splits)
  then have "calls s' = (calls s)[t := In_loop 0 [] # calls s ! t]" by simp
  note upd = calls_update[OF t this]
  have "list_all frame_exact (calls s ! t)" using rollback_okD(1)[OF ok] t by (simp add: list_all_length)
  with upd(3) rollback_okD(1)[OF ok] have "list_all (list_all frame_exact) (calls s')" by simp
  moreover from upd(1) have run: "mset (in_progress s') = mset (in_progress s)" by simp
  moreover from run have "length (in_progress s') = length (in_progress s)" by (metis size_mset)
  moreover from upd(2) have "mset (in_drains s') = mset (in_drains s)" by simp
  ultimately show ?thesis using ok s' by (simp add: rollback_ok_def)
next
  case (Take_action t)
  with assms take_action_ok show ?thesis by (auto simp: rollback_step_def split: if_splits)
next
  case (Handler_ends t r)
  with assms action_ends_ok show ?thesis
    by (auto simp: rollback_step_def split: if_splits list.splits frame.splits)
next
  case (Join_ends t)
  with assms show ?thesis by (auto simp: rollback_step_def split: if_splits)
qed

interpretation rollbacks: invariant_machine rollback_step "\<lambda>s. \<exists>n. s = fresh_rollback n" rollback_ok
  by unfold_locales (auto intro: rollback_ok_start rollback_ok_step)

subsection \<open>A drain that nobody disturbs\<close>

fun drain_events ::
  "tid \<Rightarrow> (rollback_action \<Rightarrow> unit result) \<Rightarrow> rollback_action list \<Rightarrow> rollback_event list" where
  "drain_events t handler [] = [Take_action t]"
| "drain_events t handler (a # as) =
     Take_action t # Handler_ends t (handler a) #
       (case handler a of Inl e \<Rightarrow> [] | Inr _ \<Rightarrow> drain_events t handler as)"

lemma loop_is_drain:
  assumes "t < length (calls s)" and "calls s ! t = In_loop n acts # fs"
    and "\<not> shut (stack s)" and "length (items (stack s)) \<le> unfinished (stack s)"
    and "drain handler n (stack s) = (r, q, called)"
  shows "\<exists>s' acts'. runs rollback_step s (drain_events t handler (rev (items (stack s)))) = Some s' \<and>
    stack s' = q \<and> calls s' = (calls s)[t := fs] \<and> begun s' = begun s @ called \<and>
    replies s' = replies s @ [(t, Drain_said r acts')]"
  using assms
proof (induction "items (stack s)" arbitrary: s n acts called rule: rev_induct)
  case Nil
  then have empty: "items (stack s) = []" by simp
  from Nil.prems(5) run_next_empty[OF empty Nil.prems(3), of handler]
  have "r = Inr n" "q = stack s" "called = []"
    by (simp_all add: drain.simps[of handler n "stack s"])
  with Nil.prems take_action_empty[OF empty Nil.prems(3), of t] empty show ?case
    by (simp add: rollback_step_def return_to_def)
next
  case (snoc a xs)
  note q = snoc.hyps(2)[symmetric]
  let ?q = "(stack s)\<lparr>items := xs, unfinished := unfinished (stack s) - 1\<rparr>"
  let ?s1 = "take_action t s"
  let ?s2 = "action_ends t a (handler a) (In_loop n acts # fs) ?s1"
  note run = run_next_snoc[OF q snoc.prems(4), of handler]
  note taken = take_action_snoc[OF q, of t]
  have pos: "unfinished (stack s) \<noteq> 0" using q snoc.prems(4) by auto
  have steps: "rollback_step s (Take_action t) = Some ?s1"
      "rollback_step ?s1 (Handler_ends t (handler a)) = Some ?s2"
    using taken snoc.prems(1,2) by (simp_all add: rollback_step_def)
  have sched: "rev (items (stack s)) = a # rev xs" using q by simp
  show ?case
  proof (cases "handler a")
    case (Inl e)
    with snoc.prems(5) run have "r = Inl e" "q = ?q" "called = [a]"
      by (simp_all add: drain.simps[of handler n "stack s"])
    with steps Inl sched taken pos show ?thesis
      by (simp add: action_ends_def return_to_def queue_task_done_def snoc.prems)
  next
    case (Inr u)
    obtain called' where rest: "drain handler (n + 1) ?q = (r, q, called')" "called = a # called'"
      using Inr snoc.prems(5) run
      by (auto simp: drain.simps[of handler n "stack s"] split: prod.splits)
    have s2: "stack ?s2 = ?q" "calls ?s2 = (calls s)[t := In_loop (n + 1) (acts @ [a]) # fs]"
        "begun ?s2 = begun s @ [a]" "replies ?s2 = replies s"
      using Inr taken pos by (simp_all add: action_ends_def return_to_def queue_task_done_def)
    have "\<exists>s' acts'. runs rollback_step ?s2 (drain_events t handler (rev (items (stack ?s2)))) = Some s' \<and>
        stack s' = q \<and> calls s' = (calls ?s2)[t := fs] \<and> begun s' = begun ?s2 @ called' \<and>
        replies s' = replies ?s2 @ [(t, Drain_said r acts')]"
      by (rule snoc.hyps(1)[where n = "n + 1" and acts = "acts @ [a]"])
        (use snoc.prems s2 rest(1) q in simp_all)
    with steps Inr sched s2 rest(2) show ?thesis by simp
  qed
qed

subsection \<open>Properties\<close>

text \<open>
  C7. A drain runs the registered actions in reverse order of registration. If every handler
  succeeds it empties the stack and returns the number of actions; otherwise it stops at the
  first handler that raises, passes its exception on, has marked that action as done too, and
  leaves the earlier actions registered.
\<close>

theorem drain_undoes_in_reverse:
  assumes "\<not> shut q" and "length (items q) \<le> unfinished q"
    and "undone handler (rev (items q)) = ok"
  shows "(ok = rev (items q) \<longrightarrow>
            drain handler 0 q =
              (Inr (int (length (items q))),
               q\<lparr>items := [], unfinished := unfinished q - length (items q)\<rparr>, rev (items q))) \<and>
         (\<forall>a rest. rev (items q) = ok @ a # rest \<longrightarrow>
            drain handler 0 q =
              (Inl (projl (handler a)),
               q\<lparr>items := rev rest, unfinished := unfinished q - length ok - 1\<rparr>, ok @ [a]))"
proof (intro conjI impI allI)
  show "drain handler 0 q = (Inr (int (length (items q))),
      q\<lparr>items := [], unfinished := unfinished q - length (items q)\<rparr>, rev (items q))"
    if "ok = rev (items q)"
    using drain_eq[OF assms(2,1), of handler 0] assms(3) that by (simp add: Let_def)
  show "drain handler 0 q = (Inl (projl (handler a)),
      q\<lparr>items := rev rest, unfinished := unfinished q - length ok - 1\<rparr>, ok @ [a])"
    if "rev (items q) = ok @ a # rest" for a rest
  proof -
    from that have "drop (length ok) (rev (items q)) = a # rest" by simp
    with drain_eq[OF assms(2,1), of handler 0] assms(3) show ?thesis by (simp add: Let_def)
  qed
qed

text \<open>
  C23. Each registered action runs at most once, under every interleaving of threads: the
  registered actions are, as a multiset, those pending, those running and those that have
  ended; a thread always takes the pending action that was registered last; and \<open>join\<close>
  returns only when none is pending and none is running, so never inside of a handler.
\<close>

theorem rollback_runs_once:
  assumes "runs rollback_step (fresh_rollback threads) schedule = Some s"
  shows "mset (registered s) =
           mset (items (stack s)) + mset (in_progress s) + mset (map fst (ended s)) \<and>
         (rollback_step s (Take_action t) = Some s' \<and> items (stack s) \<noteq> [] \<longrightarrow>
            begun s' = begun s @ [last (items (stack s))] \<and>
            items (stack s') = butlast (items (stack s))) \<and>
         (rollback_step s (Join_ends t) \<noteq> None \<longrightarrow>
            items (stack s) = [] \<and> in_progress s = [] \<and> calls s ! t = [])"
proof -
  from rollbacks.invariant[OF _ assms] have ok: "rollback_ok s" by blast
  then have "mset (registered s) =
      mset (items (stack s)) + mset (in_progress s) + mset (map fst (ended s))"
    by (simp add: rollback_ok_def ac_simps)
  moreover have "begun s' = begun s @ [last (items (stack s))] \<and> items (stack s') = butlast (items (stack s))"
    if "rollback_step s (Take_action t) = Some s'" "items (stack s) \<noteq> []"
  proof -
    from that(1) have "s' = take_action t s" by (auto simp: rollback_step_def split: if_splits)
    moreover have "items (stack s) = butlast (items (stack s)) @ [last (items (stack s))]"
      using that(2) by simp
    note take_action_snoc[OF this, of t]
    ultimately show ?thesis by simp
  qed
  moreover have "items (stack s) = [] \<and> in_progress s = [] \<and> calls s ! t = []"
    if "rollback_step s (Join_ends t) \<noteq> None"
  proof -
    from that ok have none: "items (stack s) = []" "in_progress s = []" and t: "at_user_code s t"
      by (auto simp: rollback_step_def rollback_ok_def split: if_splits)
    from t none(2) have "concat (map frame_action (calls s ! t)) = []"
      by (auto simp: in_progress_def at_user_code_def)
    with t have "calls s ! t = []" unfolding at_user_code_def
      by (cases "calls s ! t" rule: user_code.cases) auto
    with none show ?thesis by simp
  qed
  ultimately show ?thesis by blast
qed

text \<open>
  C24. The count that \<open>drain\<close> returns is exact, under every interleaving and however the calls
  are nested: it is the number of the actions that this call has undone successfully, and
  \<open>run_next\<close> returns true for exactly one; each action undone successfully is counted by
  exactly one call. A drain returns its count at a moment when no action is registered at all:
  it also runs what was registered after it began.
\<close>

theorem drain_counts_what_it_undid:
  assumes "runs rollback_step (fresh_rollback threads) schedule = Some s"
  shows "list_all (reply_exact \<circ> snd) (replies s) \<and>
         mset (undone_in (ended s)) = mset (in_drains s) + mset (undone_by (replies s)) \<and>
         (rollback_step s (Take_action t) = Some s' \<and>
            replies s' = replies s @ [(t, Drain_said (Inr n) acts)] \<longrightarrow>
            items (stack s') = [] \<and> n = int (length acts))"
proof -
  from rollbacks.invariant[OF _ assms] have ok: "rollback_ok s" by blast
  have "items (stack s') = [] \<and> n = int (length acts)"
    if step: "rollback_step s (Take_action t) = Some s'"
      and r: "replies s' = replies s @ [(t, Drain_said (Inr n) acts)]"
  proof -
    from rollback_ok_step[OF ok step] r have "n = int (length acts)" by (simp add: rollback_ok_def)
    moreover from step have "s' = take_action t s" by (auto simp: rollback_step_def split: if_splits)
    with r have "items (stack s') = []"
      using take_action_empty[OF _ rollback_okD(3)[OF ok], of t]
      by (cases "items (stack s)" rule: rev_cases) (auto dest: take_action_snoc[of s _ _ t])
    ultimately show ?thesis by simp
  qed
  with ok show ?thesis by (auto simp: rollback_ok_def)
qed

text \<open>
  In the interleaved machine a drain that no other thread disturbs does what the function
  \<open>drain\<close> computes: the same result, the same stack, the same actions in the same order.
\<close>

lemma undisturbed_drain_is_drain:
  assumes "runs rollback_step (fresh_rollback threads) schedule = Some s" and "at_user_code s t"
    and "drain handler 0 (stack s) = (r, q, called)"
  shows "\<exists>s' acts.
    runs rollback_step s (Call_drain t # drain_events t handler (rev (items (stack s)))) = Some s' \<and>
    stack s' = q \<and> calls s' = calls s \<and> begun s' = begun s @ called \<and>
    replies s' = replies s @ [(t, Drain_said r acts)]"
proof -
  from rollbacks.invariant[OF _ assms(1)] have ok: "rollback_ok s" by blast
  let ?s = "s\<lparr>calls := (calls s)[t := In_loop 0 [] # calls s ! t]\<rparr>"
  have t: "t < length (calls s)" using assms(2) by (simp add: at_user_code_def)
  have "rollback_step s (Call_drain t) = Some ?s" using assms(2) by (simp add: rollback_step_def)
  moreover have "\<exists>s' acts. runs rollback_step ?s (drain_events t handler (rev (items (stack ?s)))) = Some s' \<and>
      stack s' = q \<and> calls s' = (calls ?s)[t := calls s ! t] \<and> begun s' = begun ?s @ called \<and>
      replies s' = replies ?s @ [(t, Drain_said r acts)]"
    by (rule loop_is_drain) (use ok t assms(3) in \<open>simp_all add: rollback_ok_def\<close>)
  ultimately show ?thesis by simp
qed

definition db_action :: rollback_action where
  "db_action = \<lparr>action_id = ''a1'', resource_id = ''db'', description = ''restore''\<rparr>"

definition dns_action :: rollback_action where
  "dns_action = \<lparr>action_id = ''a2'', resource_id = ''dns'', description = ''repoint''\<rparr>"

definition two_actions :: stack where
  "two_actions = register dns_action (register db_action init_rollback)"

definition dns_fails :: "rollback_action \<Rightarrow> unit result" where
  "dns_fails a = (if resource_id a = ''dns'' then Inl (UserError ''ttl'') else Inr ())"

lemma two_actions_eq: "two_actions = \<lparr>items = [db_action, dns_action], maxsize = 0, unfinished = 2, shut = False\<rparr>"
  by (simp add: two_actions_def register_def put_nowait_def put_now_def full_def lifo_push_def
      init_rollback_def empty_queue_def)

theorem drain_undoes_in_reverse_witness:
  "drain dns_fails 0 two_actions =
     (Inl (UserError ''ttl''), two_actions\<lparr>items := [db_action], unfinished := 1\<rparr>, [dns_action])"
proof -
  have "undone dns_fails (rev (items two_actions)) = []"
    by (simp add: two_actions_eq undone_def dns_fails_def dns_action_def)
  from drain_undoes_in_reverse[OF _ _ this] show ?thesis
    by (simp add: two_actions_eq dns_fails_def dns_action_def)
qed

text \<open>
  A drain by thread 0 that meets a failing action in another thread, and whose first handler
  registers one more action, which the drain then undoes as well.
\<close>

definition rollback_schedule :: "rollback_event list" where
  "rollback_schedule =
     [Register 0 db_action, Register 1 dns_action, Call_drain 0, Take_action 0, Take_action 1,
      Handler_ends 1 (Inl (UserError ''locked'')), Register 0 db_action, Handler_ends 0 (Inr ()),
      Take_action 0, Handler_ends 0 (Inr ())]"

definition rollback_end :: rollback where
  "rollback_end = the (runs rollback_step (fresh_rollback 2) rollback_schedule)"

definition drained :: rollback where
  "drained = the (rollback_step rollback_end (Take_action 0))"

definition registered_two :: rollback where
  "registered_two = the (runs rollback_step (fresh_rollback 1) [Register 0 db_action, Register 0 dns_action])"

lemmas rollback_run_defs =
  rollback_step_def fresh_rollback_def init_rollback_def empty_queue_def register_def queue_ops
  lifo_push_def lifo_pop_def take_action_def action_ends_def return_to_def at_user_code_def
  db_action_def dns_action_def

lemma rollback_end_run:
  "runs rollback_step (fresh_rollback 2) rollback_schedule = Some rollback_end"
  "rollback_step rollback_end (Take_action 0) = Some drained"
  "replies drained = replies rollback_end @ [(0, Drain_said (Inr 2) [dns_action, db_action])]"
  "registered rollback_end = [db_action, dns_action, db_action]" "in_progress rollback_end = []"
  "items (stack rollback_end) = []"
  by (simp_all add: rollback_end_def drained_def rollback_schedule_def rollback_run_defs in_progress_def
      numeral_2_eq_2)

lemma registered_two_run:
  "runs rollback_step (fresh_rollback 1) [Register 0 db_action, Register 0 dns_action] = Some registered_two"
  "at_user_code registered_two 0" "stack registered_two = two_actions"
  by (simp_all add: registered_two_def rollback_run_defs two_actions_def)

theorem rollback_runs_once_witness:
  "mset (map fst (ended rollback_end)) = {#db_action, dns_action, db_action#}"
  using rollback_runs_once[OF rollback_end_run(1)] rollback_end_run(4-6) by simp

theorem drain_counts_what_it_undid_witness:
  "items (stack drained) = [] \<and> (2 :: int) = int (length [dns_action, db_action])"
  using drain_counts_what_it_undid[OF rollback_end_run(1)] rollback_end_run(2,3) by blast

lemma undisturbed_drain_is_drain_witness:
  "\<exists>s' acts. runs rollback_step registered_two
       (Call_drain 0 # drain_events 0 dns_fails (rev (items two_actions))) = Some s' \<and>
     replies s' = replies registered_two @ [(0, Drain_said (Inl (UserError ''ttl'')) acts)]"
proof -
  have "undone dns_fails (rev (items two_actions)) = []"
    by (simp add: two_actions_eq undone_def dns_fails_def dns_action_def)
  then have "drain dns_fails 0 (stack registered_two) =
      (Inl (UserError ''ttl''), two_actions\<lparr>items := [db_action], unfinished := 1\<rparr>, [dns_action])"
    using drain_eq[of two_actions dns_fails 0] registered_two_run(3)
    by (simp add: two_actions_eq dns_fails_def dns_action_def)
  from undisturbed_drain_is_drain[OF registered_two_run(1,2) this] registered_two_run(3)
  show ?thesis by auto
qed

end
