(* ===== verification/Job_Queue.thy ===== *)
theory Job_Queue
  imports Py_Queue Machines
begin

section \<open>asyncjobqueue: worker tasks with a clean stop\<close>

text \<open>
  Models \<^verbatim>\<open>asyncjobqueue/queue.py\<close>. Jobs and stop tokens go through one FIFO queue; a
  worker takes an item, runs the handler, records an exception and marks the item as done. The
  first call of \<open>stop\<close> waits until every item is marked, then puts one token per worker and
  waits for the workers; the task that calls it may be cancelled while it waits. Tasks switch
  only where they await, so the rest of each method is one step; the outcome of a handler is
  chosen by the schedule. A handler may itself call the methods: \<open>start\<close> and \<open>submit\<close> are then
  the same steps as for any other caller, but a handler that awaits \<open>stop\<close> cannot end before
  \<open>stop\<close> has returned to it.
\<close>

subsection \<open>State\<close>

datatype 'j queue_item =
    Job 'j
  | Stop_token

datatype 'j worker_state =
    Idle
  | Busy 'j
  | Finished
  | Crashed exn

datatype stop_phase =
    Not_stopping
  | Draining
  | Gathering
  | Stop_returned "unit result"
  | Abandoned

text \<open>
  \<open>stop_within\<close> is the worker whose handler awaits \<open>stop\<close>, if it was a handler that called it.
\<close>

record 'j job_queue =
  worker_count :: nat
  job_items :: "'j queue_item pyq"
  workers :: "'j worker_state list"
  started :: bool
  stop_phase :: stop_phase
  stop_within :: "nat option"
  failures :: "exn list"
  accepted_jobs :: "'j list"
  handled_jobs :: "('j \<times> unit result) list"

definition init_jobs :: "int \<Rightarrow> 'j job_queue result" where
  "init_jobs n =
     (if n \<le> 0 then Inl (ValueError ''worker_count must be greater than zero'')
      else Inr \<lparr>worker_count = nat n, job_items = empty_queue 0, workers = [], started = False,
                stop_phase = Not_stopping, stop_within = None, failures = [],
                accepted_jobs = [], handled_jobs = []\<rparr>)"

subsection \<open>Methods\<close>

definition start_workers :: "'j job_queue \<Rightarrow> unit result \<times> 'j job_queue" where
  "start_workers s =
     (if started s then (Inl (RuntimeError ''job queue has already been started''), s)
      else (Inr (), s\<lparr>started := True, workers := replicate (worker_count s) Idle\<rparr>))"

definition submit :: "'j \<Rightarrow> 'j job_queue \<Rightarrow> unit result \<times> 'j job_queue" where
  "submit job s =
     (if \<not> started s then (Inl (RuntimeError ''job queue has not been started''), s)
      else if stop_phase s \<noteq> Not_stopping then (Inl (RuntimeError ''job queue is stopping''), s)
      else (Inr (), s\<lparr>job_items := snd (put_nowait fifo_push (Job job) (job_items s)),
                      accepted_jobs := accepted_jobs s @ [job]\<rparr>))"

definition joinable :: "'j job_queue \<Rightarrow> bool" where
  "joinable s \<longleftrightarrow> unfinished (job_items s) = 0"

text \<open>
  \<open>stop\<close>, called by a handler in the given worker or by another task: up to the join, where the result is \<open>None\<close> if the call goes on to the join and
  what it returns otherwise; from there to the gather, with one token for each worker; and
  the return, which raises the exception of a worker that crashed.
\<close>

definition begin_stop :: "nat option \<Rightarrow> 'j job_queue \<Rightarrow> unit result option \<times> 'j job_queue" where
  "begin_stop caller s =
     (if \<not> started s \<or> stop_phase s \<noteq> Not_stopping then (Some (Inr ()), s)
      else (None, s\<lparr>stop_phase := Draining, stop_within := caller\<rparr>))"

definition put_tokens :: "'j worker_state list \<Rightarrow> 'j queue_item pyq \<Rightarrow> 'j queue_item pyq" where
  "put_tokens ws q = foldl (\<lambda>q _. snd (put_nowait fifo_push Stop_token q)) q ws"

definition stop_drained :: "'j job_queue \<Rightarrow> 'j job_queue option" where
  "stop_drained s =
     (if stop_phase s = Draining \<and> joinable s
      then Some (s\<lparr>job_items := put_tokens (workers s) (job_items s), stop_phase := Gathering\<rparr>)
      else None)"

fun crash_of :: "'j worker_state \<Rightarrow> exn option" where
  "crash_of (Crashed e) = Some e"
| "crash_of _ = None"

definition stop_end :: "'j job_queue \<Rightarrow> 'j job_queue option" where
  "stop_end s =
     (if stop_phase s \<noteq> Gathering then None
      else case List.map_filter crash_of (workers s) of
        e # _ \<Rightarrow> Some (s\<lparr>stop_phase := Stop_returned (Inl e)\<rparr>)
      | [] \<Rightarrow>
          if list_all (\<lambda>w. w = Finished) (workers s)
          then Some (s\<lparr>stop_phase := Stop_returned (Inr ())\<rparr>) else None)"

text \<open>
  The cancellation of the task in \<open>stop\<close>. In the join it only ends the call; \<open>gather\<close> passes it
  on to the workers that have not ended, all of which wait for an item then, outside the
  \<^verbatim>\<open>try\<close> statement of \<open>_worker\<close>.
\<close>

fun cancel_worker :: "'j worker_state \<Rightarrow> 'j worker_state" where
  "cancel_worker Idle = Crashed cancelled"
| "cancel_worker w = w"

definition stop_cancelled :: "'j job_queue \<Rightarrow> 'j job_queue option" where
  "stop_cancelled s =
     (case stop_phase s of
        Draining \<Rightarrow> Some (s\<lparr>stop_phase := Abandoned\<rparr>)
      | Gathering \<Rightarrow>
          Some (s\<lparr>workers := map cancel_worker (workers s), stop_phase := Stop_returned (Inl cancelled)\<rparr>)
      | _ \<Rightarrow> None)"

text \<open>
  One turn of the loop of \<open>_worker\<close>: taking an item, which ends the worker if it is a token,
  and the end of the handler. \<open>task_done\<close> is in the \<^verbatim>\<open>finally\<close> clause of both.
\<close>

definition worker_takes :: "nat \<Rightarrow> 'j job_queue \<Rightarrow> 'j job_queue option" where
  "worker_takes i s =
     (if length (workers s) \<le> i \<or> workers s ! i \<noteq> Idle then None
      else case get_now fifo_pop (job_items s) of
        Some (Inr (Job job), q) \<Rightarrow>
          Some (s\<lparr>job_items := q, workers := (workers s)[i := Busy job]\<rparr>)
      | Some (Inr Stop_token, q) \<Rightarrow>
          Some (s\<lparr>job_items := snd (queue_task_done q), workers := (workers s)[i := Finished]\<rparr>)
      | _ \<Rightarrow> None)"

definition running_handler :: "nat \<Rightarrow> 'j job_queue \<Rightarrow> bool" where
  "running_handler i s \<longleftrightarrow>
     i < length (workers s) \<and> (case workers s ! i of Busy job \<Rightarrow> True | _ \<Rightarrow> False)"

text \<open>The call of \<open>stop\<close> in a handler that has not come back.\<close>

definition awaits_stop :: "nat \<Rightarrow> 'j job_queue \<Rightarrow> bool" where
  "awaits_stop i s \<longleftrightarrow> stop_within s = Some i \<and> (stop_phase s = Draining \<or> stop_phase s = Gathering)"

definition handler_ends :: "nat \<Rightarrow> unit result \<Rightarrow> 'j job_queue \<Rightarrow> 'j job_queue option" where
  "handler_ends i outcome s =
     (if length (workers s) \<le> i \<or> awaits_stop i s then None
      else case workers s ! i of
        Busy job \<Rightarrow>
          (let s' = s\<lparr>job_items := snd (queue_task_done (job_items s)),
                      handled_jobs := handled_jobs s @ [(job, outcome)]\<rparr>
           in case outcome of
                Inr _ \<Rightarrow> Some (s'\<lparr>workers := (workers s)[i := Idle]\<rparr>)
              | Inl e \<Rightarrow>
                  if is_exception e
                  then Some (s'\<lparr>workers := (workers s)[i := Idle], failures := failures s @ [e]\<rparr>)
                  else Some (s'\<lparr>workers := (workers s)[i := Crashed e]\<rparr>))
      | _ \<Rightarrow> None)"

datatype 'j job_event =
    Start
  | Submit 'j
  | Stop
  | Handler_stops nat
  | Stop_drained
  | Stop_ends
  | Stop_cancelled
  | Worker_takes nat
  | Handler_ends nat "unit result"

fun job_step :: "'j job_queue \<Rightarrow> 'j job_event \<Rightarrow> 'j job_queue option" where
  "job_step s Start = Some (snd (start_workers s))"
| "job_step s (Submit job) = Some (snd (submit job s))"
| "job_step s Stop = Some (snd (begin_stop None s))"
| "job_step s (Handler_stops i) =
     (if running_handler i s \<and> \<not> awaits_stop i s then Some (snd (begin_stop (Some i) s)) else None)"
| "job_step s Stop_drained = stop_drained s"
| "job_step s Stop_ends = stop_end s"
| "job_step s Stop_cancelled = stop_cancelled s"
| "job_step s (Worker_takes i) = worker_takes i s"
| "job_step s (Handler_ends i outcome) = handler_ends i outcome s"

subsection \<open>Invariant\<close>

fun busy_job :: "'j worker_state \<Rightarrow> 'j list" where
  "busy_job (Busy job) = [job]"
| "busy_job _ = []"

fun job_in :: "'j queue_item \<Rightarrow> 'j list" where
  "job_in (Job job) = [job]"
| "job_in Stop_token = []"

fun finished_mark :: "'j worker_state \<Rightarrow> unit list" where
  "finished_mark Finished = [()]"
| "finished_mark _ = []"

fun failure_of :: "'j \<times> unit result \<Rightarrow> exn list" where
  "failure_of (_, Inl e) = (if is_exception e then [e] else [])"
| "failure_of (_, Inr _) = []"

definition busy_jobs :: "'j job_queue \<Rightarrow> 'j list" where
  "busy_jobs s = concat (map busy_job (workers s))"

definition pending_jobs :: "'j job_queue \<Rightarrow> 'j list" where
  "pending_jobs s = concat (map job_in (items (job_items s)))"

definition finished_workers :: "'j job_queue \<Rightarrow> unit list" where
  "finished_workers s = concat (map finished_mark (workers s))"

definition before_tokens :: "'j job_queue \<Rightarrow> bool" where
  "before_tokens s \<longleftrightarrow> stop_phase s = Not_stopping \<or> stop_phase s = Draining \<or> stop_phase s = Abandoned"

definition jobs_ok :: "'j job_queue \<Rightarrow> bool" where
  "jobs_ok s \<longleftrightarrow>
     0 < worker_count s \<and> length (workers s) = (if started s then worker_count s else 0) \<and>
     \<not> shut (job_items s) \<and> maxsize (job_items s) = 0 \<and>
     (\<not> started s \<longrightarrow> stop_phase s = Not_stopping \<and> items (job_items s) = []) \<and>
     mset (accepted_jobs s) =
       mset (map fst (handled_jobs s)) + mset (busy_jobs s) + mset (pending_jobs s) \<and>
     unfinished (job_items s) = length (items (job_items s)) + length (busy_jobs s) \<and>
     failures s = concat (map failure_of (handled_jobs s)) \<and>
     (if before_tokens s
      then list_all (\<lambda>x. x \<noteq> Stop_token) (items (job_items s)) \<and> finished_workers s = []
      else list_all (\<lambda>x. x = Stop_token) (items (job_items s)) \<and> busy_jobs s = [] \<and>
           length (items (job_items s)) + length (finished_workers s) = worker_count s) \<and>
     (stop_phase s = Stop_returned (Inr ()) \<longrightarrow> list_all (\<lambda>w. w = Finished) (workers s))"

lemma no_busy_idle: "concat (map busy_job (replicate n Idle)) = []" "concat (map finished_mark (replicate n Idle)) = []"
  by (induction n) auto

lemma put_tokens_eq:
  "\<not> shut q \<Longrightarrow> maxsize q = 0 \<Longrightarrow>
   put_tokens ws q = q\<lparr>items := items q @ replicate (length ws) Stop_token,
                       unfinished := unfinished q + length ws\<rparr>"
proof (induction ws arbitrary: q)
  case Nil
  then show ?case by (simp add: put_tokens_def)
next
  case (Cons w ws)
  then show ?case
    by (simp add: put_tokens_def put_nowait_def put_now_def full_def fifo_push_def)
qed

lemma start_workers_ok: "jobs_ok s \<Longrightarrow> jobs_ok (snd (start_workers s))"
  by (auto simp: jobs_ok_def start_workers_def busy_jobs_def pending_jobs_def finished_workers_def
      before_tokens_def no_busy_idle)

lemma submit_ok: "jobs_ok s \<Longrightarrow> jobs_ok (snd (submit job s))"
  by (auto simp: jobs_ok_def submit_def busy_jobs_def pending_jobs_def finished_workers_def
      before_tokens_def put_nowait_def put_now_def full_def fifo_push_def)

lemma begin_stop_ok: "jobs_ok s \<Longrightarrow> jobs_ok (snd (begin_stop caller s))"
  by (auto simp: jobs_ok_def begin_stop_def busy_jobs_def pending_jobs_def finished_workers_def
      before_tokens_def)

lemma stop_drained_ok:
  assumes ok: "jobs_ok s" and step: "stop_drained s = Some s'"
  shows "jobs_ok s'"
proof -
  from step have s': "s' = s\<lparr>job_items := put_tokens (workers s) (job_items s), stop_phase := Gathering\<rparr>"
    and d: "stop_phase s = Draining" and z: "unfinished (job_items s) = 0"
    by (auto simp: stop_drained_def joinable_def split: if_splits)
  from ok z have empty: "items (job_items s) = []" "busy_jobs s = []" by (simp_all add: jobs_ok_def)
  from ok d have "started s" by (auto simp: jobs_ok_def)
  moreover have "finished_workers s = []" using ok d by (simp add: jobs_ok_def before_tokens_def)
  moreover have "put_tokens (workers s) (job_items s) = (job_items s)\<lparr>
      items := replicate (length (workers s)) Stop_token, unfinished := length (workers s)\<rparr>"
    using ok z empty by (simp add: jobs_ok_def put_tokens_eq)
  ultimately show ?thesis using ok s' empty z
    by (simp add: jobs_ok_def before_tokens_def busy_jobs_def pending_jobs_def finished_workers_def
        list_all_iff)
qed

lemma stop_end_ok: "jobs_ok s \<Longrightarrow> stop_end s = Some s' \<Longrightarrow> jobs_ok s'"
  by (auto simp: jobs_ok_def stop_end_def before_tokens_def busy_jobs_def pending_jobs_def
      finished_workers_def split: if_splits list.splits)

lemma cancel_worker_marks [simp]:
  "busy_job (cancel_worker w) = busy_job w" "finished_mark (cancel_worker w) = finished_mark w"
  by (cases w; simp)+

lemma stop_cancelled_ok: "jobs_ok s \<Longrightarrow> stop_cancelled s = Some s' \<Longrightarrow> jobs_ok s'"
  by (auto simp: jobs_ok_def stop_cancelled_def before_tokens_def busy_jobs_def pending_jobs_def
      finished_workers_def comp_def split: stop_phase.splits)

lemma all_finished_empty:
  "list_all (\<lambda>w. w = Finished) ws \<Longrightarrow>
   concat (map busy_job ws) = [] \<and> length (concat (map finished_mark ws)) = length ws"
  by (induction ws) auto

text \<open>Replacing the state of one worker, by what it contributes.\<close>

lemma worker_change:
  assumes "i < length (workers s)"
  shows "mset (concat (map busy_job ((workers s)[i := w]))) + mset (busy_job (workers s ! i)) =
           mset (busy_jobs s) + mset (busy_job w)"
    and "length (concat (map busy_job ((workers s)[i := w]))) + length (busy_job (workers s ! i)) =
           length (busy_jobs s) + length (busy_job w)"
    and "length (concat (map finished_mark ((workers s)[i := w]))) + length (finished_mark (workers s ! i)) =
           length (finished_workers s) + length (finished_mark w)"
  using mset_concat_update[OF assms, of busy_job w] length_concat_update[OF assms, of busy_job w]
    length_concat_update[OF assms, of finished_mark w]
  by (simp_all add: busy_jobs_def finished_workers_def)

lemma worker_takes_ok:
  assumes ok: "jobs_ok s" and step: "worker_takes i s = Some s'"
  shows "jobs_ok s'"
proof -
  from step have i: "i < length (workers s)" "workers s ! i = Idle"
    by (auto simp: worker_takes_def split: if_splits)
  from step obtain x xs where items: "items (job_items s) = x # xs"
    by (cases "items (job_items s)") (auto simp: worker_takes_def get_now_def split: if_splits)
  show ?thesis
  proof (cases x)
    case (Job job)
    with step i items have s': "s' = s\<lparr>job_items := (job_items s)\<lparr>items := xs\<rparr>,
        workers := (workers s)[i := Busy job]\<rparr>"
      by (simp add: worker_takes_def get_now_def)
    from ok items Job have "before_tokens s" by (auto simp: jobs_ok_def split: if_splits)
    note change = worker_change[OF i(1), of "Busy job"]
    from change(3) i(2) ok \<open>before_tokens s\<close>
    have "concat (map finished_mark ((workers s)[i := Busy job])) = []" by (simp add: jobs_ok_def)
    moreover from change(1,2) i(2)
    have "mset (concat (map busy_job ((workers s)[i := Busy job]))) = add_mset job (mset (busy_jobs s))"
      "length (concat (map busy_job ((workers s)[i := Busy job]))) = Suc (length (busy_jobs s))"
      by simp_all
    moreover have "stop_phase s \<noteq> Stop_returned (Inr ())"
      using \<open>before_tokens s\<close> by (auto simp: before_tokens_def)
    moreover have "pending_jobs s = job # concat (map job_in xs)"
      using items Job by (simp add: pending_jobs_def)
    ultimately show ?thesis using ok items Job s' \<open>before_tokens s\<close>
      by (simp add: jobs_ok_def before_tokens_def)
        (simp add: busy_jobs_def pending_jobs_def finished_workers_def)
  next
    case Stop_token
    with step i items have s': "s' = s\<lparr>job_items := snd (queue_task_done ((job_items s)\<lparr>items := xs\<rparr>)),
        workers := (workers s)[i := Finished]\<rparr>"
      by (simp add: worker_takes_def get_now_def)
    from ok items Stop_token have gather: "\<not> before_tokens s" by (auto simp: jobs_ok_def split: if_splits)
    have "list_all (\<lambda>w. w = Finished) ((workers s)[i := Finished])"
      if "list_all (\<lambda>w. w = Finished) (workers s)"
      using that by (auto simp: list_all_iff dest: set_update_subset_insert[THEN subsetD])
    note change = worker_change[OF i(1), of Finished]
    from change(1) i(2) ok gather
    have "concat (map busy_job ((workers s)[i := Finished])) = []" by (simp add: jobs_ok_def)
    moreover from change(3) i(2)
    have "length (concat (map finished_mark ((workers s)[i := Finished]))) = Suc (length (finished_workers s))"
      by simp
    moreover have "pending_jobs s = concat (map job_in xs)"
      using items Stop_token by (simp add: pending_jobs_def)
    ultimately show ?thesis using ok items Stop_token s' gather \<open>_ \<Longrightarrow> list_all _ _\<close>
      by (simp add: jobs_ok_def before_tokens_def queue_task_done_def)
        (simp add: busy_jobs_def pending_jobs_def finished_workers_def)
  qed
qed

lemma handler_ends_ok:
  fixes s :: "'j job_queue"
  assumes ok: "jobs_ok s" and step: "handler_ends i r s = Some s'"
  shows "jobs_ok s'"
proof -
  from step obtain job where i: "i < length (workers s)" "workers s ! i = Busy job"
    by (auto simp: handler_ends_def split: if_splits worker_state.splits)
  define w :: "'j worker_state" where "w = (case r of Inl e \<Rightarrow> if is_exception e then Idle else Crashed e | Inr u \<Rightarrow> Idle)"
  from step i have s': "s' = s\<lparr>job_items := snd (queue_task_done (job_items s)),
      handled_jobs := handled_jobs s @ [(job, r)], workers := (workers s)[i := w],
      failures := failures s @ failure_of (job, r)\<rparr>"
    by (auto simp: handler_ends_def w_def Let_def split: sum.splits if_splits)
  have w: "busy_job w = []" "finished_mark w = []" "w \<noteq> Finished"
    by (auto simp: w_def split: sum.splits)
  note change = worker_change[OF i(1), of w]
  from change(1) i(2) w have busy: "add_mset job (mset (concat (map busy_job ((workers s)[i := w])))) =
      mset (busy_jobs s)" by simp
  from change(2) i(2) w have len: "Suc (length (concat (map busy_job ((workers s)[i := w])))) =
      length (busy_jobs s)" by simp
  from change(3) i(2) w have fin: "length (concat (map finished_mark ((workers s)[i := w]))) =
      length (finished_workers s)" by simp
  from len have nonempty: "busy_jobs s \<noteq> []" by auto
  then have tokens: "before_tokens s" using ok by (auto simp: jobs_ok_def split: if_splits)
  then have "stop_phase s \<noteq> Stop_returned (Inr ())" by (auto simp: before_tokens_def)
  moreover from fin ok tokens have "concat (map finished_mark ((workers s)[i := w])) = []"
    by (simp add: jobs_ok_def)
  moreover have "started s" using ok i by (auto simp: jobs_ok_def split: if_splits)
  moreover have "mset (accepted_jobs s) = mset (map fst (handled_jobs s @ [(job, r)])) +
      mset (concat (map busy_job ((workers s)[i := w]))) + mset (pending_jobs s)"
    using ok by (simp add: jobs_ok_def busy[symmetric])
  moreover have "unfinished (job_items s) - 1 = length (items (job_items s)) +
      length (concat (map busy_job ((workers s)[i := w])))"
    using ok len by (simp add: jobs_ok_def)
  moreover have "0 < unfinished (job_items s)" using ok nonempty by (simp add: jobs_ok_def)
  then have "snd (queue_task_done (job_items s)) =
      (job_items s)\<lparr>unfinished := unfinished (job_items s) - 1\<rparr>" by (simp add: queue_task_done_def)
  moreover from this s' have "finished_workers s' = concat (map finished_mark ((workers s)[i := w]))"
    "busy_jobs s' = concat (map busy_job ((workers s)[i := w]))" "pending_jobs s' = pending_jobs s"
    by (simp_all add: finished_workers_def busy_jobs_def pending_jobs_def)
  ultimately show ?thesis using ok s' tokens by (simp add: jobs_ok_def before_tokens_def)
qed

lemma jobs_ok_step: "jobs_ok s \<Longrightarrow> job_step s e = Some s' \<Longrightarrow> jobs_ok s'"
  by (cases e) (auto intro: start_workers_ok submit_ok begin_stop_ok stop_drained_ok stop_end_ok
      stop_cancelled_ok worker_takes_ok handler_ends_ok split: if_splits)

lemma jobs_ok_start: "init_jobs n = Inr s \<Longrightarrow> jobs_ok s"
  by (auto simp: init_jobs_def jobs_ok_def empty_queue_def busy_jobs_def pending_jobs_def
      finished_workers_def before_tokens_def split: if_splits)

interpretation job_queue: invariant_machine job_step "\<lambda>s. \<exists>n. init_jobs n = Inr s" jobs_ok
  by unfold_locales (auto intro: jobs_ok_start jobs_ok_step simp del: job_step.simps)

interpretation job_count: invariant_machine job_step "\<lambda>s. worker_count s = n" "\<lambda>s. worker_count s = n" for n
proof unfold_locales
  show "worker_count s' = n" if "worker_count s = n" "job_step s e = Some s'" for s s' :: "'a job_queue" and e
    using that by (cases e) (auto simp: start_workers_def submit_def begin_stop_def stop_drained_def
        stop_end_def stop_cancelled_def worker_takes_def handler_ends_def Let_def
        split: if_splits list.splits option.splits sum.splits queue_item.splits worker_state.splits
          stop_phase.splits)
qed

subsection \<open>A stop comes to an end\<close>

text \<open>The steps of the workers and of \<open>stop\<close>, and those that the surroundings may take.\<close>

fun ordinary :: "unit result \<Rightarrow> bool" where
  "ordinary (Inl e) = is_exception e"
| "ordinary (Inr _) = True"



fun no_crash :: "'j worker_state \<Rightarrow> bool" where
  "no_crash (Crashed e) = False"
| "no_crash _ = True"





text \<open>
  As long as no token has been put, no worker returns from its loop, and one that has died has
  died of what its own handler raised.
\<close>

fun dies_only_of_handler :: "('j \<times> unit result) list \<Rightarrow> 'j worker_state \<Rightarrow> bool" where
  "dies_only_of_handler handled Finished = False"
| "dies_only_of_handler handled (Crashed e) \<longleftrightarrow> \<not> is_exception e \<and> Inl e \<in> snd ` set handled"
| "dies_only_of_handler handled _ = True"

text \<open>What a step of a worker changes.\<close>

lemma worker_takes_shape:
  assumes "worker_takes i s = Some s'"
  obtains x xs w where "i < length (workers s)" "workers s ! i = Idle" "items (job_items s) = x # xs"
    "workers s' = (workers s)[i := w]" "items (job_items s') = xs" "no_crash w"
    "length (busy_job w) \<le> 1" "stop_phase s' = stop_phase s" "worker_count s' = worker_count s"
    "stop_within s' = stop_within s" "handled_jobs s' = handled_jobs s"
proof -
  from assms obtain x xs where x: "items (job_items s) = x # xs"
    by (cases "items (job_items s)") (auto simp: worker_takes_def get_now_def split: if_splits)
  with assms show thesis
    by (cases x) (auto simp: worker_takes_def get_now_def fifo_pop.simps queue_task_done_def
        split: if_splits intro!: that)
qed

lemma handler_ends_shape:
  assumes "handler_ends i r s = Some s'"
  obtains job w where "i < length (workers s)" "workers s ! i = Busy job"
    "workers s' = (workers s)[i := w]" "items (job_items s') = items (job_items s)"
    "busy_job w = []" "ordinary r \<longrightarrow> no_crash w" "stop_phase s' = stop_phase s"
    "handled_jobs s' = handled_jobs s @ [(job, r)]" "dies_only_of_handler (handled_jobs s') w"
    "worker_count s' = worker_count s" "stop_within s' = stop_within s" "\<not> awaits_stop i s"
  using assms by (cases "workers s ! i"; cases r)
    (auto simp: handler_ends_def Let_def queue_task_done_def split: if_splits intro!: that)











definition workers_kept :: "'j job_queue \<Rightarrow> bool" where
  "workers_kept s \<longleftrightarrow>
     jobs_ok s \<and> (before_tokens s \<longrightarrow> list_all (dies_only_of_handler (handled_jobs s)) (workers s))"

lemma dies_only_mono:
  "list_all (dies_only_of_handler l) ws \<Longrightarrow> list_all (dies_only_of_handler (l @ l')) ws"
proof (induction ws)
  case (Cons w ws)
  then show ?case by (cases w) auto
qed simp

lemma dies_only_replicate: "list_all (dies_only_of_handler l) (replicate n Idle)"
  by (simp add: list_all_iff)

lemma dies_only_update:
  "list_all (dies_only_of_handler l) ws \<Longrightarrow> dies_only_of_handler l w \<Longrightarrow>
   list_all (dies_only_of_handler l) (ws[i := w])"
  by (auto simp: list_all_iff dest: set_update_subset_insert[THEN subsetD])

lemma no_finished_before_tokens:
  "jobs_ok s \<Longrightarrow> before_tokens s \<Longrightarrow> w \<in> set (workers s) \<Longrightarrow> w \<noteq> Finished"
  by (auto simp: jobs_ok_def finished_workers_def)

lemma workers_kept_step:
  assumes kept: "workers_kept s" and step: "job_step s e = Some s'"
  shows "workers_kept s'"
proof -
  from kept step have ok: "jobs_ok s'"
    by (auto simp: workers_kept_def intro: jobs_ok_step simp del: job_step.simps)
  show ?thesis
  proof (cases e)
    case (Worker_takes i)
    with step have "worker_takes i s = Some s'" by simp
    then show ?thesis
    proof (rule worker_takes_shape)
      fix w
      assume a: "i < length (workers s)" "workers s' = (workers s)[i := w]" "no_crash w"
        "stop_phase s' = stop_phase s" "handled_jobs s' = handled_jobs s"
      have "dies_only_of_handler (handled_jobs s) w" if "before_tokens s'"
        using no_finished_before_tokens[OF ok that, of w] a(1-3) by (cases w) (auto simp: set_update_memI)
      with a kept ok show ?thesis by (auto simp: workers_kept_def before_tokens_def dies_only_update)
    qed
  next
    case (Handler_ends i r)
    with step have "handler_ends i r s = Some s'" by simp
    then show ?thesis using kept ok
      by (elim handler_ends_shape)
        (auto simp: workers_kept_def before_tokens_def intro!: dies_only_update[OF dies_only_mono])
  next
    case Start
    with step kept ok show ?thesis
      by (auto simp: workers_kept_def start_workers_def before_tokens_def dies_only_replicate)
  next
    case Stop_cancelled
    with step kept ok show ?thesis
      by (auto simp: workers_kept_def stop_cancelled_def before_tokens_def split: stop_phase.splits)
  qed (use step kept ok in \<open>auto simp: workers_kept_def submit_def begin_stop_def stop_drained_def
         stop_end_def before_tokens_def split: if_splits list.splits\<close>)
qed

lemma workers_kept_start: "init_jobs n = Inr s \<Longrightarrow> workers_kept s"
  using jobs_ok_start[of n s] by (auto simp: workers_kept_def init_jobs_def split: if_splits)

interpretation keeps: invariant_machine job_step "\<lambda>s. \<exists>n. init_jobs n = Inr s" workers_kept
  by unfold_locales (auto intro: workers_kept_start workers_kept_step simp del: job_step.simps)

lemma kept_throughout:
  assumes "init_jobs n = Inr s0" and "runs job_step s0 es = Some s" and "runs job_step s fs = Some t"
    and "before_tokens t"
  shows "list_all (dies_only_of_handler (handled_jobs t)) (workers t)"
proof -
  from assms(2,3) have "runs job_step s0 (es @ fs) = Some t" by (simp add: runs_append)
  with assms(1) have "workers_kept t" by (intro keeps.invariant[of s0]) auto
  with assms(4) show ?thesis by (simp add: workers_kept_def)
qed

text \<open>A cancelled stop leaves the queue between running and stopped.\<close>

definition stranded :: "'j job_queue \<Rightarrow> bool" where
  "stranded s \<longleftrightarrow> jobs_ok s \<and> stop_phase s = Abandoned"

interpretation strandings: invariant_machine job_step stranded stranded
proof unfold_locales
  show "stranded s'" if "stranded s" "job_step s e = Some s'" for s s' :: "'a job_queue" and e
  proof -
    from that have "jobs_ok s'" by (auto simp: stranded_def intro: jobs_ok_step simp del: job_step.simps)
    with that show ?thesis
      by (cases e) (auto simp: stranded_def start_workers_def submit_def begin_stop_def stop_drained_def
          stop_end_def stop_cancelled_def elim!: worker_takes_shape handler_ends_shape split: if_splits)
  qed
qed

text \<open>A handler that awaits \<open>stop\<close> keeps its own job unfinished, for which \<open>stop\<close> waits.\<close>

definition trapped :: "nat \<Rightarrow> 'j job_queue \<Rightarrow> bool" where
  "trapped i s \<longleftrightarrow> jobs_ok s \<and> stop_phase s = Draining \<and> stop_within s = Some i \<and> running_handler i s"

lemma running_handler_busy:
  assumes "running_handler i s"
  shows "busy_jobs s \<noteq> []"
proof -
  from assms obtain job where "i < length (workers s)" "workers s ! i = Busy job"
    by (auto simp: running_handler_def split: worker_state.splits)
  then have "Busy job \<in> set (workers s)" by (metis nth_mem)
  then show ?thesis by (force simp: busy_jobs_def)
qed

lemma running_handler_started: "jobs_ok s \<Longrightarrow> running_handler i s \<Longrightarrow> started s"
  by (cases "started s") (simp_all add: jobs_ok_def running_handler_def)

lemma trapped_not_joinable: "trapped i s \<Longrightarrow> \<not> joinable s"
  using running_handler_busy[of i s] by (auto simp: trapped_def jobs_ok_def joinable_def)

lemma running_handler_update:
  "running_handler i s \<Longrightarrow> j \<noteq> i \<Longrightarrow> workers s' = (workers s)[j := w] \<Longrightarrow> running_handler i s'"
  by (simp add: running_handler_def)

lemma trapped_step:
  assumes tr: "trapped i s" and "e \<noteq> Stop_cancelled" and step: "job_step s e = Some s'"
  shows "trapped i s'"
proof -
  have ok: "jobs_ok s'"
    by (rule jobs_ok_step[OF _ step]) (use tr in \<open>simp add: trapped_def\<close>)
  have st: "started s" using tr running_handler_started[of s i] by (simp add: trapped_def)
  have awaits: "awaits_stop i s" using tr by (simp add: trapped_def awaits_stop_def)
  show ?thesis
  proof (cases e)
    case (Worker_takes j)
    with step have "worker_takes j s = Some s'" by simp
    then show ?thesis
    proof (rule worker_takes_shape)
      fix w
      assume a: "workers s ! j = Idle" "workers s' = (workers s)[j := w]"
        "stop_phase s' = stop_phase s" "stop_within s' = stop_within s"
      from a(1) tr have "j \<noteq> i" by (auto simp: trapped_def running_handler_def)
      with a tr ok running_handler_update[of i s j s' w] show ?thesis by (simp add: trapped_def)
    qed
  next
    case (Handler_ends j r)
    with step have "handler_ends j r s = Some s'" by simp
    then show ?thesis
    proof (rule handler_ends_shape)
      fix w
      assume a: "\<not> awaits_stop j s" "workers s' = (workers s)[j := w]"
        "stop_phase s' = stop_phase s" "stop_within s' = stop_within s"
      from a(1) awaits have "j \<noteq> i" by auto
      with a tr ok running_handler_update[of i s j s' w] show ?thesis by (simp add: trapped_def)
    qed
  next
    case Stop_drained
    with step trapped_not_joinable[OF tr] show ?thesis by (simp add: stop_drained_def split: if_splits)
  next
    case Stop_ends
    with step tr show ?thesis by (simp add: stop_end_def trapped_def)
  qed (use step tr st assms(2) in \<open>auto simp: start_workers_def submit_def begin_stop_def trapped_def split: if_splits\<close>)
qed

lemma trapped_runs:
  "trapped i s \<Longrightarrow> list_all (\<lambda>e. e \<noteq> Stop_cancelled) es \<Longrightarrow> runs job_step s es = Some s' \<Longrightarrow> trapped i s'"
  by (induction es arbitrary: s)
    (auto split: option.splits intro: trapped_step simp del: job_step.simps)

subsection \<open>Properties\<close>

text \<open>
  Every accepted job is handled exactly once or still on its way: under every interleaving of
  producers and workers, the accepted jobs are, as a multiset, those handled, those in the
  hands of a worker and those pending, and \<open>failures\<close> holds exactly the exceptions of the
  handled jobs, in the order in which they ended.
\<close>

lemma jobs_handled_once:
  assumes "init_jobs n = Inr s0" and "runs job_step s0 schedule = Some s"
  shows "mset (accepted_jobs s) =
           mset (map fst (handled_jobs s)) + mset (busy_jobs s) + mset (pending_jobs s) \<and>
         failures s = concat (map failure_of (handled_jobs s)) \<and>
         (joinable s \<longrightarrow> busy_jobs s = [] \<and> pending_jobs s = [])"
proof -
  from assms(1) have "\<exists>n. init_jobs n = Inr s0" by blast
  from job_queue.invariant[OF this assms(2)] have ok: "jobs_ok s" .
  then have "pending_jobs s = []" if "joinable s"
    using that by (simp add: jobs_ok_def joinable_def pending_jobs_def)
  with ok show ?thesis by (auto simp: jobs_ok_def joinable_def)
qed

text \<open>
  C3. When the call of \<open>stop\<close> that drains the queue, the first one after \<open>start\<close>, has returned
  normally, every accepted job has been handled exactly once, all workers have ended, the queue
  holds nothing, not even a stop token, and a further \<open>submit\<close> raises. (Another call of \<open>stop\<close>
  returns at once and promises nothing.)
\<close>

theorem stop_drains_everything:
  assumes "init_jobs n = Inr s0" and "runs job_step s0 schedule = Some s"
    and "stop_phase s = Stop_returned (Inr ())"
  shows "mset (map fst (handled_jobs s)) = mset (accepted_jobs s) \<and>
         int (length (workers s)) = n \<and> list_all (\<lambda>w. w = Finished) (workers s) \<and>
         items (job_items s) = [] \<and>
         fst (submit job s) = Inl (RuntimeError ''job queue is stopping'')"
proof -
  from assms(1) have "\<exists>n. init_jobs n = Inr s0" by blast
  from job_queue.invariant[OF this assms(2)] have ok: "jobs_ok s" .
  have count: "worker_count s = nat n"
    using job_count.invariant[OF _ assms(2), of "nat n"] assms(1)
    by (auto simp: init_jobs_def split: if_splits)
  from ok assms(3) have fin: "list_all (\<lambda>w. w = Finished) (workers s)" and st: "started s"
    by (auto simp: jobs_ok_def)
  note all = all_finished_empty[OF fin]
  from ok assms(3) all have empty: "items (job_items s) = []"
    using st by (auto simp: jobs_ok_def before_tokens_def finished_workers_def)
  then have "pending_jobs s = []" "busy_jobs s = []" using all by (simp_all add: pending_jobs_def busy_jobs_def)
  moreover have "0 < n" using assms(1) by (auto simp: init_jobs_def split: if_splits)
  ultimately show ?thesis using ok fin empty count st assms(3)
    by (simp add: jobs_ok_def submit_def)
qed


text \<open>
  C19. A \<open>stop\<close> that is cancelled while it drains strands the queue, whatever happens later: no
  worker ever returns from its loop (one dies only if its own handler raises what is not an
  \<open>Exception\<close>), no job is ever accepted again, and every later call of \<open>stop\<close> returns at once
  without stopping anything.
\<close>

theorem cancelled_stop_strands:
  assumes "init_jobs n = Inr s0" and "runs job_step s0 before = Some s"
    and "stop_phase s = Draining" and "job_step s Stop_cancelled = Some s'"
    and "runs job_step s' after = Some t"
  shows "list_all (dies_only_of_handler (handled_jobs t)) (workers t) \<and>
         submit job t = (Inl (RuntimeError ''job queue is stopping''), t) \<and>
         begin_stop caller t = (Some (Inr ()), t)"
proof -
  from assms(1) have "\<exists>n. init_jobs n = Inr s0" by blast
  from job_queue.invariant[OF this assms(2)] assms(3) jobs_ok_step[OF _ assms(4)] assms(4)
  have "stranded s'" by (auto simp: stranded_def stop_cancelled_def)
  from strandings.invariant[OF this assms(5)] have t: "stranded t" .
  have "runs job_step s (Stop_cancelled # after) = Some t" using assms(4,5) by simp
  from kept_throughout[OF assms(1,2) this] t
  have "list_all (dies_only_of_handler (handled_jobs t)) (workers t)"
    by (simp add: stranded_def before_tokens_def)
  moreover from t have "started t" by (auto simp: stranded_def jobs_ok_def)
  ultimately show ?thesis using t by (simp add: stranded_def submit_def begin_stop_def)
qed

text \<open>
  C20. A handler that awaits \<open>stop\<close> locks the queue up: unless the waiting task is cancelled,
  \<open>stop\<close> never goes on from its join, the handler never ends, no worker returns from its loop
  (another one dies only if its own handler raises what is not an \<open>Exception\<close>), no job is
  accepted any more, and every further call of \<open>stop\<close> returns at once, whatever the
  schedule.
\<close>

theorem stop_in_handler_locks_up:
  assumes "init_jobs n = Inr s0" and "runs job_step s0 before = Some s"
    and "stop_phase s = Not_stopping" and "job_step s (Handler_stops i) = Some s'"
    and "list_all (\<lambda>e. e \<noteq> Stop_cancelled) after" and "runs job_step s' after = Some t"
  shows "stop_phase t = Draining \<and> job_step t Stop_drained = None \<and>
         running_handler i t \<and> job_step t (Handler_ends i outcome) = None \<and>
         list_all (dies_only_of_handler (handled_jobs t)) (workers t) \<and>
         submit job t = (Inl (RuntimeError ''job queue is stopping''), t) \<and>
         begin_stop caller t = (Some (Inr ()), t)"
proof -
  from assms(1) have "\<exists>n. init_jobs n = Inr s0" by blast
  from job_queue.invariant[OF this assms(2)] have ok: "jobs_ok s" .
  from assms(4) have run: "running_handler i s" and s': "s' = snd (begin_stop (Some i) s)"
    by (auto split: if_splits)
  from running_handler_started[OF ok run] have "started s" .
  with run s' assms(3) begin_stop_ok[OF ok, of "Some i"] have "trapped i s'"
    by (simp add: trapped_def begin_stop_def running_handler_def)
  from trapped_runs[OF this assms(5,6)] have t: "trapped i t" .
  then have phase: "stop_phase t = Draining" "stop_within t = Some i" and "jobs_ok t" "running_handler i t"
    by (simp_all add: trapped_def)
  moreover from calculation have "started t" by (intro running_handler_started)
  moreover have "runs job_step s (Handler_stops i # after) = Some t"
    using assms(4,6) by (simp del: job_step.simps)
  from kept_throughout[OF assms(1,2) this] phase(1)
  have "list_all (dies_only_of_handler (handled_jobs t)) (workers t)" by (simp add: before_tokens_def)
  ultimately show ?thesis using trapped_not_joinable[OF t]
    by (simp add: submit_def begin_stop_def stop_drained_def handler_ends_def awaits_stop_def)
qed

definition two_workers_idle :: "string job_queue" where
  "two_workers_idle =
     \<lparr>worker_count = 2, job_items = empty_queue 0, workers = [], started = False,
      stop_phase = Not_stopping, stop_within = None, failures = [], accepted_jobs = [],
      handled_jobs = []\<rparr>"

definition until_stop :: "string job_event list" where
  "until_stop =
     [Start, Submit ''mail'', Submit ''sms'', Worker_takes 1, Stop,
      Handler_ends 1 (Inl (UserError ''smtp''))]"

definition after_stop_call :: "string job_event list" where
  "after_stop_call =
     [Worker_takes 0, Handler_ends 0 (Inr ()), Stop_drained, Worker_takes 1, Worker_takes 0, Stop_ends]"

definition stopping_jobs :: "string job_queue" where
  "stopping_jobs = the (runs job_step two_workers_idle until_stop)"

definition stopped_jobs :: "string job_queue" where
  "stopped_jobs = the (runs job_step stopping_jobs after_stop_call)"

lemmas job_eval =
  start_workers_def submit_def begin_stop_def stop_drained_def stop_end_def worker_takes_def
  handler_ends_def awaits_stop_def running_handler_def joinable_def put_tokens_def queue_ops fifo_push_def two_workers_idle_def
  empty_queue_def Let_def List.map_filter_def numeral_2_eq_2

lemma stopping_run:
  "init_jobs 2 = Inr two_workers_idle"
  "runs job_step two_workers_idle until_stop = Some stopping_jobs"
  "stop_phase stopping_jobs = Draining" "stop_within stopping_jobs = None" "workers stopping_jobs = [Idle, Idle]"
  "handled_jobs stopping_jobs = [(''mail'', Inl (UserError ''smtp''))]"
  "\<not> joinable stopping_jobs"
  by (simp_all add: init_jobs_def stopping_jobs_def until_stop_def job_eval)

lemma stopped_run:
  "runs job_step two_workers_idle (until_stop @ after_stop_call) = Some stopped_jobs"
  "stop_phase stopped_jobs = Stop_returned (Inr ())"
  "accepted_jobs stopped_jobs = [''mail'', ''sms'']"
  by (simp_all add: stopped_jobs_def stopping_jobs_def until_stop_def after_stop_call_def job_eval)

lemma jobs_handled_once_witness:
  "failures stopping_jobs = [UserError ''smtp''] \<and>
   mset (accepted_jobs stopping_jobs) = {#''mail''#} + mset (pending_jobs stopping_jobs)"
  using jobs_handled_once[OF stopping_run(1,2)] stopping_run(5,6) by (simp add: busy_jobs_def)

theorem stop_drains_everything_witness:
  "mset (map fst (handled_jobs stopped_jobs)) = {#''mail'', ''sms''#} \<and>
   items (job_items stopped_jobs) = []"
  using stop_drains_everything[OF stopping_run(1) stopped_run(1,2)] stopped_run(3) by simp



theorem cancelled_stop_strands_witness:
  "begin_stop None (stopping_jobs\<lparr>stop_phase := Abandoned\<rparr>) =
     (Some (Inr ()), stopping_jobs\<lparr>stop_phase := Abandoned\<rparr>)"
  using cancelled_stop_strands[OF stopping_run(1-3), of "stopping_jobs\<lparr>stop_phase := Abandoned\<rparr>" "[]"]
  by (simp add: stop_cancelled_def stopping_run(3))

definition until_handler :: "string job_event list" where
  "until_handler = [Start, Submit ''mail'', Submit ''sms'', Worker_takes 1]"

definition after_inner_stop :: "string job_event list" where
  "after_inner_stop = [Worker_takes 0, Stop, Handler_ends 0 (Inr ())]"

definition handling_jobs :: "string job_queue" where
  "handling_jobs = the (runs job_step two_workers_idle until_handler)"

definition locked_jobs :: "string job_queue" where
  "locked_jobs = the (job_step handling_jobs (Handler_stops 1))"

definition locked_end :: "string job_queue" where
  "locked_end = the (runs job_step locked_jobs after_inner_stop)"

lemma locked_run:
  "runs job_step two_workers_idle until_handler = Some handling_jobs"
  "stop_phase handling_jobs = Not_stopping"
  "job_step handling_jobs (Handler_stops 1) = Some locked_jobs"
  "list_all (\<lambda>e. e \<noteq> Stop_cancelled) after_inner_stop"
  "runs job_step locked_jobs after_inner_stop = Some locked_end"
  by (simp_all add: handling_jobs_def locked_jobs_def locked_end_def until_handler_def
      after_inner_stop_def job_eval)

theorem stop_in_handler_locks_up_witness:
  "stop_phase locked_end = Draining \<and> job_step locked_end (Handler_ends 1 (Inr ())) = None"
  using stop_in_handler_locks_up[OF stopping_run(1) locked_run] by blast

end
