(* ===== verification/Pipeline.thy ===== *)
theory Pipeline
  imports Machines
begin

section \<open>documentpipeline: one worker thread per stage\<close>

text \<open>
  Models \<^verbatim>\<open>documentpipeline/pipeline.py\<close>. Each stage has an unbounded FIFO queue and one
  worker thread; a cell is such a pair. A worker takes an item, runs the stage function and
  puts the output into the next queue, or records it as a result after the last stage; an
  \<open>Exception\<close> is recorded and ends only that document, anything else kills the worker. Closing puts a sentinel into the first
  queue, and each worker passes it on and ends. The stage functions are callables of the
  caller: \<open>(name, f)\<close> is a stage, and \<open>f\<close> gives the outcome for a document. A stage may call
  \<open>submit\<close> meanwhile, as any other caller; a stage that calls \<open>close\<close>, and so joins its own
  thread, is outside.
\<close>

subsection \<open>State\<close>

record 'd document_failure =
  document :: 'd
  stage_name :: string
  stage_error :: exn

datatype 'd channel_item =
    Item (original: 'd) (item_doc: 'd)
  | Sentinel

datatype 'd stage_worker =
    Ready
  | Working 'd 'd
  | Ended
  | Died exn

type_synonym 'd stage = "string \<times> ('d \<Rightarrow> 'd result)"

record 'd cell =
  channel :: "'d channel_item list"
  stage_worker :: "'d stage_worker"

record 'd pipeline =
  cells :: "'d cell list"
  closed :: bool
  results :: "'d list"
  failures :: "'d document_failure list"
  submitted :: "'d list"

definition init_pipeline :: "'d stage list \<Rightarrow> 'd pipeline result" where
  "init_pipeline stages =
     (if stages = [] then Inl (ValueError ''stages must not be empty'')
      else if list_ex (\<lambda>(name, _). name = '''') stages
        then Inl (ValueError ''stage names must not be empty'')
      else Inr \<lparr>cells = map (\<lambda>_. \<lparr>channel = [], stage_worker = Ready\<rparr>) stages, closed = False,
                results = [], failures = [], submitted = []\<rparr>)"

definition put_item :: "'d channel_item \<Rightarrow> 'd cell \<Rightarrow> 'd cell" where
  "put_item x c = c\<lparr>channel := channel c @ [x]\<rparr>"

subsection \<open>Submitting and closing\<close>

definition submit_document :: "'d \<Rightarrow> 'd pipeline \<Rightarrow> unit result \<times> 'd pipeline" where
  "submit_document d p =
     (if closed p then (Inl (RuntimeError ''document pipeline is closed''), p)
      else (Inr (), p\<lparr>cells := (cells p)[0 := put_item (Item d d) (cells p ! 0)],
                      submitted := submitted p @ [d]\<rparr>))"

definition begin_close :: "'d pipeline \<Rightarrow> 'd pipeline" where
  "begin_close p =
     (if closed p then p
      else p\<lparr>closed := True, cells := (cells p)[0 := put_item Sentinel (cells p ! 0)]\<rparr>)"

definition worker_alive :: "'d cell \<Rightarrow> bool" where
  "worker_alive c \<longleftrightarrow> (case stage_worker c of Ended \<Rightarrow> False | Died e \<Rightarrow> False | _ \<Rightarrow> True)"

text \<open>What \<open>close\<close> returns, after joining the workers with what is left of the timeout.\<close>

definition close_result :: "'d pipeline \<Rightarrow> bool" where
  "close_result p \<longleftrightarrow> list_all (\<lambda>c. \<not> worker_alive c) (cells p)"

subsection \<open>The workers\<close>

text \<open>
  \<open>None\<close>: the worker of the stage cannot take a step. The steps of the worker of stage \<open>i\<close> are
  written along the list of cells: the first cell and, for a hand-over, the one after it.
\<close>

fun take_item :: "nat \<Rightarrow> 'd cell list \<Rightarrow> 'd cell list option" where
  "take_item i [] = None"
| "take_item (Suc i) (c # cs) = map_option (\<lambda>cs'. c # cs') (take_item i cs)"
| "take_item 0 (c # cs) =
     (case (stage_worker c, channel c) of
        (Ready, Item orig cur # xs) \<Rightarrow>
          Some (c\<lparr>channel := xs, stage_worker := Working orig cur\<rparr> # cs)
      | (Ready, Sentinel # xs) \<Rightarrow>
          Some (c\<lparr>channel := xs, stage_worker := Ended\<rparr> #
            (case cs of [] \<Rightarrow> [] | c' # cs' \<Rightarrow> put_item Sentinel c' # cs'))
      | _ \<Rightarrow> None)"

datatype 'd stage_output =
    Nothing_out
  | Result_out 'd
  | Failure_out "'d document_failure"

fun run_stage :: "nat \<Rightarrow> 'd stage list \<Rightarrow> 'd cell list \<Rightarrow> ('d stage_output \<times> 'd cell list) option" where
  "run_stage i [] cs = None"
| "run_stage i ss [] = None"
| "run_stage (Suc i) (s # ss) (c # cs) =
     map_option (\<lambda>(out, cs'). (out, c # cs')) (run_stage i ss cs)"
| "run_stage 0 ((name, f) # ss) (c # cs) =
     (case stage_worker c of
        Working orig cur \<Rightarrow>
          (case f cur of
             Inr out \<Rightarrow>
               (case cs of
                  [] \<Rightarrow> Some (Result_out out, [c\<lparr>stage_worker := Ready\<rparr>])
                | c' # cs' \<Rightarrow>
                    Some (Nothing_out, c\<lparr>stage_worker := Ready\<rparr> # put_item (Item orig out) c' # cs'))
           | Inl e \<Rightarrow>
               if is_exception e
               then Some (Failure_out \<lparr>document = orig, stage_name = name, stage_error = e\<rparr>,
                          c\<lparr>stage_worker := Ready\<rparr> # cs)
               else Some (Nothing_out, c\<lparr>stage_worker := Died e\<rparr> # cs))
      | _ \<Rightarrow> None)"

definition record_output :: "'d stage_output \<Rightarrow> 'd pipeline \<Rightarrow> 'd pipeline" where
  "record_output out p =
     (case out of
        Nothing_out \<Rightarrow> p
      | Result_out d \<Rightarrow> p\<lparr>results := results p @ [d]\<rparr>
      | Failure_out x \<Rightarrow> p\<lparr>failures := failures p @ [x]\<rparr>)"

datatype 'd pipeline_event =
    Submit_document 'd
  | Close
  | Take_item nat
  | Stage_ends nat

definition pipeline_step :: "'d stage list \<Rightarrow> 'd pipeline \<Rightarrow> 'd pipeline_event \<Rightarrow> 'd pipeline option" where
  "pipeline_step stages p e =
     (case e of
        Submit_document d \<Rightarrow> Some (snd (submit_document d p))
      | Close \<Rightarrow> Some (begin_close p)
      | Take_item i \<Rightarrow> map_option (\<lambda>cs. p\<lparr>cells := cs\<rparr>) (take_item i (cells p))
      | Stage_ends i \<Rightarrow>
          map_option (\<lambda>(out, cs). record_output out (p\<lparr>cells := cs\<rparr>))
            (run_stage i stages (cells p)))"

subsection \<open>What happens to a document\<close>

text \<open>The specification: run a document through the stages, one after another.\<close>

fun fate :: "'d stage list \<Rightarrow> 'd \<Rightarrow> 'd \<Rightarrow> 'd document_failure + 'd" where
  "fate [] orig d = Inr d"
| "fate ((name, f) # ss) orig d =
     (case f d of
        Inl e \<Rightarrow> Inl \<lparr>document = orig, stage_name = name, stage_error = e\<rparr>
      | Inr d' \<Rightarrow> fate ss orig d')"

fun item_fate :: "'d stage list \<Rightarrow> 'd channel_item \<Rightarrow> ('d document_failure + 'd) list" where
  "item_fate ss (Item orig d) = [fate ss orig d]"
| "item_fate ss Sentinel = []"

fun worker_fate :: "'d stage list \<Rightarrow> 'd stage_worker \<Rightarrow> ('d document_failure + 'd) list" where
  "worker_fate ss (Working orig d) = [fate ss orig d]"
| "worker_fate ss _ = []"

definition cell_fates :: "'d stage list \<Rightarrow> 'd cell \<Rightarrow> ('d document_failure + 'd) list" where
  "cell_fates ss c = worker_fate ss (stage_worker c) @ concat (map (item_fate ss) (channel c))"

text \<open>The fates of all documents on their way, those that entered first first.\<close>

fun on_the_way :: "'d stage list \<Rightarrow> 'd cell list \<Rightarrow> ('d document_failure + 'd) list" where
  "on_the_way (s # ss) (c # cs) = on_the_way ss cs @ cell_fates (s # ss) c"
| "on_the_way _ _ = []"

fun good_of :: "'a + 'b \<Rightarrow> 'b list" where
  "good_of (Inr d) = [d]"
| "good_of (Inl x) = []"

fun bad_of :: "'a + 'b \<Rightarrow> 'a list" where
  "bad_of (Inl x) = [x]"
| "bad_of (Inr d) = []"

definition goods :: "('a + 'b) list \<Rightarrow> 'b list" where
  "goods xs = concat (map good_of xs)"

definition bads :: "('a + 'b) list \<Rightarrow> 'a list" where
  "bads xs = concat (map bad_of xs)"

lemma goods_simps [simp]:
  "goods [] = []" "goods (xs @ ys) = goods xs @ goods ys" "goods (Inr d # xs) = d # goods xs"
  "goods (Inl x # xs) = goods xs"
  by (simp_all add: goods_def)

lemma bads_simps [simp]:
  "bads [] = []" "bads (xs @ ys) = bads xs @ bads ys" "bads (Inl d # xs) = d # bads xs"
  "bads (Inr x # xs) = bads xs"
  by (simp_all add: bads_def)

lemma cell_fates_put [simp]: "cell_fates ss (put_item x c) = cell_fates ss c @ item_fate ss x"
  by (simp add: cell_fates_def put_item_def)

text \<open>Taking an item moves nothing past anything.\<close>

lemma take_item_fates:
  "take_item i cs = Some cs' \<Longrightarrow> length cs = length ss \<Longrightarrow> on_the_way ss cs' = on_the_way ss cs"
proof (induction i cs arbitrary: ss cs' rule: take_item.induct)
  case (2 i c cs)
  then obtain s ss' where "ss = s # ss'" by (cases ss) auto
  with 2 show ?case by auto
next
  case (3 c cs)
  then obtain s ss' where ss: "ss = s # ss'" by (cases ss) auto
  from 3(1) obtain x xs where c: "stage_worker c = Ready" "channel c = x # xs"
    by (auto split: stage_worker.splits list.splits)
  show ?case
  proof (cases x)
    case (Item orig d)
    with 3(1) c ss show ?thesis by (auto simp: cell_fates_def)
  next
    case Sentinel
    with 3 c ss show ?thesis
      by (cases cs; cases ss') (auto simp: cell_fates_def put_item_def)
  qed
qed simp

text \<open>Running a stage moves the head of what is on its way, if the worker survives.\<close>

fun output_fate :: "'d stage_output \<Rightarrow> ('d document_failure + 'd) list" where
  "output_fate Nothing_out = []"
| "output_fate (Result_out d) = [Inr d]"
| "output_fate (Failure_out x) = [Inl x]"

fun not_died :: "'d stage_worker \<Rightarrow> bool" where
  "not_died (Died e) = False"
| "not_died _ = True"

definition survivors :: "'d cell list \<Rightarrow> bool" where
  "survivors cs \<longleftrightarrow> list_all (\<lambda>c. not_died (stage_worker c)) cs"

lemma survivors_simps [simp]:
  "survivors []" "survivors (c # cs) \<longleftrightarrow> not_died (stage_worker c) \<and> survivors cs"
  by (simp_all add: survivors_def)

lemma run_stage_fates:
  "run_stage i ss cs = Some (out, cs') \<Longrightarrow> length cs = length ss \<Longrightarrow> survivors cs' \<Longrightarrow>
     goods (on_the_way ss cs) = goods (output_fate out) @ goods (on_the_way ss cs') \<and>
     mset (bads (on_the_way ss cs)) = mset (bads (output_fate out)) + mset (bads (on_the_way ss cs'))"
proof (induction i ss cs arbitrary: out cs' rule: run_stage.induct)
  case (3 i s ss c cs)
  from 3(2) obtain ds where ds: "run_stage i ss cs = Some (out, ds)" "cs' = c # ds" by auto
  with 3(4) have "survivors ds" by simp
  with 3(1)[OF ds(1)] 3(3) have ih: "goods (on_the_way ss cs) = goods (output_fate out) @ goods (on_the_way ss ds)"
    "mset (bads (on_the_way ss cs)) = mset (bads (output_fate out)) + mset (bads (on_the_way ss ds))"
    by simp_all
  with ds show ?case by simp
next
  case (4 name f ss c cs)
  from 4(1) obtain orig cur where w: "stage_worker c = Working orig cur"
    by (auto split: stage_worker.splits)
  show ?case
  proof (cases "f cur")
    case (Inl e)
    with 4(1,3) w have "out = Failure_out \<lparr>document = orig, stage_name = name, stage_error = e\<rparr>"
      "cs' = c\<lparr>stage_worker := Ready\<rparr> # cs" by (auto split: if_splits)
    with Inl w show ?thesis by (simp add: cell_fates_def)
  next
    case (Inr d)
    with 4(1,2) w show ?thesis
      by (cases cs; cases ss) (auto simp: cell_fates_def put_item_def)
  qed
qed auto

subsection \<open>The sentinel comes last\<close>

fun is_doc :: "'d channel_item \<Rightarrow> bool" where
  "is_doc (Item orig d) = True"
| "is_doc Sentinel = False"

text \<open>
  A cell knows whether the stage before it has ended: then its worker has ended too with
  nothing left, or the sentinel stands at the end of its channel.
\<close>

definition cell_ok :: "bool \<Rightarrow> 'd cell \<Rightarrow> bool" where
  "cell_ok ended c \<longleftrightarrow>
     (if stage_worker c = Ended then ended \<and> channel c = []
      else if ended
        then channel c \<noteq> [] \<and> last (channel c) = Sentinel \<and> list_all is_doc (butlast (channel c))
      else list_all is_doc (channel c))"

fun cells_ok :: "bool \<Rightarrow> 'd cell list \<Rightarrow> bool" where
  "cells_ok ended [] = True"
| "cells_ok ended (c # cs) = (cell_ok ended c \<and> cells_ok (stage_worker c = Ended) cs)"

lemma put_item_fields [simp]:
  "stage_worker (put_item x c) = stage_worker c" "channel (put_item x c) = channel c @ [x]"
  by (simp_all add: put_item_def)

lemma put_doc_ok: "cell_ok False c \<Longrightarrow> cell_ok False (put_item (Item orig d) c)"
  by (auto simp: cell_ok_def split: if_splits)

lemma put_sentinel_ok: "cell_ok False c \<Longrightarrow> cell_ok True (put_item Sentinel c)"
  by (auto simp: cell_ok_def split: if_splits)

lemma take_item_ok:
  "take_item i cs = Some cs' \<Longrightarrow> cells_ok ended cs \<Longrightarrow> cells_ok ended cs'"
proof (induction i cs arbitrary: ended cs' rule: take_item.induct)
  case (3 c cs)
  from 3(1) obtain x xs where c: "stage_worker c = Ready" "channel c = x # xs"
    by (auto split: stage_worker.splits list.splits)
  show ?case
  proof (cases x)
    case (Item orig d)
    with 3 c show ?thesis by (auto simp: cell_ok_def split: if_splits)
  next
    case Sentinel
    with 3 c have "ended" "xs = []" by (auto simp: cell_ok_def split: if_splits)
    moreover have "cell_ok True (c\<lparr>channel := [], stage_worker := Ended\<rparr>)"
      by (simp add: cell_ok_def)
    ultimately show ?thesis using 3 c Sentinel by (cases cs) (auto intro: put_sentinel_ok)
  qed
qed auto

lemma run_stage_ok:
  "run_stage i ss cs = Some (out, cs') \<Longrightarrow> cells_ok ended cs \<Longrightarrow> cells_ok ended cs'"
proof (induction i ss cs arbitrary: out ended cs' rule: run_stage.induct)
  case (4 name f ss c cs)
  from 4(1) obtain orig cur where w: "stage_worker c = Working orig cur"
    by (auto split: stage_worker.splits)
  with 4(2) have ok: "cell_ok ended (c\<lparr>stage_worker := Ready\<rparr>)" "cell_ok ended (c\<lparr>stage_worker := Died e\<rparr>)"
    "cells_ok False cs" for e by (auto simp: cell_ok_def)
  show ?case
  proof (cases "f cur")
    case (Inl e)
    with 4(1) w ok show ?thesis by (auto split: if_splits)
  next
    case (Inr d)
    with 4(1) w ok show ?thesis by (cases cs) (auto intro: put_doc_ok)
  qed
qed auto

lemma take_item_length: "take_item i cs = Some cs' \<Longrightarrow> length cs' = length cs"
  by (induction i cs arbitrary: cs' rule: take_item.induct)
    (auto split: stage_worker.splits list.splits channel_item.splits)

lemma run_stage_length: "run_stage i ss cs = Some (out, cs') \<Longrightarrow> length cs' = length cs"
  by (induction i ss cs arbitrary: out cs' rule: run_stage.induct)
    (auto split: stage_worker.splits list.splits sum.splits if_splits)

lemma take_item_survivors: "take_item i cs = Some cs' \<Longrightarrow> survivors cs' \<longleftrightarrow> survivors cs"
  by (induction i cs arbitrary: cs' rule: take_item.induct)
    (auto split: stage_worker.splits list.splits channel_item.splits)

lemma run_stage_survivors: "run_stage i ss cs = Some (out, cs') \<Longrightarrow> survivors cs' \<Longrightarrow> survivors cs"
  by (induction i ss cs arbitrary: out cs' rule: run_stage.induct)
    (auto split: stage_worker.splits list.splits sum.splits if_splits)

subsection \<open>Invariant\<close>

definition fates :: "'d stage list \<Rightarrow> 'd list \<Rightarrow> ('d document_failure + 'd) list" where
  "fates stages ds = map (\<lambda>d. fate stages d d) ds"

definition accounted :: "'d stage list \<Rightarrow> 'd pipeline \<Rightarrow> bool" where
  "accounted stages p \<longleftrightarrow>
     goods (fates stages (submitted p)) = results p @ goods (on_the_way stages (cells p)) \<and>
     mset (bads (fates stages (submitted p))) =
       mset (failures p) + mset (bads (on_the_way stages (cells p)))"

definition pipeline_ok :: "'d stage list \<Rightarrow> 'd pipeline \<Rightarrow> bool" where
  "pipeline_ok stages p \<longleftrightarrow>
     stages \<noteq> [] \<and> length (cells p) = length stages \<and> cells_ok (closed p) (cells p) \<and>
     (survivors (cells p) \<longrightarrow> accounted stages p)"

lemma record_output_fields [simp]:
  "cells (record_output out p) = cells p" "closed (record_output out p) = closed p"
  "submitted (record_output out p) = submitted p"
  "results (record_output out p) = results p @ goods (output_fate out)"
  "failures (record_output out p) = failures p @ bads (output_fate out)"
  by (cases out; simp add: record_output_def)+

lemma pipeline_ok_start:
  assumes "init_pipeline stages = Inr p"
  shows "pipeline_ok stages p"
proof -
  have "cells_ok False (map (\<lambda>_. \<lparr>channel = [], stage_worker = Ready\<rparr>) ss)" for ss :: "'a stage list"
    by (induction ss) (auto simp: cell_ok_def)
  moreover have "on_the_way ss (map (\<lambda>_. \<lparr>channel = [], stage_worker = Ready\<rparr>) ss) = []" for ss :: "'a stage list"
    by (induction ss) (auto simp: cell_fates_def)
  ultimately show ?thesis using assms
    by (auto simp: init_pipeline_def pipeline_ok_def accounted_def fates_def split: if_splits)
qed

lemma pipeline_ok_step:
  assumes ok: "pipeline_ok stages p" and step: "pipeline_step stages p e = Some p'"
  shows "pipeline_ok stages p'"
proof -
  from ok obtain s ss c cs where ss: "stages = s # ss" and cs: "cells p = c # cs"
    by (cases stages; cases "cells p") (auto simp: pipeline_ok_def)
  show ?thesis
  proof (cases e)
    case (Submit_document d)
    with step ok ss cs show ?thesis
      by (cases "closed p") (auto simp: pipeline_step_def submit_document_def pipeline_ok_def
          accounted_def fates_def intro: put_doc_ok)
  next
    case Close
    with step ok ss cs show ?thesis
      by (cases "closed p") (auto simp: pipeline_step_def begin_close_def pipeline_ok_def
          accounted_def intro: put_sentinel_ok)
  next
    case (Take_item i)
    with step obtain ds where ds: "take_item i (cells p) = Some ds" "p' = p\<lparr>cells := ds\<rparr>"
      by (auto simp: pipeline_step_def)
    from take_item_fates[OF ds(1), of stages] take_item_ok[OF ds(1)] take_item_length[OF ds(1)]
      take_item_survivors[OF ds(1)] ok ds(2)
    show ?thesis by (auto simp: pipeline_ok_def accounted_def)
  next
    case (Stage_ends i)
    with step obtain out ds where ds: "run_stage i stages (cells p) = Some (out, ds)"
      "p' = record_output out (p\<lparr>cells := ds\<rparr>)" by (auto simp: pipeline_step_def)
    from run_stage_fates[OF ds(1)] run_stage_ok[OF ds(1)] run_stage_length[OF ds(1)]
      run_stage_survivors[OF ds(1)] ok ds(2)
    show ?thesis by (auto simp: pipeline_ok_def accounted_def)
  qed
qed

interpretation pipelines: invariant_machine "pipeline_step stages"
  "\<lambda>p. init_pipeline stages = Inr p" "pipeline_ok stages" for stages :: "'d stage list"
  by unfold_locales (auto intro: pipeline_ok_start pipeline_ok_step)

lemma ended_empty:
  "cells_ok ended cs \<Longrightarrow> list_all (\<lambda>c. stage_worker c = Ended) cs \<Longrightarrow> on_the_way ss cs = []"
proof (induction ss cs arbitrary: ended rule: on_the_way.induct)
  case (1 s ss c cs)
  then show ?case by (auto simp: cell_ok_def cell_fates_def)
qed simp_all

subsection \<open>Every worker step brings the end nearer\<close>

fun work :: "'d cell list \<Rightarrow> nat" where
  "work [] = 0"
| "work (c # cs) =
     2 * Suc (length cs) * length (channel c) +
     (case stage_worker c of Working orig d \<Rightarrow> 2 * Suc (length cs) - 1 | _ \<Rightarrow> 0) + work cs"

lemma take_item_work: "take_item i cs = Some cs' \<Longrightarrow> work cs' < work cs"
proof (induction i cs arbitrary: cs' rule: take_item.induct)
  case (2 i c cs)
  then obtain z where z: "take_item i cs = Some z" "cs' = c # z" by auto
  from 2(1)[OF z(1)] take_item_length[OF z(1)] z(2) show ?case by (simp split: stage_worker.split)
next
  case (3 c cs)
  then show ?case
    by (auto split: stage_worker.splits list.splits channel_item.splits)
qed simp

lemma run_stage_work: "run_stage i ss cs = Some (out, cs') \<Longrightarrow> work cs' < work cs"
proof (induction i ss cs arbitrary: out cs' rule: run_stage.induct)
  case (3 i s ss c cs)
  then obtain z where z: "run_stage i ss cs = Some (out, z)" "cs' = c # z" by auto
  from 3(1)[OF z(1)] run_stage_length[OF z(1)] z(2) show ?case by (simp split: stage_worker.split)
next
  case (4 name f ss c cs)
  then show ?case
    by (auto split: stage_worker.splits list.splits sum.splits if_splits)
qed auto

text \<open>Behind an ended stage, some worker that has not ended can take a step.\<close>

lemma some_worker_moves:
  "cells_ok True cs \<Longrightarrow> survivors cs \<Longrightarrow> \<not> list_all (\<lambda>c. stage_worker c = Ended) cs \<Longrightarrow>
   length cs = length ss \<Longrightarrow>
   \<exists>i < length cs. take_item i cs \<noteq> None \<or> run_stage i ss cs \<noteq> None"
proof (induction cs arbitrary: ss)
  case (Cons c cs)
  then obtain name f ss' where ss: "ss = (name, f) # ss'" by (cases ss) auto
  show ?case
  proof (cases "stage_worker c = Ended")
    case True
    with Cons.prems have "cells_ok True cs" "survivors cs"
      "\<not> list_all (\<lambda>c. stage_worker c = Ended) cs" "length cs = length ss'"
      using ss by auto
    from Cons.IH[OF this] obtain i where "i < length cs"
      "take_item i cs \<noteq> None \<or> run_stage i ss' cs \<noteq> None" by blast
    with ss show ?thesis by (intro exI[of _ "Suc i"]) auto
  next
    case False
    with Cons.prems have "channel c \<noteq> []" by (simp add: cell_ok_def)
    then obtain x xs where "channel c = x # xs" by (cases "channel c") auto
    moreover have "not_died (stage_worker c)" using Cons.prems(2) by simp
    ultimately show ?thesis using False ss
      by (intro exI[of _ 0], cases "stage_worker c"; cases x)
        (auto split: sum.splits list.splits if_splits)
  qed
qed simp

subsection \<open>Stages that raise exceptions only\<close>

text \<open>A stage that raises more than an \<open>Exception\<close> ends its worker thread; these do not.\<close>

definition ordinary_stages :: "'d stage list \<Rightarrow> bool" where
  "ordinary_stages ss \<longleftrightarrow> list_all (\<lambda>(name, f). \<forall>d e. f d = Inl e \<longrightarrow> is_exception e) ss"

lemma run_stage_survives:
  "run_stage i ss cs = Some (out, cs') \<Longrightarrow> ordinary_stages ss \<Longrightarrow> survivors cs \<Longrightarrow> survivors cs'"
proof (induction i ss cs arbitrary: out cs' rule: run_stage.induct)
  case (3 i s ss c cs)
  then obtain z where z: "run_stage i ss cs = Some (out, z)" "cs' = c # z" by auto
  with 3(1)[OF z(1)] 3(3,4) show ?case by (simp add: ordinary_stages_def)
next
  case (4 name f ss c cs)
  then show ?case
    by (auto simp: ordinary_stages_def put_item_def
        split: stage_worker.splits list.splits sum.splits if_splits)
qed auto

lemma pipeline_survives:
  assumes step: "pipeline_step stages p e = Some p'" and ord: "ordinary_stages stages"
    and surv: "survivors (cells p)" and ok: "pipeline_ok stages p"
  shows "survivors (cells p')"
proof (cases e)
  case (Take_item i)
  with step surv show ?thesis by (auto simp: pipeline_step_def take_item_survivors)
next
  case (Stage_ends i)
  with step obtain out ds where ds: "run_stage i stages (cells p) = Some (out, ds)"
    "p' = record_output out (p\<lparr>cells := ds\<rparr>)" by (auto simp: pipeline_step_def)
  from run_stage_survives[OF ds(1) ord surv] ds(2) show ?thesis by simp
qed (use assms in \<open>cases "cells p"; auto simp: pipeline_step_def submit_document_def begin_close_def
      put_item_def pipeline_ok_def\<close>)+

interpretation surviving: invariant_machine "pipeline_step stages"
  "\<lambda>p. init_pipeline stages = Inr p \<and> ordinary_stages stages"
  "\<lambda>p. pipeline_ok stages p \<and> ordinary_stages stages \<and> survivors (cells p)"
  for stages :: "'d stage list"
proof unfold_locales
  show "pipeline_ok stages p \<and> ordinary_stages stages \<and> survivors (cells p)"
    if "init_pipeline stages = Inr p \<and> ordinary_stages stages" for p
    using that pipeline_ok_start[of stages p]
    by (auto simp: init_pipeline_def survivors_def list_all_iff split: if_splits)
qed (blast intro: pipeline_ok_step pipeline_survives)

text \<open>The workers of a closed pipeline finish it.\<close>

fun worker_moves :: "'d pipeline_event \<Rightarrow> bool" where
  "worker_moves (Take_item i) = True"
| "worker_moves (Stage_ends i) = True"
| "worker_moves _ = False"

definition closing :: "'d stage list \<Rightarrow> 'd pipeline \<Rightarrow> bool" where
  "closing stages p \<longleftrightarrow>
     pipeline_ok stages p \<and> closed p \<and> ordinary_stages stages \<and> survivors (cells p)"

lemma closed_stays: "pipeline_step stages p e = Some p' \<Longrightarrow> closed p \<Longrightarrow> closed p'"
  by (cases e) (auto simp: pipeline_step_def submit_document_def begin_close_def)

lemma closing_step: "closing stages p \<Longrightarrow> pipeline_step stages p e = Some p' \<Longrightarrow> closing stages p'"
  by (auto simp: closing_def intro: pipeline_ok_step pipeline_survives closed_stays)

lemma worker_event_work:
  "worker_moves e \<Longrightarrow> pipeline_step stages p e = Some p' \<Longrightarrow> work (cells p') < work (cells p)"
  by (cases e) (auto simp: pipeline_step_def intro: take_item_work run_stage_work)

lemma closed_step_work:
  assumes "closed p" and "pipeline_step stages p e = Some p'"
  shows "work (cells p') \<le> work (cells p)"
proof (cases "worker_moves e")
  case True
  from worker_event_work[OF this assms(2)] show ?thesis by simp
qed (use assms in \<open>cases e; auto simp: pipeline_step_def submit_document_def begin_close_def\<close>)

lemma closing_progress:
  assumes "closing stages p" and "\<not> close_result p"
  shows "\<exists>e. worker_moves e \<and> pipeline_step stages p e \<noteq> None"
proof -
  have "\<not> list_all (\<lambda>c. stage_worker c = Ended) (cells p)"
    using assms(2) by (auto simp: close_result_def list_all_iff worker_alive_def split: stage_worker.splits)
  with assms(1) have "\<exists>i < length (cells p). take_item i (cells p) \<noteq> None \<or> run_stage i stages (cells p) \<noteq> None"
    by (intro some_worker_moves) (auto simp: closing_def pipeline_ok_def)
  then obtain i where "take_item i (cells p) \<noteq> None \<or> run_stage i stages (cells p) \<noteq> None" by blast
  then show ?thesis
  proof
    assume "take_item i (cells p) \<noteq> None"
    then show ?thesis by (intro exI[of _ "Take_item i"]) (simp add: pipeline_step_def)
  next
    assume "run_stage i stages (cells p) \<noteq> None"
    then show ?thesis by (intro exI[of _ "Stage_ends i"]) (auto simp: pipeline_step_def)
  qed
qed

interpretation closings: finishing_machine "pipeline_step stages" "closing stages" "\<lambda>_. True"
  worker_moves close_result "\<lambda>p. work (cells p)" for stages :: "'d stage list"
proof unfold_locales
  show "work (cells p') \<le> work (cells p)" if "closing stages p" "pipeline_step stages p e = Some p'"
    for p e p' using that by (auto simp: closing_def intro: closed_step_work)
qed (auto simp only: intro: closing_step worker_event_work closing_progress)

text \<open>When all workers have ended, nothing is on the way.\<close>

lemma complete_when_ended:
  assumes ok: "pipeline_ok stages p" and surv: "survivors (cells p)" and over: "close_result p"
  shows "closed p \<and> results p = goods (fates stages (submitted p)) \<and>
         mset (failures p) = mset (bads (fates stages (submitted p)))"
proof -
  have "stage_worker c = Ended" if "c \<in> set (cells p)" for c
    using that surv over
    by (cases "stage_worker c") (force simp: survivors_def close_result_def worker_alive_def list_all_iff)+
  then have ended: "list_all (\<lambda>c. stage_worker c = Ended) (cells p)" by (simp add: list_all_iff)
  with ok have "on_the_way stages (cells p) = []" by (auto simp: pipeline_ok_def intro: ended_empty)
  moreover have "closed p"
    using ok ended by (cases "cells p") (auto simp: pipeline_ok_def cell_ok_def)
  ultimately show ?thesis using ok surv by (simp add: pipeline_ok_def accounted_def)
qed

subsection \<open>Properties\<close>

text \<open>
  The pipeline computes, stage by stage and in order: under every interleaving of submitters
  and workers, as long as no stage raised more than an \<open>Exception\<close>, the results are a prefix
  of the results of running the submitted documents through all stages one after another, and
  the recorded failures are among theirs, each once, with the stage that raised it.
\<close>

lemma pipeline_keeps_order:
  assumes "init_pipeline stages = Inr p0" and "runs (pipeline_step stages) p0 schedule = Some p"
    and "survivors (cells p)"
  shows "(\<exists>rest. goods (fates stages (submitted p)) = results p @ rest) \<and>
         mset (failures p) \<subseteq># mset (bads (fates stages (submitted p)))"
  using pipelines.invariant[OF assms(1,2)] assms(3) by (auto simp: pipeline_ok_def accounted_def)

text \<open>
  C2. When \<open>close\<close> returns true, everything submitted has been processed, provided that no
  worker has died of an exception that is not an \<open>Exception\<close>: the results are exactly
  the outputs of the documents that pass all stages, in the order of submission, the failures
  are exactly those of the other documents (in an order that depends on the schedule, so they are
  compared as multisets), and no document can be submitted any more.
\<close>

theorem closed_pipeline_is_complete:
  assumes "init_pipeline stages = Inr p0" and "runs (pipeline_step stages) p0 schedule = Some p"
    and "survivors (cells p)" and "close_result p"
  shows "results p = goods (fates stages (submitted p)) \<and>
         mset (failures p) = mset (bads (fates stages (submitted p))) \<and>
         fst (submit_document d p) = Inl (RuntimeError ''document pipeline is closed'')"
  using complete_when_ended[OF pipelines.invariant[OF assms(1,2)] assms(3,4)]
  by (simp add: submit_document_def)

text \<open>
  C30. A closed pipeline comes to an end, whatever its callers still do, if no stage raises more
  than an \<open>Exception\<close>: the workers take at most as many steps as there is work left, when none
  of them can take a step any more \<open>close\<close> returns true, and steps of theirs that lead there
  always exist.
\<close>

theorem closed_pipeline_finishes:
  assumes "init_pipeline stages = Inr p0" and "ordinary_stages stages"
    and "runs (pipeline_step stages) p0 schedule = Some p" and "closed p"
    and "runs (pipeline_step stages) p after = Some q"
  shows "length (filter worker_moves after) + work (cells q) \<le> work (cells p) \<and>
         ((\<forall>e. worker_moves e \<longrightarrow> pipeline_step stages q e = None) \<longrightarrow> close_result q) \<and>
         (\<exists>rest r. list_all worker_moves rest \<and> runs (pipeline_step stages) q rest = Some r \<and>
            close_result r \<and> length rest \<le> work (cells q))"
proof (rule closings.comes_to_an_end[OF _ _ assms(5)])
  show "closing stages p"
    using surviving.invariant[OF conjI[OF assms(1,2)] assms(3)] assms(4)
    by (simp add: closing_def)
qed (simp add: list_all_iff)

text \<open>Two stages; the first rejects empty documents, the second appends a mark.\<close>

definition two_stages :: "string stage list" where
  "two_stages =
     [(''parse'', \<lambda>d. if d = '''' then Inl (UserError ''empty'') else Inr d),
      (''mark'', \<lambda>d. Inr (d @ ''!''))]"

definition empty_pipeline :: "string pipeline" where
  "empty_pipeline =
     \<lparr>cells = [\<lparr>channel = [], stage_worker = Ready\<rparr>, \<lparr>channel = [], stage_worker = Ready\<rparr>],
      closed = False, results = [], failures = [], submitted = []\<rparr>"

definition pipeline_schedule :: "string pipeline_event list" where
  "pipeline_schedule =
     [Submit_document ''a'', Take_item 0, Submit_document '''', Stage_ends 0, Submit_document ''b'',
      Take_item 0, Take_item 1, Close]"

definition pipeline_rest :: "string pipeline_event list" where
  "pipeline_rest =
     [Stage_ends 0, Take_item 0, Stage_ends 1, Stage_ends 0, Take_item 0, Take_item 1, Stage_ends 1,
      Take_item 1]"

definition closing_pipeline :: "string pipeline" where
  "closing_pipeline = the (runs (pipeline_step two_stages) empty_pipeline pipeline_schedule)"

definition closed_pipeline :: "string pipeline" where
  "closed_pipeline = the (runs (pipeline_step two_stages) closing_pipeline pipeline_rest)"

lemmas pipeline_eval =
  pipeline_step_def submit_document_def begin_close_def record_output_def put_item_def
  empty_pipeline_def two_stages_def survivors_def close_result_def worker_alive_def
  numeral_2_eq_2

lemma closing_run:
  "init_pipeline two_stages = Inr empty_pipeline"
  "runs (pipeline_step two_stages) empty_pipeline pipeline_schedule = Some closing_pipeline"
  "closed closing_pipeline" "survivors (cells closing_pipeline)" "\<not> close_result closing_pipeline"
  by (simp_all add: init_pipeline_def closing_pipeline_def pipeline_schedule_def pipeline_eval)

lemma closed_run:
  "runs (pipeline_step two_stages) empty_pipeline (pipeline_schedule @ pipeline_rest) = Some closed_pipeline"
  "survivors (cells closed_pipeline)" "close_result closed_pipeline"
  "results closed_pipeline = [''a!'', ''b!'']" "submitted closed_pipeline = [''a'', '''', ''b'']"
  by (simp_all add: closed_pipeline_def closing_pipeline_def pipeline_schedule_def pipeline_rest_def
      pipeline_eval)

lemma pipeline_keeps_order_witness:
  "\<exists>rest. goods (fates two_stages (submitted closed_pipeline)) = [''a!'', ''b!''] @ rest"
  using pipeline_keeps_order[OF closing_run(1) closed_run(1,2)] closed_run(4) by simp

theorem closed_pipeline_is_complete_witness:
  "goods (fates two_stages [''a'', '''', ''b'']) = [''a!'', ''b!''] \<and>
   mset (failures closed_pipeline) = mset (bads (fates two_stages [''a'', '''', ''b'']))"
  using closed_pipeline_is_complete[OF closing_run(1) closed_run(1-3)] closed_run(4,5) by simp

lemma two_stages_ordinary: "ordinary_stages two_stages"
  by (auto simp: ordinary_stages_def two_stages_def split: if_splits)

theorem closed_pipeline_finishes_witness:
  "\<exists>rest r. list_all worker_moves rest \<and>
     runs (pipeline_step two_stages) closing_pipeline rest = Some r \<and> close_result r \<and>
     length rest \<le> work (cells closing_pipeline)"
  using closed_pipeline_finishes[OF closing_run(1) two_stages_ordinary closing_run(2,3), of "[]"]
  by simp

text \<open>
  Without that condition \<open>close\<close> can return true although documents are lost: here the only stage
  raises what is not an \<open>Exception\<close> for the first of two documents. Its worker dies, the second
  document stays in the queue, and neither is among the results or the failures.
\<close>

definition fatal_stages :: "string stage list" where
  "fatal_stages = [(''parse'', \<lambda>d. if d = ''a'' then Inl (ExitRequest ''SystemExit'') else Inr d)]"

lemma dead_worker_loses_documents:
  "\<exists>p0 p. init_pipeline fatal_stages = Inr p0 \<and>
     runs (pipeline_step fatal_stages) p0
       [Submit_document ''a'', Submit_document ''b'', Take_item 0, Stage_ends 0, Close] = Some p \<and>
     close_result p \<and> submitted p = [''a'', ''b''] \<and> results p = [] \<and> failures p = []"
  by (simp add: init_pipeline_def fatal_stages_def pipeline_eval)

end
