(* ===== verification/Pipeline_Close.thy ===== *)
theory Pipeline_Close
  imports Pipeline
begin

section \<open>documentpipeline: what close returns\<close>

text \<open>
  Models the second half of \<open>close\<close> in \<^verbatim>\<open>documentpipeline/pipeline.py\<close>: any number of callers,
  each with or without a deadline, join the workers one after another, every join with what
  is left until the deadline, and then look which workers still live. Once a deadline has
  passed, the remaining joins get a timeout of zero. A caller that joins may be interrupted by
  a signal; it then returns nothing, and the pipeline stays closed.
\<close>

subsection \<open>Callers of close\<close>

text \<open>
  \<open>joins\<close>: the next worker that a caller joins, and whether it has a deadline. \<open>close_log\<close> is a
  history variable: the caller, whether it had a deadline, and what \<open>close\<close> returned.
\<close>

record 'd closers =
  pipe :: "'d pipeline"
  joins :: "tid \<Rightarrow> (nat \<times> bool) option"
  close_log :: "(tid \<times> bool \<times> bool) list"

definition fresh_closers :: "'d pipeline \<Rightarrow> 'd closers" where
  "fresh_closers p = \<lparr>pipe = p, joins = (\<lambda>_. None), close_log = []\<rparr>"

datatype 'd close_event =
    Elsewhere "'d pipeline_event"
  | Call_close tid bool
  | Worker_joined tid
  | Deadline_passed tid
  | Close_interrupted tid
  | Close_returns tid

fun close_step :: "'d stage list \<Rightarrow> 'd closers \<Rightarrow> 'd close_event \<Rightarrow> 'd closers option" where
  "close_step stages s (Elsewhere e) =
     map_option (\<lambda>p. s\<lparr>pipe := p\<rparr>) (pipeline_step stages (pipe s) e)"
| "close_step stages s (Call_close t has_deadline) =
     (if joins s t \<noteq> None then None
      else Some (s\<lparr>pipe := begin_close (pipe s), joins := (joins s)(t \<mapsto> (0, has_deadline))\<rparr>))"
| "close_step stages s (Worker_joined t) =
     (case joins s t of
        Some (i, has_deadline) \<Rightarrow>
          if i < length (cells (pipe s)) \<and> \<not> worker_alive (cells (pipe s) ! i)
          then Some (s\<lparr>joins := (joins s)(t \<mapsto> (Suc i, has_deadline))\<rparr>) else None
      | None \<Rightarrow> None)"
| "close_step stages s (Deadline_passed t) =
     (case joins s t of
        Some (i, True) \<Rightarrow>
          if i < length (cells (pipe s))
          then Some (s\<lparr>joins := (joins s)(t \<mapsto> (Suc i, True))\<rparr>) else None
      | _ \<Rightarrow> None)"
| "close_step stages s (Close_interrupted t) =
     (if joins s t = None then None else Some (s\<lparr>joins := (joins s)(t := None)\<rparr>))"
| "close_step stages s (Close_returns t) =
     (case joins s t of
        Some (i, has_deadline) \<Rightarrow>
          if i < length (cells (pipe s)) then None
          else Some (s\<lparr>joins := (joins s)(t := None),
                       close_log := close_log s @ [(t, has_deadline, close_result (pipe s))]\<rparr>)
      | None \<Rightarrow> None)"

subsection \<open>A worker that has ended stays so\<close>

definition ended_stay :: "'d cell list \<Rightarrow> 'd cell list \<Rightarrow> bool" where
  "ended_stay cs cs' \<longleftrightarrow> list_all2 (\<lambda>c c'. worker_alive c' \<longrightarrow> worker_alive c) cs cs'"

lemma ended_stay_simps [simp]:
  "ended_stay [] cs' \<longleftrightarrow> cs' = []"
  "ended_stay (c # cs) (c' # cs') \<longleftrightarrow> (worker_alive c' \<longrightarrow> worker_alive c) \<and> ended_stay cs cs'"
  "ended_stay cs cs"
  by (auto simp: ended_stay_def intro: list_all2_refl)

lemma worker_alive_put [simp]: "worker_alive (put_item x c) = worker_alive c"
  by (simp add: worker_alive_def put_item_def)

lemma take_item_ended: "take_item i cs = Some cs' \<Longrightarrow> ended_stay cs cs'"
proof (induction i cs arbitrary: cs' rule: take_item.induct)
  case (3 c cs)
  then show ?case
    by (auto simp: worker_alive_def[of c] split: stage_worker.splits list.splits channel_item.splits)
qed auto

lemma run_stage_ended: "run_stage i ss cs = Some (out, cs') \<Longrightarrow> ended_stay cs cs'"
proof (induction i ss cs arbitrary: out cs' rule: run_stage.induct)
  case (4 name f ss c cs)
  then show ?case
    by (auto simp: worker_alive_def[of c] split: stage_worker.splits list.splits sum.splits if_splits)
qed auto

lemma put_first_ended: "ended_stay cs (cs[0 := put_item x (cs ! 0)])"
  by (cases cs) simp_all

lemma pipeline_step_ended: "pipeline_step stages p e = Some p' \<Longrightarrow> ended_stay (cells p) (cells p')"
  by (cases e) (auto simp: pipeline_step_def submit_document_def begin_close_def put_first_ended
      intro: take_item_ended run_stage_ended)

lemma ended_stay_nth:
  "ended_stay cs cs' \<Longrightarrow> length cs' = length cs \<and>
   (\<forall>i < length cs. \<not> worker_alive (cs ! i) \<longrightarrow> \<not> worker_alive (cs' ! i))"
  by (auto simp: ended_stay_def list_all2_conv_all_nth)

subsection \<open>Invariant\<close>

fun joined_ended :: "'d pipeline \<Rightarrow> (nat \<times> bool) option \<Rightarrow> bool" where
  "joined_ended p (Some (i, False)) \<longleftrightarrow>
     i \<le> length (cells p) \<and> (\<forall>j < i. \<not> worker_alive (cells p ! j))"
| "joined_ended p _ = True"

fun told_truth :: "'d pipeline \<Rightarrow> tid \<times> bool \<times> bool \<Rightarrow> bool" where
  "told_truth p (_, has_deadline, r) \<longleftrightarrow> (r \<longrightarrow> close_result p) \<and> (\<not> has_deadline \<longrightarrow> r)"

definition closers_ok :: "'d stage list \<Rightarrow> 'd closers \<Rightarrow> bool" where
  "closers_ok stages s \<longleftrightarrow>
     (\<forall>t. joined_ended (pipe s) (joins s t)) \<and> list_all (told_truth (pipe s)) (close_log s)"

lemma joined_ended_mono:
  "ended_stay (cells p) (cells p') \<Longrightarrow> joined_ended p x \<Longrightarrow> joined_ended p' x"
  by (cases "(p, x)" rule: joined_ended.cases) (auto dest!: ended_stay_nth)

lemma close_result_mono:
  "ended_stay (cells p) (cells p') \<Longrightarrow> close_result p \<Longrightarrow> close_result p'"
  by (auto simp: close_result_def list_all_length dest!: ended_stay_nth)

lemma closers_ok_move:
  assumes "closers_ok stages s" and "ended_stay (cells (pipe s)) (cells p)"
    and "\<And>t. joins s' t = joins s t \<or> joined_ended p (joins s' t)"
    and "pipe s' = p" and "close_log s' = close_log s"
  shows "closers_ok stages s'"
proof -
  have "told_truth (pipe s) x \<Longrightarrow> told_truth p x" for x
    using close_result_mono[OF assms(2)] by (cases x) auto
  moreover have "joined_ended p (joins s' t)" for t
    using assms(1) assms(3)[of t] joined_ended_mono[OF assms(2)] by (auto simp: closers_ok_def)
  ultimately show ?thesis using assms(1,4,5) by (auto simp: closers_ok_def list_all_iff)
qed

lemma closers_ok_step:
  assumes ok: "closers_ok stages s" and step: "close_step stages s e = Some s'"
  shows "closers_ok stages s'"
proof (cases e)
  case (Elsewhere x)
  with step obtain p where p: "pipeline_step stages (pipe s) x = Some p" "s' = s\<lparr>pipe := p\<rparr>" by auto
  from closers_ok_move[OF ok pipeline_step_ended[OF p(1)], of s'] p(2) show ?thesis by simp
next
  case (Call_close t b)
  with step have s': "s' = s\<lparr>pipe := begin_close (pipe s), joins := (joins s)(t \<mapsto> (0, b))\<rparr>"
    by (auto split: if_splits)
  have "ended_stay (cells (pipe s)) (cells (begin_close (pipe s)))"
    by (simp add: begin_close_def put_first_ended)
  from closers_ok_move[OF ok this, of s'] s' show ?thesis by (cases b) auto
next
  case (Worker_joined t)
  with step obtain i b where i: "joins s t = Some (i, b)" "i < length (cells (pipe s))"
    "\<not> worker_alive (cells (pipe s) ! i)" "s' = s\<lparr>joins := (joins s)(t \<mapsto> (Suc i, b))\<rparr>"
    by (auto split: option.splits if_splits)
  from ok have "joined_ended (pipe s) (joins s t)" by (simp add: closers_ok_def)
  with i have "joined_ended (pipe s) (Some (Suc i, b))" by (cases b) (auto simp: less_Suc_eq)
  with closers_ok_move[OF ok ended_stay_simps(3), of s'] i(4) show ?thesis by simp
next
  case (Deadline_passed t)
  with step obtain i where "s' = s\<lparr>joins := (joins s)(t \<mapsto> (Suc i, True))\<rparr>"
    by (auto split: option.splits if_splits bool.splits)
  with closers_ok_move[OF ok ended_stay_simps(3), of s'] show ?thesis by simp
next
  case (Close_interrupted t)
  with step have "s' = s\<lparr>joins := (joins s)(t := None)\<rparr>" by (auto split: if_splits)
  with closers_ok_move[OF ok ended_stay_simps(3), of s'] show ?thesis by simp
next
  case (Close_returns t)
  with step obtain i b where i: "joins s t = Some (i, b)" "\<not> i < length (cells (pipe s))"
    "s' = s\<lparr>joins := (joins s)(t := None), close_log := close_log s @ [(t, b, close_result (pipe s))]\<rparr>"
    by (auto split: option.splits if_splits)
  from ok have "joined_ended (pipe s) (joins s t)" by (simp add: closers_ok_def)
  with i have "\<not> b \<longrightarrow> close_result (pipe s)" by (cases b) (auto simp: close_result_def list_all_length)
  with ok i(3) show ?thesis by (auto simp: closers_ok_def)
qed

lemma closers_ok_start: "\<exists>p. s = fresh_closers p \<Longrightarrow> closers_ok stages s"
  by (auto simp: fresh_closers_def closers_ok_def)

interpretation closers: invariant_machine "close_step stages" "\<lambda>s. \<exists>p. s = fresh_closers p"
  "closers_ok stages" for stages :: "'d stage list"
  by unfold_locales (auto intro: closers_ok_start closers_ok_step simp del: close_step.simps)

text \<open>To the pipeline, the callers are calls of \<open>close\<close> and nothing else.\<close>

fun seen_by_pipe :: "'d closers \<Rightarrow> 'd close_event \<Rightarrow> 'd pipeline_event list" where
  "seen_by_pipe s (Elsewhere e) = [e]"
| "seen_by_pipe s (Call_close t b) = [Close]"
| "seen_by_pipe s _ = []"

interpretation pipe_of: refined_machine "close_step stages" "\<lambda>_. True" "pipeline_step stages" pipe
  seen_by_pipe for stages :: "'d stage list"
proof unfold_locales
  show "runs (pipeline_step stages) (pipe s) (seen_by_pipe s e) = Some (pipe s')"
    if "close_step stages s e = Some s'" for s e s'
    using that by (cases e) (auto simp: pipeline_step_def[of _ _ Close] split: option.splits if_splits bool.splits)
qed simp

subsection \<open>Properties\<close>

text \<open>
  C9. \<open>close\<close> tells the truth, to any number of callers: when it has returned true, all workers
  have ended and, unless one of them died of an exception that is not an \<open>Exception\<close>,
  everything submitted has been processed, for good; and a call without a timeout never returns
  false.
\<close>

theorem close_tells_the_truth:
  assumes "init_pipeline stages = Inr p0"
    and "runs (close_step stages) (fresh_closers p0) schedule = Some s"
    and "(t, has_deadline, r) \<in> set (close_log s)"
  shows "(\<not> has_deadline \<longrightarrow> r) \<and>
         (r \<longrightarrow> close_result (pipe s) \<and>
            (survivors (cells (pipe s)) \<longrightarrow>
               results (pipe s) = goods (fates stages (submitted (pipe s))) \<and>
               mset (failures (pipe s)) = mset (bads (fates stages (submitted (pipe s))))))"
proof -
  have "closers_ok stages s" by (rule closers.invariant[OF _ assms(2)]) blast
  with assms(3) have told: "told_truth (pipe s) (t, has_deadline, r)"
    by (auto simp: closers_ok_def list_all_iff)
  from pipe_of.refines[OF TrueI assms(2)]
  have "pipeline_ok stages (pipe s)"
    using pipelines.invariant[OF assms(1)] by (simp add: fresh_closers_def)
  from complete_when_ended[OF this] told show ?thesis by auto
qed

text \<open>One caller gives up at its deadline, another one waits for the end.\<close>

definition close_schedule :: "string close_event list" where
  "close_schedule =
     [Elsewhere (Submit_document ''a''), Call_close 0 True, Call_close 1 False, Deadline_passed 0,
      Elsewhere (Take_item 0), Elsewhere (Stage_ends 0), Deadline_passed 0, Close_returns 0,
      Elsewhere (Take_item 0), Worker_joined 1, Elsewhere (Take_item 1), Elsewhere (Stage_ends 1),
      Elsewhere (Take_item 1), Worker_joined 1, Close_returns 1]"

definition close_end :: "string closers" where
  "close_end = the (runs (close_step two_stages) (fresh_closers empty_pipeline) close_schedule)"

lemma close_end_run:
  "runs (close_step two_stages) (fresh_closers empty_pipeline) close_schedule = Some close_end"
  "close_log close_end = [(0, True, False), (1, False, True)]"
  "survivors (cells (pipe close_end))" "submitted (pipe close_end) = [''a'']"
  by (simp_all add: close_end_def close_schedule_def fresh_closers_def pipeline_eval)

theorem close_tells_the_truth_witness:
  "close_result (pipe close_end) \<and> results (pipe close_end) = goods (fates two_stages [''a''])"
  using close_tells_the_truth[OF closing_run(1) close_end_run(1), of 1 False True] close_end_run(2-4)
  by simp

end
