(* ===== verification/Breaker.thy ===== *)
theory Breaker
  imports Machines
begin

section \<open>circuitbreaker: failing fast after repeated failures\<close>

text \<open>
  Models \<^verbatim>\<open>circuitbreaker/breaker.py\<close>. A call is admitted under the lock, runs its
  operation outside it, and records its outcome under the lock again, so calls overlap and an
  old call may end after the circuit has changed. The operation and the clock are callables
  of the caller: the outcome and the clock readings, in ticks, come with the events. A clock
  that raises is outside.
\<close>

subsection \<open>State and critical sections\<close>

datatype circuit_state =
    Closed
  | Open
  | Half_open

record breaker =
  failure_threshold :: int
  recovery_timeout :: int
  circuit :: circuit_state
  consecutive_failures :: int
  opened_at :: "int option"

definition init_breaker :: "int \<Rightarrow> int \<Rightarrow> breaker result" where
  "init_breaker threshold timeout =
     (if threshold \<le> 0 then Inl (ValueError ''failure_threshold must be greater than zero'')
      else if timeout < 0 then Inl (ValueError ''recovery_timeout must not be negative'')
      else Inr \<lparr>failure_threshold = threshold, recovery_timeout = timeout, circuit = Closed,
                consecutive_failures = 0, opened_at = None\<rparr>)"

definition before_call :: "int \<Rightarrow> breaker \<Rightarrow> circuit_state result \<times> breaker" where
  "before_call now b =
     (case circuit b of
        Closed \<Rightarrow> (Inr Closed, b)
      | Half_open \<Rightarrow> (Inl (CircuitOpenError ''circuit is testing a trial call''), b)
      | Open \<Rightarrow>
          (case opened_at b of
             None \<Rightarrow> (Inl (RuntimeError ''invalid circuit breaker state''), b)
           | Some opened \<Rightarrow>
               if now - opened < recovery_timeout b then (Inl (CircuitOpenError ''circuit is open''), b)
               else (Inr Half_open, b\<lparr>circuit := Half_open\<rparr>)))"

definition record_success :: "circuit_state \<Rightarrow> breaker \<Rightarrow> breaker" where
  "record_success admitted b =
     (if admitted = Closed \<and> circuit b \<noteq> Closed then b
      else b\<lparr>circuit := Closed, consecutive_failures := 0, opened_at := None\<rparr>)"

definition open_circuit :: "int \<Rightarrow> breaker \<Rightarrow> breaker" where
  "open_circuit now b = b\<lparr>circuit := Open, opened_at := Some now\<rparr>"

definition record_failure :: "circuit_state \<Rightarrow> int \<Rightarrow> breaker \<Rightarrow> breaker" where
  "record_failure admitted now b =
     (if admitted = Half_open then open_circuit now b
      else if circuit b \<noteq> Closed then b
      else (let b' = b\<lparr>consecutive_failures := consecutive_failures b + 1\<rparr>
            in if failure_threshold b \<le> consecutive_failures b' then open_circuit now b' else b'))"

text \<open>The two observers.\<close>

definition state :: "breaker \<Rightarrow> circuit_state" where
  "state b = circuit b"

definition failures_in_a_row :: "breaker \<Rightarrow> int" where
  "failures_in_a_row b = consecutive_failures b"

text \<open>The end of \<open>call\<close>: \<open>except Exception\<close> lets a \<open>BaseException\<close> pass unrecorded.\<close>

definition after_call :: "circuit_state \<Rightarrow> unit result \<Rightarrow> int \<Rightarrow> breaker \<Rightarrow> breaker" where
  "after_call admitted outcome now b =
     (case outcome of
        Inr _ \<Rightarrow> record_success admitted b
      | Inl e \<Rightarrow> if is_exception e then record_failure admitted now b else b)"

subsection \<open>Overlapping calls\<close>

record breaker_calls =
  breaker :: breaker
  in_flight :: "(tid \<times> circuit_state) list"
  call_log :: "(tid \<times> unit result) list"

definition fresh_calls :: "breaker \<Rightarrow> breaker_calls" where
  "fresh_calls b = \<lparr>breaker = b, in_flight = [], call_log = []\<rparr>"

datatype breaker_event =
    Call tid int
  | Operation_ends tid circuit_state "unit result" int

definition breaker_step :: "breaker_calls \<Rightarrow> breaker_event \<Rightarrow> breaker_calls option" where
  "breaker_step s e =
     (case e of
        Call t now \<Rightarrow>
          (case before_call now (breaker s) of
             (Inl err, b) \<Rightarrow> Some (s\<lparr>breaker := b, call_log := call_log s @ [(t, Inl err)]\<rparr>)
           | (Inr admitted, b) \<Rightarrow>
               Some (s\<lparr>breaker := b, in_flight := in_flight s @ [(t, admitted)]\<rparr>))
      | Operation_ends t admitted outcome now \<Rightarrow>
          if (t, admitted) \<notin> set (in_flight s) then None
          else Some (s\<lparr>breaker := after_call admitted outcome now (breaker s),
                       in_flight := remove1 (t, admitted) (in_flight s),
                       call_log := call_log s @ [(t, outcome)]\<rparr>))"

subsection \<open>Invariant\<close>

definition trials :: "breaker_calls \<Rightarrow> nat" where
  "trials s = length (filter (\<lambda>c. snd c = Half_open) (in_flight s))"

definition breaker_ok :: "breaker \<Rightarrow> bool" where
  "breaker_ok b \<longleftrightarrow>
     0 < failure_threshold b \<and> 0 \<le> consecutive_failures b \<and>
     (if circuit b = Closed
      then opened_at b = None \<and> consecutive_failures b < failure_threshold b
      else opened_at b \<noteq> None \<and> consecutive_failures b = failure_threshold b)"

definition calls_ok :: "breaker_calls \<Rightarrow> bool" where
  "calls_ok s \<longleftrightarrow>
     breaker_ok (breaker s) \<and> (\<forall>c \<in> set (in_flight s). snd c \<noteq> Open) \<and>
     trials s \<le> (if circuit (breaker s) = Half_open then 1 else 0)"

lemma trials_append [simp]:
  "length (filter P (xs @ [x])) = length (filter P xs) + (if P x then 1 else 0)"
  by simp

lemma trials_remove1:
  "(t, a) \<in> set xs \<Longrightarrow>
   length (filter (\<lambda>c. snd c = Half_open) xs) =
     length (filter (\<lambda>c. snd c = Half_open) (remove1 (t, a) xs)) + (if a = Half_open then 1 else 0)"
  by (induction xs) auto

lemma calls_ok_step:
  assumes ok: "calls_ok s" and step: "breaker_step s e = Some s'"
  shows "calls_ok s'"
proof (cases e)
  case (Call t now)
  with ok step show ?thesis
    by (cases "circuit (breaker s)")
      (auto simp: breaker_step_def before_call_def calls_ok_def breaker_ok_def trials_def
        split: option.splits if_splits)
next
  case (Operation_ends t a outcome now)
  with step have t: "(t, a) \<in> set (in_flight s)"
    and s': "s' = s\<lparr>breaker := after_call a outcome now (breaker s),
                    in_flight := remove1 (t, a) (in_flight s),
                    call_log := call_log s @ [(t, outcome)]\<rparr>"
    by (auto simp: breaker_step_def split: if_splits)
  from ok t have a: "a \<noteq> Open" by (auto simp: calls_ok_def)
  have "\<forall>c \<in> set (in_flight s'). snd c \<noteq> Open"
    using ok s' by (auto simp: calls_ok_def dest: set_remove1_subset[THEN subsetD])
  moreover note trials_remove1[OF t]
  ultimately show ?thesis using ok s' a
    by (cases a; cases "circuit (breaker s)")
      (auto simp: calls_ok_def breaker_ok_def trials_def after_call_def record_success_def
        record_failure_def open_circuit_def Let_def split: sum.splits)
qed

lemma calls_ok_start: "init_breaker n d = Inr b \<Longrightarrow> s = fresh_calls b \<Longrightarrow> calls_ok s"
  by (auto simp: init_breaker_def fresh_calls_def calls_ok_def breaker_ok_def trials_def split: if_splits)

definition breaker_start :: "breaker_calls \<Rightarrow> bool" where
  "breaker_start s \<longleftrightarrow> (\<exists>n d b. init_breaker n d = Inr b \<and> s = fresh_calls b)"

interpretation breaker_calls: invariant_machine breaker_step breaker_start calls_ok
  by unfold_locales (auto simp: breaker_start_def intro: calls_ok_start calls_ok_step)

lemma breaker_reachable:
  "init_breaker n d = Inr b \<Longrightarrow> runs breaker_step (fresh_calls b) es = Some s \<Longrightarrow> calls_ok s"
  by (rule breaker_calls.invariant) (auto simp: breaker_start_def)

subsection \<open>The circuit as an automaton\<close>

text \<open>
  The specification: a circuit is in one of three states, each with the data that matters in
  it and no other. The class keeps a state, a counter and a time side by side.
\<close>

datatype automaton =
    Conducting nat
  | Tripped int
  | Probing

fun admit :: "int \<Rightarrow> int \<Rightarrow> automaton \<Rightarrow> circuit_state result \<times> automaton" where
  "admit timeout now (Conducting n) = (Inr Closed, Conducting n)"
| "admit timeout now (Tripped since) =
     (if now < since + timeout then (Inl (CircuitOpenError ''circuit is open''), Tripped since)
      else (Inr Half_open, Probing))"
| "admit timeout now Probing =
     (Inl (CircuitOpenError ''circuit is testing a trial call''), Probing)"

text \<open>
  A trial call decides the circuit; any other call counts only while the circuit conducts.
\<close>

fun settle :: "int \<Rightarrow> int \<Rightarrow> circuit_state \<Rightarrow> bool \<Rightarrow> automaton \<Rightarrow> automaton" where
  "settle threshold now Half_open good a = (if good then Conducting 0 else Tripped now)"
| "settle threshold now _ good (Conducting n) =
     (if good then Conducting 0
      else if threshold \<le> int (n + 1) then Tripped now else Conducting (n + 1))"
| "settle threshold now _ good a = a"

fun conclude :: "int \<Rightarrow> int \<Rightarrow> circuit_state \<Rightarrow> unit result \<Rightarrow> automaton \<Rightarrow> automaton" where
  "conclude threshold now how (Inr _) a = settle threshold now how True a"
| "conclude threshold now how (Inl e) a =
     (if is_exception e then settle threshold now how False a else a)"

record spec_calls =
  automaton :: automaton
  spec_flight :: "(tid \<times> circuit_state) list"
  spec_log :: "(tid \<times> unit result) list"

definition spec_step :: "int \<Rightarrow> int \<Rightarrow> spec_calls \<Rightarrow> breaker_event \<Rightarrow> spec_calls option" where
  "spec_step threshold timeout c e =
     (case e of
        Call t now \<Rightarrow>
          (case admit timeout now (automaton c) of
             (Inl err, a) \<Rightarrow> Some (c\<lparr>automaton := a, spec_log := spec_log c @ [(t, Inl err)]\<rparr>)
           | (Inr how, a) \<Rightarrow> Some (c\<lparr>automaton := a, spec_flight := spec_flight c @ [(t, how)]\<rparr>))
      | Operation_ends t how outcome now \<Rightarrow>
          if (t, how) \<notin> set (spec_flight c) then None
          else Some (c\<lparr>automaton := conclude threshold now how outcome (automaton c),
                       spec_flight := remove1 (t, how) (spec_flight c),
                       spec_log := spec_log c @ [(t, outcome)]\<rparr>))"

definition automaton_of :: "breaker \<Rightarrow> automaton" where
  "automaton_of b =
     (case circuit b of
        Closed \<Rightarrow> Conducting (nat (consecutive_failures b))
      | Open \<Rightarrow> Tripped (the (opened_at b))
      | Half_open \<Rightarrow> Probing)"

definition spec_of :: "breaker_calls \<Rightarrow> spec_calls" where
  "spec_of s =
     \<lparr>automaton = automaton_of (breaker s), spec_flight = in_flight s, spec_log = call_log s\<rparr>"

text \<open>One admission and one completion implement the automaton's.\<close>

lemma before_call_admits:
  "breaker_ok b \<Longrightarrow> before_call now b = (r, b') \<Longrightarrow>
   admit (recovery_timeout b) now (automaton_of b) = (r, automaton_of b')"
  by (auto simp: before_call_def automaton_of_def breaker_ok_def
      split: circuit_state.splits option.splits if_splits)

lemma after_call_settles:
  "breaker_ok b \<Longrightarrow> how \<noteq> Open \<Longrightarrow>
   automaton_of (after_call how outcome now b) =
     conclude (failure_threshold b) now how outcome (automaton_of b)"
  by (cases "circuit b"; cases how; cases outcome)
    (auto simp: after_call_def record_success_def record_failure_def open_circuit_def automaton_of_def
      breaker_ok_def Let_def nat_add_distrib split: sum.split)

definition limits_kept :: "int \<Rightarrow> int \<Rightarrow> breaker_calls \<Rightarrow> bool" where
  "limits_kept threshold timeout s \<longleftrightarrow>
     calls_ok s \<and> failure_threshold (breaker s) = threshold \<and> recovery_timeout (breaker s) = timeout"

lemma limits_kept_step:
  assumes "limits_kept threshold timeout s" and "breaker_step s e = Some s'"
  shows "limits_kept threshold timeout s'"
  using assms calls_ok_step[of s e s']
  by (cases e) (auto simp: limits_kept_def breaker_step_def before_call_def after_call_def
      record_success_def record_failure_def open_circuit_def Let_def
      split: circuit_state.splits option.splits if_splits sum.splits)

lemma spec_simulates:
  assumes ok: "limits_kept threshold timeout s" and step: "breaker_step s e = Some s'"
  shows "spec_step threshold timeout (spec_of s) e = Some (spec_of s')"
proof (cases e)
  case (Call t now)
  obtain r b where b: "before_call now (breaker s) = (r, b)" by fastforce
  from ok have "breaker_ok (breaker s)" by (simp add: limits_kept_def calls_ok_def)
  from before_call_admits[OF this b] ok step Call b show ?thesis
    by (auto simp: spec_step_def breaker_step_def spec_of_def limits_kept_def split: sum.splits)
next
  case (Operation_ends t how outcome now)
  with step have t: "(t, how) \<in> set (in_flight s)" by (auto simp: breaker_step_def split: if_splits)
  with ok have "breaker_ok (breaker s)" "how \<noteq> Open" by (auto simp: limits_kept_def calls_ok_def)
  from after_call_settles[OF this] ok step Operation_ends t show ?thesis
    by (auto simp: spec_step_def breaker_step_def spec_of_def limits_kept_def)
qed

interpretation automaton: refined_machine breaker_step "limits_kept threshold timeout"
  "spec_step threshold timeout" spec_of "\<lambda>_ e. [e]" for threshold timeout
  by unfold_locales (auto intro: limits_kept_step dest: spec_simulates)

lemma visible_all: "visible_run step (\<lambda>_ e. [e]) s es = es" if "runs step s es \<noteq> None"
  using that by (induction es arbitrary: s) (auto split: option.splits)

subsection \<open>Failures in a row\<close>

text \<open>The circuit after failing calls, one after another, of a closed circuit.\<close>

definition fail_times :: "nat \<Rightarrow> int \<Rightarrow> breaker \<Rightarrow> breaker" where
  "fail_times k now b = (record_failure Closed now ^^ k) b"

lemma fail_times_eq:
  assumes "breaker_ok b" and "circuit b = Closed"
  shows "consecutive_failures b + int k < failure_threshold b \<Longrightarrow>
           fail_times k now b = b\<lparr>consecutive_failures := consecutive_failures b + int k\<rparr>"
proof (induction k)
  case (Suc k)
  then have "fail_times k now b = b\<lparr>consecutive_failures := consecutive_failures b + int k\<rparr>" by simp
  with Suc.prems assms show ?case
    by (simp add: fail_times_def record_failure_def Let_def)
qed (simp add: fail_times_def)

subsection \<open>Properties\<close>

text \<open>
  C31. The circuit stays consistent under every interleaving of overlapping calls: it is closed
  exactly when it has no opening time, a closed circuit is below the failure threshold, at
  most one trial call runs, only while the circuit is half open, and the \<open>RuntimeError\<close>
  branch of \<open>_before_call\<close> is never taken.
\<close>

theorem circuit_is_consistent:
  assumes "init_breaker threshold timeout = Inr b"
    and "runs breaker_step (fresh_calls b) schedule = Some s"
  shows "(circuit (breaker s) = Closed \<longleftrightarrow> opened_at (breaker s) = None) \<and>
         (circuit (breaker s) = Closed \<longleftrightarrow>
            consecutive_failures (breaker s) < failure_threshold (breaker s)) \<and>
         trials s \<le> 1 \<and> (0 < trials s \<longrightarrow> circuit (breaker s) = Half_open) \<and>
         fst (before_call now (breaker s)) \<noteq> Inl (RuntimeError ''invalid circuit breaker state'')"
  using breaker_reachable[OF assms]
  by (cases "circuit (breaker s)")
    (auto simp: calls_ok_def breaker_ok_def before_call_def split: if_splits)

text \<open>
  The circuit opens after exactly as many consecutive failures as the threshold says, then
  rejects every call until the recovery timeout has passed, then admits one trial call and
  rejects the others; a trial that succeeds closes it, one that fails opens it anew.
\<close>

lemma circuit_opens_and_recovers:
  assumes "init_breaker threshold timeout = Inr b"
  shows "circuit (fail_times (nat threshold - 1) now b) = Closed \<and>
         (let opened = fail_times (nat threshold) now b in
            circuit opened = Open \<and>
            (\<forall>later. later - now < timeout \<longrightarrow>
               before_call later opened = (Inl (CircuitOpenError ''circuit is open''), opened)) \<and>
            (\<forall>later. timeout \<le> later - now \<longrightarrow>
               (let trial = opened\<lparr>circuit := Half_open\<rparr> in
                  before_call later opened = (Inr Half_open, trial) \<and>
                  before_call later trial = (Inl (CircuitOpenError ''circuit is testing a trial call''), trial) \<and>
                  record_success Half_open trial = b \<and>
                  record_failure Half_open later trial = opened\<lparr>opened_at := Some later\<rparr>)))"
proof -
  from assms have b: "b = \<lparr>failure_threshold = threshold, recovery_timeout = timeout, circuit = Closed,
      consecutive_failures = 0, opened_at = None\<rparr>" and pos: "0 < threshold"
    by (auto simp: init_breaker_def split: if_splits)
  then have ok: "breaker_ok b" "circuit b = Closed" by (simp_all add: breaker_ok_def)
  have before: "fail_times (nat threshold - 1) now b = b\<lparr>consecutive_failures := threshold - 1\<rparr>"
    using fail_times_eq[OF ok, of "nat threshold - 1" now] b pos by (simp add: of_nat_diff)
  have "fail_times (nat threshold) now b = record_failure Closed now (fail_times (nat threshold - 1) now b)"
    using pos by (cases "nat threshold") (simp_all add: fail_times_def)
  also have "\<dots> = b\<lparr>consecutive_failures := threshold, circuit := Open, opened_at := Some now\<rparr>"
    using before b by (simp add: record_failure_def open_circuit_def)
  finally show ?thesis using before b
    by (simp add: Let_def before_call_def record_success_def record_failure_def open_circuit_def)
qed

text \<open>
  C32. A trial call whose operation raises a \<open>BaseException\<close> records nothing, and the circuit is
  stuck: it stays half open for ever, whatever the schedule and the clock, and every later
  call is rejected.
\<close>

theorem interrupted_trial_sticks:
  assumes "init_breaker threshold timeout = Inr b"
    and "runs breaker_step (fresh_calls b) before = Some s0"
    and "breaker_step s0 (Operation_ends t Half_open (Inl (ExitRequest why)) now) = Some s1"
    and "runs breaker_step s1 after = Some s"
  shows "circuit (breaker s) = Half_open \<and> trials s = 0 \<and>
         before_call later (breaker s) =
           (Inl (CircuitOpenError ''circuit is testing a trial call''), breaker s)"
proof -
  have stuck_step: "circuit (breaker u') = Half_open \<and> trials u' = 0"
    if "circuit (breaker u) = Half_open \<and> trials u = 0" "calls_ok u" "breaker_step u e = Some u'" for u u' e
  proof (cases e)
    case (Call v n)
    with that show ?thesis by (auto simp: breaker_step_def before_call_def trials_def)
  next
    case (Operation_ends v a r n)
    with that have v: "(v, a) \<in> set (in_flight u)" by (auto simp: breaker_step_def split: if_splits)
    with that have "a = Closed" by (cases a) (auto simp: calls_ok_def trials_def filter_empty_conv)
    with that Operation_ends trials_remove1[OF v] show ?thesis
      by (auto simp: breaker_step_def after_call_def record_success_def record_failure_def trials_def
          split: sum.splits if_splits)
  qed
  have stuck_runs: "circuit (breaker u') = Half_open \<and> trials u' = 0"
    if "circuit (breaker u) = Half_open \<and> trials u = 0" "calls_ok u" "runs breaker_step u es = Some u'" for u u' es
    using that
  proof (induction es arbitrary: u)
    case (Cons e es)
    then obtain w where "breaker_step u e = Some w" "runs breaker_step w es = Some u'"
      by (auto split: option.splits)
    with Cons.IH[of w] stuck_step[OF Cons.prems(1,2)] calls_ok_step[OF Cons.prems(2)] show ?case by blast
  qed simp
  from breaker_reachable[OF assms(1,2)] have ok: "calls_ok s0" .
  from assms(3) have t: "(t, Half_open) \<in> set (in_flight s0)"
    and s1: "breaker s1 = breaker s0" "in_flight s1 = remove1 (t, Half_open) (in_flight s0)"
    by (auto simp: breaker_step_def after_call_def split: if_splits)
  with ok trials_remove1[OF t] have "circuit (breaker s1) = Half_open \<and> trials s1 = 0"
    by (auto simp: calls_ok_def trials_def split: if_splits)
  from stuck_runs[OF this calls_ok_step[OF ok assms(3)] assms(4)] show ?thesis
    by (simp add: before_call_def)
qed

text \<open>
  C5. The class implements the three-state automaton: every schedule of overlapping calls is a run
  of the automaton with the same admissions, rejections and outcomes, which starts conducting
  with no failures.
\<close>

theorem circuit_refines_automaton:
  assumes "init_breaker threshold timeout = Inr b"
    and "runs breaker_step (fresh_calls b) schedule = Some s"
  shows "runs (spec_step threshold timeout)
           \<lparr>automaton = Conducting 0, spec_flight = [], spec_log = []\<rparr> schedule = Some (spec_of s) \<and>
         spec_log (spec_of s) = call_log s \<and> spec_flight (spec_of s) = in_flight s"
proof -
  from assms(1) have start: "limits_kept threshold timeout (fresh_calls b)"
    "spec_of (fresh_calls b) = \<lparr>automaton = Conducting 0, spec_flight = [], spec_log = []\<rparr>"
    using calls_ok_start[OF assms(1) refl]
    by (auto simp: init_breaker_def limits_kept_def fresh_calls_def spec_of_def automaton_of_def
        split: if_splits)
  from automaton.refines[OF start(1) assms(2)] visible_all[of breaker_step "fresh_calls b" schedule] assms(2) start(2)
  show ?thesis by (simp add: spec_of_def)
qed

text \<open>Threshold one; a failure opens the circuit and the trial is interrupted.\<close>

definition touchy :: breaker where
  "touchy = \<lparr>failure_threshold = 1, recovery_timeout = 10, circuit = Closed,
             consecutive_failures = 0, opened_at = None\<rparr>"

definition until_trial :: "breaker_event list" where
  "until_trial =
     [Call 0 0, Call 1 0, Operation_ends 0 Closed (Inl (UserError ''503'')) 1, Call 2 5, Call 3 11,
      Operation_ends 1 Closed (Inr ()) 12]"

definition in_trial :: breaker_calls where
  "in_trial = the (runs breaker_step (fresh_calls touchy) until_trial)"

definition after_interrupt :: breaker_calls where
  "after_interrupt = the (breaker_step in_trial (Operation_ends 3 Half_open (Inl (ExitRequest ''SystemExit'')) 13))"

lemma trial_run:
  "init_breaker 1 10 = Inr touchy"
  "runs breaker_step (fresh_calls touchy) until_trial = Some in_trial"
  "breaker_step in_trial (Operation_ends 3 Half_open (Inl (ExitRequest ''SystemExit'')) 13) = Some after_interrupt"
  "in_flight in_trial = [(3, Half_open)]"
  by (simp_all add: init_breaker_def touchy_def in_trial_def until_trial_def after_interrupt_def
      breaker_step_def fresh_calls_def before_call_def after_call_def record_success_def
      record_failure_def open_circuit_def)

theorem circuit_is_consistent_witness:
  "trials in_trial \<le> 1 \<and> circuit (breaker in_trial) = Half_open"
proof -
  have "0 < trials in_trial" by (simp add: trials_def trial_run(4))
  with circuit_is_consistent[OF trial_run(1,2)] show ?thesis by blast
qed

lemma circuit_opens_and_recovers_witness:
  "circuit (fail_times (nat 1 - 1) 0 touchy) = Closed \<and> circuit (fail_times (nat 1) 0 touchy) = Open"
  using circuit_opens_and_recovers[OF trial_run(1), of 0] by (simp add: Let_def)

theorem interrupted_trial_sticks_witness:
  "circuit (breaker after_interrupt) = Half_open \<and>
   fst (before_call 1000000 (breaker after_interrupt)) =
     Inl (CircuitOpenError ''circuit is testing a trial call'')"
proof -
  have "runs breaker_step after_interrupt [] = Some after_interrupt" by simp
  from interrupted_trial_sticks[OF trial_run(1,2,3) this] show ?thesis by simp
qed

theorem circuit_refines_automaton_witness:
  "automaton (the (runs (spec_step 1 10)
     \<lparr>automaton = Conducting 0, spec_flight = [], spec_log = []\<rparr> until_trial)) = Probing"
proof -
  have "circuit (breaker in_trial) = Half_open"
    by (simp add: in_trial_def until_trial_def touchy_def breaker_step_def fresh_calls_def before_call_def
        after_call_def record_success_def record_failure_def open_circuit_def)
  with circuit_refines_automaton[OF trial_run(1,2)] show ?thesis
    by (simp add: spec_of_def automaton_of_def)
qed

end
