(* ===== verification/Retry.thy ===== *)
theory Retry
  imports Machines
begin

section \<open>retryexecutor: bounded retries on a thread pool\<close>

text \<open>
  Models \<^verbatim>\<open>retryexecutor/executor.py\<close>. A task is a callable of the caller whose outcome may
  change from call to call: \<open>task n\<close> is the outcome of its \<open>n\<close>-th call. The thread pool runs at
  most \<open>max_workers\<close> tasks at a time and starts them in the order of submission; which of
  the running tasks makes its next attempt is up to the schedule. \<open>as_completed\<close> yields the
  futures in no fixed order, so the results are collected from any permutation of the
  completed ones. A task that ends by a \<open>BaseException\<close> ends the loop over them with it; what
  the loop would have yielded later no longer matters, but the executor still waits for all
  of its threads.
\<close>

subsection \<open>One task\<close>

record 'v retry_result =
  task_id :: string
  attempts :: nat
  retry_value :: "'v option"
  retry_error :: "exn option"

definition retry_succeeded :: "'v retry_result \<Rightarrow> bool" where
  "retry_succeeded r \<longleftrightarrow> retry_error r = None"

record retry_limits =
  max_workers :: nat
  max_attempts :: nat

definition init_retry :: "int \<Rightarrow> int \<Rightarrow> retry_limits result" where
  "init_retry workers tries =
     (if workers \<le> 0 then Inl (ValueError ''max_workers must be greater than zero'')
      else if tries \<le> 0 then Inl (ValueError ''max_attempts must be greater than zero'')
      else Inr \<lparr>max_workers = nat workers, max_attempts = nat tries\<rparr>)"

text \<open>The loop from a given attempt on, with as many attempts left.\<close>

fun retry_loop :: "(nat \<Rightarrow> 'v result) \<Rightarrow> string \<Rightarrow> nat \<Rightarrow> nat \<Rightarrow> exn option \<Rightarrow> 'v retry_result result" where
  "retry_loop task tid attempt 0 last_error =
     Inr \<lparr>task_id = tid, attempts = attempt - 1, retry_value = None, retry_error = last_error\<rparr>"
| "retry_loop task tid attempt (Suc left) last_error =
     (case task attempt of
        Inr v \<Rightarrow> Inr \<lparr>task_id = tid, attempts = attempt, retry_value = Some v, retry_error = None\<rparr>
      | Inl e \<Rightarrow>
          if is_exception e then retry_loop task tid (attempt + 1) left (Some e) else Inl e)"

definition run_with_retries :: "nat \<Rightarrow> string \<Rightarrow> (nat \<Rightarrow> 'v result) \<Rightarrow> 'v retry_result result" where
  "run_with_retries tries tid task = retry_loop task tid 1 tries None"

text \<open>All attempts before attempt \<open>k\<close>, counted from one, raise an \<open>Exception\<close>.\<close>

definition all_raise :: "(nat \<Rightarrow> 'v result) \<Rightarrow> nat \<Rightarrow> bool" where
  "all_raise task k \<longleftrightarrow> (\<forall>i < k - 1. \<exists>e. task (1 + i) = Inl e \<and> is_exception e)"

lemma retry_loop_success:
  assumes "\<forall>i < k. \<exists>e. task (n + i) = Inl e \<and> is_exception e" and "task (n + k) = Inr v" and "k < left"
  shows "retry_loop task tid n left err =
           Inr \<lparr>task_id = tid, attempts = n + k, retry_value = Some v, retry_error = None\<rparr>"
  using assms
proof (induction k arbitrary: n left err)
  case 0
  then show ?case by (cases left) auto
next
  case (Suc k)
  from Suc.prems(3) obtain l where l: "left = Suc l" by (cases left) auto
  from Suc.prems(1) obtain e where e: "task n = Inl e" "is_exception e" by force
  have "\<forall>i < k. \<exists>e. task (n + 1 + i) = Inl e \<and> is_exception e"
    using Suc.prems(1) by (auto dest: spec[of _ "Suc _"])
  with Suc.IH[of "n + 1" l "Some e"] Suc.prems e l show ?case by simp
qed

lemma retry_loop_task_id: "retry_loop task tid n left err = Inr r \<Longrightarrow> task_id r = tid"
  by (induction task tid n left err rule: retry_loop.induct) (auto split: sum.splits if_splits)

lemma retry_loop_interrupted:
  assumes "\<forall>i < k. \<exists>e. task (n + i) = Inl e \<and> is_exception e" and "task (n + k) = Inl e"
    and "\<not> is_exception e" and "k < left"
  shows "retry_loop task tid n left err = Inl e"
  using assms
proof (induction k arbitrary: n left err)
  case 0
  then show ?case by (cases left) auto
next
  case (Suc k)
  from Suc.prems(4) obtain l where l: "left = Suc l" by (cases left) auto
  from Suc.prems(1) obtain x where x: "task n = Inl x" "is_exception x" by force
  have "\<forall>i < k. \<exists>e. task (n + 1 + i) = Inl e \<and> is_exception e"
    using Suc.prems(1) by (auto dest: spec[of _ "Suc _"])
  with Suc.IH[of "n + 1" l "Some x"] Suc.prems x l show ?case by simp
qed

lemma retry_loop_exhausted:
  assumes "\<forall>i < left. \<exists>e. task (n + i) = Inl e \<and> is_exception e"
  shows "retry_loop task tid n left err =
           Inr \<lparr>task_id = tid, attempts = n + left - 1, retry_value = None,
                retry_error = (if left = 0 then err else Some (projl (task (n + left - 1))))\<rparr>"
  using assms
proof (induction left arbitrary: n err)
  case (Suc l)
  from Suc.prems obtain e where e: "task n = Inl e" "is_exception e" by force
  have "\<forall>i < l. \<exists>e. task (n + 1 + i) = Inl e \<and> is_exception e"
    using Suc.prems by (auto dest: spec[of _ "Suc _"])
  with Suc.IH[of "n + 1" "Some e"] e show ?case by (cases l) simp_all
qed simp

subsection \<open>A batch on the pool\<close>

record 'v retry_batch =
  todo :: "string list"
  active :: "(string \<times> nat \<times> exn option) list"
  completed :: "(string \<times> 'v retry_result result) list"

definition validate_tasks :: "string list \<Rightarrow> unit result" where
  "validate_tasks ids =
     (if ids = [] then Inl (ValueError ''tasks must not be empty'')
      else if '''' \<in> set ids then Inl (ValueError ''task IDs must not be empty'')
      else Inr ())"

definition submit_all :: "string list \<Rightarrow> 'v retry_batch result" where
  "submit_all ids =
     (case validate_tasks ids of
        Inl e \<Rightarrow> Inl e
      | Inr _ \<Rightarrow> Inr \<lparr>todo = ids, active = [], completed = []\<rparr>)"

datatype retry_event =
    Start_task
  | Attempt string nat "exn option"

definition finish_task ::
  "string \<times> nat \<times> exn option \<Rightarrow> 'v retry_result result \<Rightarrow> 'v retry_batch \<Rightarrow> 'v retry_batch" where
  "finish_task a r b =
     b\<lparr>active := remove1 a (active b), completed := completed b @ [(fst a, r)]\<rparr>"

definition retry_step ::
  "retry_limits \<Rightarrow> (string \<Rightarrow> nat \<Rightarrow> 'v result) \<Rightarrow> 'v retry_batch \<Rightarrow> retry_event \<Rightarrow> 'v retry_batch option" where
  "retry_step lim tasks b e =
     (case e of
        Start_task \<Rightarrow>
          (case todo b of
             [] \<Rightarrow> None
           | tid # rest \<Rightarrow>
               if max_workers lim \<le> length (active b) then None
               else Some (b\<lparr>todo := rest, active := active b @ [(tid, 1, None)]\<rparr>))
      | Attempt tid n err \<Rightarrow>
          if (tid, n, err) \<notin> set (active b) then None
          else case tasks tid n of
            Inr v \<Rightarrow>
              Some (finish_task (tid, n, err)
                (Inr \<lparr>task_id = tid, attempts = n, retry_value = Some v, retry_error = None\<rparr>) b)
          | Inl x \<Rightarrow>
              if \<not> is_exception x then Some (finish_task (tid, n, err) (Inl x) b)
              else if n < max_attempts lim
                then Some (b\<lparr>active := remove1 (tid, n, err) (active b) @ [(tid, n + 1, Some x)]\<rparr>)
              else Some (finish_task (tid, n, err)
                (Inr \<lparr>task_id = tid, attempts = n, retry_value = None, retry_error = Some x\<rparr>) b))"

text \<open>
  \<open>run_all\<close>: the results in the order in which \<open>as_completed\<close> yields them, \<open>future.result()\<close>
  raising the first exception that is not an \<open>Exception\<close>; and \<open>run\<close>, for one task.
\<close>

fun collect_results :: "(string \<times> 'v retry_result result) list \<Rightarrow> 'v retry_result list result" where
  "collect_results [] = Inr []"
| "collect_results ((tid, Inl e) # rs) = Inl e"
| "collect_results ((tid, Inr r) # rs) = map_sum (\<lambda>e. e) (\<lambda>l. r # l) (collect_results rs)"

definition batch_results :: "(string \<times> 'v retry_result result) list \<Rightarrow> (string, 'v retry_result) dict result" where
  "batch_results yielded =
     map_sum (\<lambda>e. e) (\<lambda>rs. dict_of (map (\<lambda>r. (task_id r, r)) rs)) (collect_results yielded)"

definition run_task :: "string \<Rightarrow> (string \<times> 'v retry_result result) list \<Rightarrow> 'v retry_result result" where
  "run_task tid yielded =
     (case batch_results yielded of
        Inl e \<Rightarrow> Inl e
      | Inr results \<Rightarrow>
          (case map_of results tid of Some r \<Rightarrow> Inr r | None \<Rightarrow> Inl (KeyError tid)))"

definition batch_over :: "'v retry_batch \<Rightarrow> bool" where
  "batch_over b \<longleftrightarrow> todo b = [] \<and> active b = []"

subsection \<open>Invariant\<close>

definition ids_of :: "'v retry_batch \<Rightarrow> string multiset" where
  "ids_of b = mset (todo b) + mset (map fst (active b)) + mset (map fst (completed b))"

fun active_ok :: "retry_limits \<Rightarrow> (string \<Rightarrow> nat \<Rightarrow> 'v result) \<Rightarrow> string \<times> nat \<times> exn option \<Rightarrow> bool" where
  "active_ok lim tasks (tid, n, err) \<longleftrightarrow>
     1 \<le> n \<and> n \<le> max_attempts lim \<and>
     run_with_retries (max_attempts lim) tid (tasks tid) =
       retry_loop (tasks tid) tid n (max_attempts lim + 1 - n) err"

fun completed_ok :: "retry_limits \<Rightarrow> (string \<Rightarrow> nat \<Rightarrow> 'v result) \<Rightarrow> string \<times> 'v retry_result result \<Rightarrow> bool" where
  "completed_ok lim tasks (tid, r) \<longleftrightarrow> r = run_with_retries (max_attempts lim) tid (tasks tid)"

definition batch_ok :: "retry_limits \<Rightarrow> (string \<Rightarrow> nat \<Rightarrow> 'v result) \<Rightarrow> string multiset \<Rightarrow> 'v retry_batch \<Rightarrow> bool" where
  "batch_ok lim tasks ids b \<longleftrightarrow>
     0 < max_attempts lim \<and> ids_of b = ids \<and> length (active b) \<le> max_workers lim \<and>
     (\<forall>a \<in> set (active b). active_ok lim tasks a) \<and> (\<forall>c \<in> set (completed b). completed_ok lim tasks c)"

lemma length_remove1_Suc: "x \<in> set xs \<Longrightarrow> Suc (length (remove1 x xs)) = length xs"
  using length_pos_if_in_set[of x xs] by (simp add: length_remove1)

lemma ids_remove1:
  "a \<in> set xs \<Longrightarrow> mset (map fst xs) = add_mset (fst a) (mset (map fst (remove1 a xs)))"
  by (induction xs) auto

lemma finish_task_ok:
  assumes ok: "batch_ok lim tasks ids b" and a: "(tid, n, err) \<in> set (active b)"
    and r: "r = run_with_retries (max_attempts lim) tid (tasks tid)"
  shows "batch_ok lim tasks ids (finish_task (tid, n, err) r b)"
  using ok ids_remove1[OF a] length_remove1_Suc[OF a] r
  by (auto simp: batch_ok_def finish_task_def ids_of_def dest: set_remove1_subset[THEN subsetD])

lemma batch_ok_step:
  fixes tasks :: "string \<Rightarrow> nat \<Rightarrow> 'v result"
  assumes ok: "batch_ok lim tasks ids b" and step: "retry_step lim tasks b e = Some b'"
  shows "batch_ok lim tasks ids b'"
proof (cases e)
  case Start_task
  with ok step show ?thesis
    by (auto simp: retry_step_def batch_ok_def ids_of_def run_with_retries_def split: list.splits if_splits)
next
  case (Attempt tid n err)
  with step have a: "(tid, n, err) \<in> set (active b)" by (auto simp: retry_step_def split: if_splits)
  with ok have act: "active_ok lim tasks (tid, n, err)" unfolding batch_ok_def by blast
  then obtain l where l: "max_attempts lim + 1 - n = Suc l" "l = max_attempts lim - n"
    by (cases "max_attempts lim + 1 - n") auto
  from act l(1) have loop: "run_with_retries (max_attempts lim) tid (tasks tid) =
      retry_loop (tasks tid) tid n (Suc l) err" by simp
  show ?thesis
  proof (cases "tasks tid n")
    case (Inr v)
    with loop have "run_with_retries (max_attempts lim) tid (tasks tid) =
        Inr \<lparr>task_id = tid, attempts = n, retry_value = Some v, retry_error = None\<rparr>" by simp
    with step Attempt a Inr finish_task_ok[OF ok a] show ?thesis by (simp add: retry_step_def)
  next
    case (Inl x)
    show ?thesis
    proof (cases "is_exception x \<and> n < max_attempts lim")
      case True
      define rest where "rest = remove1 (tid, n, err) (active b)"
      from True step Attempt a Inl have b': "b' = b\<lparr>active := rest @ [(tid, n + 1, Some x)]\<rparr>"
        by (simp add: retry_step_def rest_def)
      have rest: "mset (map fst (active b)) = add_mset tid (mset (map fst rest))"
        "Suc (length rest) = length (active b)" "set rest \<subseteq> set (active b)"
        using ids_remove1[OF a] length_remove1_Suc[OF a] set_remove1_subset[of "(tid, n, err)" "active b"]
        by (simp_all only: rest_def fst_conv)
      have "run_with_retries (max_attempts lim) tid (tasks tid) = retry_loop (tasks tid) tid (n + 1) l (Some x)"
        using loop Inl True by simp
      moreover have "max_attempts lim + 1 - (n + 1) = l" using l(2) by simp
      ultimately have "active_ok lim tasks (tid, n + 1, Some x)"
        using True by (simp only: active_ok.simps) simp
      moreover have "ids_of b' = ids_of b" using rest(1) b' by (simp add: ids_of_def)
      ultimately show ?thesis using ok rest(2,3) b'
        by (auto simp: batch_ok_def simp del: active_ok.simps)
    next
      case False
      define r :: "'v retry_result result" where "r = (if is_exception x
          then Inr \<lparr>task_id = tid, attempts = n, retry_value = None, retry_error = Some x\<rparr> else Inl x)"
      have "r = run_with_retries (max_attempts lim) tid (tasks tid)"
      proof (cases "is_exception x")
        case True
        with False have "l = 0" using l(2) by simp
        with loop Inl True show ?thesis by (simp add: r_def)
      next
        case exit: False
        with loop Inl show ?thesis by (simp add: r_def)
      qed
      from finish_task_ok[OF ok a this] False step Attempt a Inl show ?thesis
        by (auto simp: retry_step_def r_def split: if_splits)
    qed
  qed
qed

definition retry_start :: "retry_limits \<Rightarrow> string multiset \<Rightarrow> 'v retry_batch \<Rightarrow> bool" where
  "retry_start lim ids b \<longleftrightarrow>
     0 < max_attempts lim \<and> (\<exists>l. ids = mset l \<and> b = \<lparr>todo = l, active = [], completed = []\<rparr>)"

lemma retry_start_ok: "retry_start lim ids b \<Longrightarrow> batch_ok lim tasks ids b"
  by (auto simp: retry_start_def batch_ok_def ids_of_def)

interpretation retries: invariant_machine "retry_step lim tasks" "retry_start lim ids" "batch_ok lim tasks ids"
  for lim and tasks :: "string \<Rightarrow> nat \<Rightarrow> 'v result" and ids
  by unfold_locales (auto intro: retry_start_ok batch_ok_step)

lemma submit_all_start:
  "init_retry w n = Inr lim \<Longrightarrow> submit_all l = Inr b \<Longrightarrow> retry_start lim (mset l) b"
  by (auto simp: init_retry_def submit_all_def retry_start_def split: if_splits sum.splits)

lemma collect_results_cases:
  "case collect_results rs of Inr l \<Rightarrow> map snd rs = map Inr l | Inl e \<Rightarrow> Inl e \<in> snd ` set rs"
  by (induction rs rule: collect_results.induct) (auto split: sum.splits)

text \<open>What is left of a batch: its attempts, and the starts of its tasks.\<close>

fun attempts_left :: "retry_limits \<Rightarrow> string \<times> nat \<times> exn option \<Rightarrow> nat" where
  "attempts_left lim (tid, n, err) = max_attempts lim + 1 - n"

definition batch_work :: "retry_limits \<Rightarrow> 'v retry_batch \<Rightarrow> nat" where
  "batch_work lim b =
     (max_attempts lim + 1) * length (todo b) + sum_list (map (attempts_left lim) (active b))"

definition retrying ::
  "retry_limits \<Rightarrow> (string \<Rightarrow> nat \<Rightarrow> 'v result) \<Rightarrow> string multiset \<Rightarrow> 'v retry_batch \<Rightarrow> bool" where
  "retrying lim tasks ids b \<longleftrightarrow> 0 < max_workers lim \<and> batch_ok lim tasks ids b"

lemma retry_step_work:
  assumes ok: "batch_ok lim tasks ids b" and step: "retry_step lim tasks b e = Some b'"
  shows "batch_work lim b' < batch_work lim b"
proof (cases e)
  case Start_task
  with step show ?thesis
    by (auto simp: retry_step_def batch_work_def split: list.splits if_splits)
next
  case (Attempt tid n err)
  with step have a: "(tid, n, err) \<in> set (active b)" by (auto simp: retry_step_def split: if_splits)
  with ok have "active_ok lim tasks (tid, n, err)" unfolding batch_ok_def by blast
  then have n: "n \<le> max_attempts lim" by simp
  note sum = sum_list_map_remove1[OF a, of "attempts_left lim"]
  from step Attempt a sum n show ?thesis
    by (auto simp: retry_step_def finish_task_def batch_work_def split: sum.splits if_splits)
qed

lemma retry_progress:
  assumes "retrying lim tasks ids b" and "\<not> batch_over b"
  shows "\<exists>e. retry_step lim tasks b e \<noteq> None"
proof (cases "active b")
  case Nil
  with assms obtain tid rest where "todo b = tid # rest" by (cases "todo b") (auto simp: batch_over_def)
  with Nil assms(1) show ?thesis by (intro exI[of _ Start_task]) (simp add: retry_step_def retrying_def)
next
  case (Cons a as)
  obtain tid n err where "a = (tid, n, err)" by (cases a)
  with Cons show ?thesis
    by (intro exI[of _ "Attempt tid n err"]) (simp add: retry_step_def split: sum.split)
qed

interpretation retry_ends: finishing_machine "retry_step lim tasks" "retrying lim tasks ids"
  "\<lambda>_. True" "\<lambda>_. True" batch_over "batch_work lim"
  for lim and tasks :: "string \<Rightarrow> nat \<Rightarrow> 'v result" and ids
proof unfold_locales
  show "retrying lim tasks ids b'" if "retrying lim tasks ids b" "retry_step lim tasks b e = Some b'" for b e b'
    using that by (auto simp: retrying_def intro: batch_ok_step)
  show "batch_work lim b' < batch_work lim b" if "retrying lim tasks ids b" "retry_step lim tasks b e = Some b'"
    for b e b' using that retry_step_work by (auto simp: retrying_def)
  then show "batch_work lim b' \<le> batch_work lim b"
    if "retrying lim tasks ids b" "retry_step lim tasks b e = Some b'" for b e b'
    using that less_imp_le by blast
  show "\<exists>e. True \<and> retry_step lim tasks b e \<noteq> None" if "retrying lim tasks ids b" "\<not> batch_over b" for b
    using retry_progress[OF that] by simp
qed simp_all

subsection \<open>Properties\<close>

text \<open>
  C39. A task is attempted until its first success, at most \<open>max_attempts\<close> times: with a first
  success within the limit the result has its value and the number of that attempt; if all
  attempts raise exceptions the result has the last exception and \<open>max_attempts\<close>; and a
  \<open>BaseException\<close> is not retried but passed on.
\<close>

theorem retries_until_first_success:
  assumes "0 < tries"
  shows "(\<forall>k v. k \<le> tries \<and> 1 \<le> k \<and> all_raise task k \<and> task k = Inr v \<longrightarrow>
            run_with_retries tries tid task =
              Inr \<lparr>task_id = tid, attempts = k, retry_value = Some v, retry_error = None\<rparr>) \<and>
         (\<forall>e. all_raise task (tries + 1) \<and> task tries = Inl e \<longrightarrow>
            run_with_retries tries tid task =
              Inr \<lparr>task_id = tid, attempts = tries, retry_value = None, retry_error = Some e\<rparr>) \<and>
         (\<forall>k e. k \<le> tries \<and> 1 \<le> k \<and> all_raise task k \<and> task k = Inl e \<and> \<not> is_exception e \<longrightarrow>
            run_with_retries tries tid task = Inl e)"
proof (intro conjI allI impI; elim conjE)
  fix k v
  assume k: "1 \<le> k" "k \<le> tries" "task k = Inr v" and "all_raise task k"
  then have "\<forall>i < k - 1. \<exists>e. task (1 + i) = Inl e \<and> is_exception e" by (simp add: all_raise_def)
  from retry_loop_success[OF this, of v tries tid None] k
  show "run_with_retries tries tid task =
      Inr \<lparr>task_id = tid, attempts = k, retry_value = Some v, retry_error = None\<rparr>"
    by (simp add: run_with_retries_def)
next
  fix e
  assume "all_raise task (tries + 1)" and e: "task tries = Inl e"
  then have "\<forall>i < tries. \<exists>e. task (1 + i) = Inl e \<and> is_exception e" by (simp add: all_raise_def)
  from retry_loop_exhausted[OF this, of tid None] assms e
  show "run_with_retries tries tid task =
      Inr \<lparr>task_id = tid, attempts = tries, retry_value = None, retry_error = Some e\<rparr>"
    by (simp add: run_with_retries_def)
next
  fix k e
  assume k: "1 \<le> k" "k \<le> tries" "task k = Inl e" "\<not> is_exception e" and "all_raise task k"
  then have "\<forall>i < k - 1. \<exists>e. task (1 + i) = Inl e \<and> is_exception e" by (simp add: all_raise_def)
  from retry_loop_interrupted[OF this, of e tries tid None] k
  show "run_with_retries tries tid task = Inl e" by (simp add: run_with_retries_def)
qed

text \<open>What a finished batch yields, and what the caller makes of it.\<close>

lemma yielded_tasks:
  assumes ok: "batch_ok lim tasks (mset ids) b" and over: "batch_over b"
    and "mset yielded = mset (completed b)" and "distinct ids"
  shows "set (keys_of yielded) = set ids" and "wf_dict yielded"
    and "\<And>tid r. (tid, r) \<in> set yielded \<Longrightarrow> r = run_with_retries (max_attempts lim) tid (tasks tid)"
proof -
  from ok over have m: "mset (map fst (completed b)) = mset ids"
    by (simp add: batch_ok_def ids_of_def batch_over_def)
  with assms(3) have m': "mset (keys_of yielded) = mset ids" by (metis mset_map)
  then show "set (keys_of yielded) = set ids" by (metis set_mset_mset)
  from m' assms(4) show "wf_dict yielded" by (metis mset_eq_imp_distinct_iff)
  fix tid r
  assume "(tid, r) \<in> set yielded"
  with assms(3) have "(tid, r) \<in> set (completed b)" by (metis set_mset_mset)
  with ok show "r = run_with_retries (max_attempts lim) tid (tasks tid)" by (auto simp: batch_ok_def)
qed

lemma run_with_retries_task_id: "run_with_retries n tid task = Inr r \<Longrightarrow> task_id r = tid"
  by (simp add: run_with_retries_def retry_loop_task_id)

lemma batch_results_cases:
  assumes "wf_dict yielded"
    and own: "\<And>tid r. (tid, r) \<in> set yielded \<Longrightarrow> r = run_with_retries n tid (tasks tid)"
  shows "case batch_results yielded of
      Inr results \<Rightarrow> keys_of results = keys_of yielded \<and>
        (\<forall>tid r. map_of results tid = Some r \<longleftrightarrow>
           tid \<in> set (keys_of yielded) \<and> run_with_retries n tid (tasks tid) = Inr r)
    | Inl e \<Rightarrow> \<exists>tid \<in> set (keys_of yielded). run_with_retries n tid (tasks tid) = Inl e"
proof (cases "collect_results yielded")
  case (Inl e)
  with collect_results_cases[of yielded] obtain tid where "(tid, Inl e) \<in> set yielded" by auto
  with own[OF this] Inl show ?thesis by (force simp: batch_results_def)
next
  case (Inr l)
  with collect_results_cases[of yielded] have l: "map snd yielded = map Inr l" by simp
  then have len: "length l = length yielded" using map_eq_imp_length_eq by metis
  have nth: "snd (yielded ! i) = Inr (l ! i) \<and> task_id (l ! i) = fst (yielded ! i)" if "i < length l" for i
  proof -
    from l that len have r: "snd (yielded ! i) = Inr (l ! i)" by (metis nth_map)
    have "(fst (yielded ! i), snd (yielded ! i)) \<in> set yielded" using that len by simp
    from own[OF this] r run_with_retries_task_id show ?thesis by metis
  qed
  let ?d = "map (\<lambda>r. (task_id r, r)) l"
  have y: "yielded = map (\<lambda>r. (task_id r, Inr r)) l"
    using nth len by (intro nth_equalityI) (auto simp: prod_eq_iff)
  then have keys: "keys_of ?d = keys_of yielded" by simp
  have d: "batch_results yielded = Inr ?d"
    using Inr keys assms(1) by (simp add: batch_results_def dict_of_distinct)
  have "map_of ?d tid = Some r \<longleftrightarrow> tid \<in> set (keys_of yielded) \<and> run_with_retries n tid (tasks tid) = Inr r"
    for tid r
  proof -
    have "map_of ?d tid = Some r \<longleftrightarrow> (tid, r) \<in> set ?d" using keys assms(1) by simp
    also have "\<dots> \<longleftrightarrow> (tid, Inr r) \<in> set yielded" by (auto simp: y)
    also have "\<dots> \<longleftrightarrow> tid \<in> set (keys_of yielded) \<and> run_with_retries n tid (tasks tid) = Inr r"
      using own by force
    finally show ?thesis .
  qed
  with d keys show ?thesis by simp
qed

text \<open>
  C14. On the pool, under every interleaving of attempts, at most \<open>max_workers\<close> tasks run at once;
  and when the batch is over, the results are those that the tasks have on their own, one for
  each, whatever the order in which the tasks were attempted, completed and collected; if a
  task ends by a \<open>BaseException\<close>, the batch raises one such exception.
\<close>

theorem batch_results_independent:
  assumes "init_retry workers tries = Inr lim" and "submit_all ids = Inr b0" and "distinct ids"
    and "runs (retry_step lim tasks) b0 schedule = Some b" and "mset yielded = mset (completed b)"
  shows "int (length (active b)) \<le> workers \<and>
         (batch_over b \<longrightarrow>
            (case batch_results yielded of
               Inr results \<Rightarrow> \<forall>tid r. map_of results tid = Some r \<longleftrightarrow>
                 tid \<in> set ids \<and> run_with_retries (max_attempts lim) tid (tasks tid) = Inr r
             | Inl e \<Rightarrow> \<exists>tid \<in> set ids. run_with_retries (max_attempts lim) tid (tasks tid) = Inl e) \<and>
            (batch_results yielded = Inr results \<longrightarrow> set (keys_of results) = set ids))"
proof (intro conjI impI)
  from retries.invariant[OF submit_all_start[OF assms(1,2)] assms(4)] have ok: "batch_ok lim tasks (mset ids) b" .
  then show "int (length (active b)) \<le> workers"
    using assms(1) by (auto simp: batch_ok_def init_retry_def split: if_splits)
  assume over: "batch_over b"
  note yielded = yielded_tasks[OF ok over assms(5,3)]
  show "case batch_results yielded of
      Inr results \<Rightarrow> \<forall>tid r. map_of results tid = Some r \<longleftrightarrow>
        tid \<in> set ids \<and> run_with_retries (max_attempts lim) tid (tasks tid) = Inr r
    | Inl e \<Rightarrow> \<exists>tid \<in> set ids. run_with_retries (max_attempts lim) tid (tasks tid) = Inl e"
    using batch_results_cases[OF yielded(2,3)] yielded(1) by (auto split: sum.splits)
  assume "batch_results yielded = Inr results"
  then show "set (keys_of results) = set ids"
    using batch_results_cases[OF yielded(2,3)] yielded(1) by auto
qed

text \<open>
  A batch always ends, whatever its tasks raise: a schedule has at most \<open>max_attempts\<close>
  attempts and one start for each task, the pool is never stuck before the batch is over, and
  from every state on it can be brought to its end.
\<close>

lemma batch_always_ends:
  assumes "init_retry workers tries = Inr lim" and "submit_all ids = Inr b0"
    and "runs (retry_step lim tasks) b0 schedule = Some b"
  shows "int (length schedule) \<le> (tries + 1) * int (length ids) \<and>
         ((\<forall>e. retry_step lim tasks b e = None) \<longrightarrow> batch_over b) \<and>
         (\<exists>rest c. runs (retry_step lim tasks) b rest = Some c \<and> batch_over c)"
proof -
  from assms(1,2) have "retrying lim tasks (mset ids) b0"
    using retry_start_ok[OF submit_all_start[OF assms(1,2)]]
    by (auto simp: retrying_def init_retry_def split: if_splits)
  from retry_ends.comes_to_an_end[OF this list_all_True assms(3)]
  have len: "length schedule + batch_work lim b \<le> batch_work lim b0"
    and ends: "(\<forall>e. retry_step lim tasks b e = None) \<longrightarrow> batch_over b"
    "\<exists>rest c. runs (retry_step lim tasks) b rest = Some c \<and> batch_over c" by auto
  have "int (batch_work lim b0) = (tries + 1) * int (length ids)"
    using assms(1,2) by (auto simp: init_retry_def submit_all_def batch_work_def distrib_right split: if_splits sum.splits)
  with len have "int (length schedule) \<le> (tries + 1) * int (length ids)" by linarith
  with ends show ?thesis by blast
qed

text \<open>
  \<open>run\<close> of one task gives the result that the task has on its own; the lookup of its ID in
  the results never fails.
\<close>

lemma run_is_one_task_batch:
  assumes "init_retry workers tries = Inr lim" and "submit_all [tid] = Inr b0"
    and "runs (retry_step lim tasks) b0 schedule = Some b" and "batch_over b"
    and "mset yielded = mset (completed b)"
  shows "run_task tid yielded = run_with_retries (nat tries) tid (tasks tid)"
proof -
  from retries.invariant[OF submit_all_start[OF assms(1,2)] assms(3)]
  have ok: "batch_ok lim tasks {#tid#} b" by simp
  have d: "distinct [tid]" by simp
  from ok have "batch_ok lim tasks (mset [tid]) b" by simp
  note yielded = yielded_tasks[OF this assms(4,5) d]
  have tries: "max_attempts lim = nat tries" using assms(1) by (auto simp: init_retry_def split: if_splits)
  show ?thesis
  proof (cases "batch_results yielded")
    case (Inl e)
    with batch_results_cases[OF yielded(2,3)] tries show ?thesis
      unfolding yielded(1) by (simp add: run_task_def)
  next
    case (Inr results)
    with batch_results_cases[OF yielded(2,3)] yielded(1)
    have keys: "tid \<in> set (keys_of results)"
      and r: "\<And>r. map_of results tid = Some r \<longleftrightarrow> run_with_retries (max_attempts lim) tid (tasks tid) = Inr r"
      by auto
    from keys obtain r where "map_of results tid = Some r" by (metis map_of_None_keys not_None_eq)
    with r[of r] Inr tries show ?thesis by (simp add: run_task_def)
  qed
qed

definition flaky :: "string \<Rightarrow> nat \<Rightarrow> int result" where
  "flaky tid n = (if tid = ''crm'' \<and> n < 2 then Inl (UserError ''timeout'') else Inr (int n))"

definition flaky_result :: "string \<Rightarrow> int retry_result" where
  "flaky_result tid =
     \<lparr>task_id = tid, attempts = (if tid = ''crm'' then 2 else 1),
      retry_value = Some (if tid = ''crm'' then 2 else 1), retry_error = None\<rparr>"

definition retry_schedule :: "retry_event list" where
  "retry_schedule =
     [Start_task, Start_task, Attempt ''crm'' 1 None, Attempt ''erp'' 1 None,
      Attempt ''crm'' 2 (Some (UserError ''timeout''))]"

definition pool_of_two :: retry_limits where
  "pool_of_two = \<lparr>max_workers = 2, max_attempts = 3\<rparr>"

definition two_tasks :: "int retry_batch" where
  "two_tasks = \<lparr>todo = [''crm'', ''erp''], active = [], completed = []\<rparr>"

definition retries_end :: "int retry_batch" where
  "retries_end = the (runs (retry_step pool_of_two flaky) two_tasks retry_schedule)"

lemma retries_end_run:
  "init_retry 2 3 = Inr pool_of_two" "submit_all [''crm'', ''erp''] = Inr two_tasks"
  "distinct [''crm'', ''erp'']"
  "runs (retry_step pool_of_two flaky) two_tasks retry_schedule = Some retries_end"
  "batch_over retries_end"
  "mset (rev (completed retries_end)) = mset (completed retries_end)"
  "batch_results (rev (completed retries_end)) =
     Inr [(''crm'', flaky_result ''crm''), (''erp'', flaky_result ''erp'')]"
  by (simp_all add: init_retry_def pool_of_two_def submit_all_def validate_tasks_def two_tasks_def
      retries_end_def retry_schedule_def retry_step_def finish_task_def flaky_def batch_over_def
      batch_results_def dict_of_def flaky_result_def eval_nat_numeral)

theorem retries_until_first_success_witness:
  "run_with_retries 3 ''crm'' (flaky ''crm'') =
     Inr \<lparr>task_id = ''crm'', attempts = 2, retry_value = Some 2, retry_error = None\<rparr>"
  by (rule conjunct1[OF retries_until_first_success[of 3 "flaky ''crm''" "''crm''"], THEN spec, THEN spec, THEN mp])
    (auto simp: flaky_def all_raise_def)

theorem batch_results_independent_witness:
  "run_with_retries (max_attempts pool_of_two) ''crm'' (flaky ''crm'') = Inr (flaky_result ''crm'')"
proof -
  note batch_results_independent[OF retries_end_run(1-4,6), THEN conjunct2, THEN mp,
      OF retries_end_run(5), THEN conjunct1, unfolded retries_end_run(7)]
  from this[unfolded sum.case, rule_format, of "''crm''" "flaky_result ''crm''"] show ?thesis by simp
qed

lemma batch_always_ends_witness:
  "int (length retry_schedule) \<le> (3 + 1) * int (length [''crm'', ''erp''])"
  by (rule conjunct1[OF batch_always_ends[OF retries_end_run(1,2,4)]])

definition one_task :: "int retry_batch" where
  "one_task = \<lparr>todo = [''crm''], active = [], completed = []\<rparr>"

definition one_task_end :: "int retry_batch" where
  "one_task_end =
     the (runs (retry_step pool_of_two flaky) one_task
       [Start_task, Attempt ''crm'' 1 None, Attempt ''crm'' 2 (Some (UserError ''timeout''))])"

lemma one_task_run:
  "submit_all [''crm''] = Inr one_task"
  "runs (retry_step pool_of_two flaky) one_task
     [Start_task, Attempt ''crm'' 1 None, Attempt ''crm'' 2 (Some (UserError ''timeout''))] =
   Some one_task_end"
  "batch_over one_task_end"
  by (simp_all add: submit_all_def validate_tasks_def one_task_def one_task_end_def pool_of_two_def
      retry_step_def finish_task_def flaky_def batch_over_def eval_nat_numeral)

lemma run_is_one_task_batch_witness:
  "run_task ''crm'' (completed one_task_end) = run_with_retries 3 ''crm'' (flaky ''crm'')"
  using run_is_one_task_batch[OF retries_end_run(1) one_task_run refl] by simp

end
