(* ===== verification/Fraud.thy ===== *)
theory Fraud
  imports Prelude
begin

section \<open>fraudscorebatch: scoring transactions\<close>

text \<open>
  Models the data classes and the scoring function of \<^verbatim>\<open>fraudscorebatch/scoring.py\<close>. Scoring is
  a pure function; \<open>score_all\<close> says what a batch amounts to, \<open>Fraud_Batch\<close> shows it of the pool
  of processes.
\<close>

record transaction =
  transaction_id :: string
  amount_cents :: int
  country :: string
  previous_chargebacks :: int
  account_age_days :: int

definition make_transaction :: "string \<Rightarrow> int \<Rightarrow> string \<Rightarrow> int \<Rightarrow> int \<Rightarrow> transaction result" where
  "make_transaction txn amount land chargebacks age =
     (if txn = '''' then Inl (ValueError ''transaction_id must not be empty'')
      else if amount < 0 then Inl (ValueError ''amount_cents must not be negative'')
      else if land = '''' then Inl (ValueError ''country must not be empty'')
      else if chargebacks < 0 then Inl (ValueError ''previous_chargebacks must not be negative'')
      else if age < 0 then Inl (ValueError ''account_age_days must not be negative'')
      else Inr \<lparr>transaction_id = txn, amount_cents = amount, country = land,
                previous_chargebacks = chargebacks, account_age_days = age\<rparr>)"

datatype decision =
    Approve
  | Review
  | Decline

record fraud_score =
  scored_id :: string
  score :: int
  verdict :: decision

text \<open>
  \<open>str.isalpha\<close> and \<open>c == c.upper()\<close> for the characters below 256: beyond ASCII there are
  the accented letters, of which the small ones (and the micro sign) change, and the two
  ordinal indicators, which are letters without case.
\<close>

definition is_alpha :: "char \<Rightarrow> bool" where
  "is_alpha c =
     (let n = of_char c :: nat in
      65 \<le> n \<and> n \<le> 90 \<or> 97 \<le> n \<and> n \<le> 122 \<or> n = 170 \<or> n = 181 \<or> n = 186 \<or>
      192 \<le> n \<and> n \<le> 214 \<or> 216 \<le> n \<and> n \<le> 246 \<or> 248 \<le> n)"

definition upper_changes :: "char \<Rightarrow> bool" where
  "upper_changes c =
     (let n = of_char c :: nat in
      97 \<le> n \<and> n \<le> 122 \<or> n = 181 \<or> 223 \<le> n \<and> n \<le> 246 \<or> 248 \<le> n)"

definition validate_country_code :: "string \<Rightarrow> unit result" where
  "validate_country_code land =
     (if length land \<noteq> 2 \<or> \<not> list_all is_alpha land \<or> list_ex upper_changes land
      then Inl (ValueError ''country must be a two-letter uppercase country code'')
      else Inr ())"

definition low_risk_countries :: "string set" where
  "low_risk_countries = {''CA'', ''GB'', ''US''}"

definition decision_for :: "int \<Rightarrow> decision" where
  "decision_for n = (if 70 \<le> n then Decline else if 40 \<le> n then Review else Approve)"

definition score_transaction :: "transaction \<Rightarrow> fraud_score result" where
  "score_transaction t =
     (case validate_country_code (country t) of
        Inl e \<Rightarrow> Inl e
      | Inr _ \<Rightarrow>
          (let s1 = min (amount_cents t div 10000) 35;
               s2 = s1 + min (previous_chargebacks t * 25) 50;
               s3 = (if country t \<notin> low_risk_countries then s2 + 20 else s2);
               s4 = (if account_age_days t < 30 then s3 + 15 else s3);
               s5 = min s4 100
           in Inr \<lparr>scored_id = transaction_id t, score = s5, verdict = decision_for s5\<rparr>))"

fun map_in_order :: "('a \<Rightarrow> 'b result) \<Rightarrow> 'a list \<Rightarrow> 'b list result" where
  "map_in_order f [] = Inr []"
| "map_in_order f (x # xs) =
     (case f x of
        Inl e \<Rightarrow> Inl e
      | Inr y \<Rightarrow> map_sum (\<lambda>e. e) (\<lambda>ys. y # ys) (map_in_order f xs))"

definition score_all :: "transaction list \<Rightarrow> fraud_score list result" where
  "score_all ts =
     (if ts = [] then Inl (ValueError ''transactions must not be empty'')
      else map_in_order score_transaction ts)"

subsection \<open>Lemmas\<close>

lemma map_in_order_Inr:
  "map_in_order f xs = Inr ys \<longleftrightarrow> list_all2 (\<lambda>x y. f x = Inr y) xs ys"
proof (induction xs arbitrary: ys)
  case (Cons x xs)
  then show ?case by (cases ys; cases "f x"; cases "map_in_order f xs") auto
qed auto

lemma map_in_order_Inl:
  "map_in_order f xs = Inl e \<longleftrightarrow>
     (\<exists>before x after. xs = before @ x # after \<and> f x = Inl e \<and> (\<forall>y \<in> set before. \<exists>z. f y = Inr z))"
proof (induction xs)
  case (Cons x xs)
  show ?case
  proof (cases "f x")
    case (Inl e')
    have "(\<exists>before y after. x # xs = before @ y # after \<and> f y = Inl e \<and> (\<forall>z \<in> set before. \<exists>w. f z = Inr w)) \<longleftrightarrow> e' = e"
    proof
      assume "\<exists>before y after. x # xs = before @ y # after \<and> f y = Inl e \<and> (\<forall>z \<in> set before. \<exists>w. f z = Inr w)"
      then show "e' = e" using Inl by (auto simp: Cons_eq_append_conv)
    next
      assume "e' = e"
      then show "\<exists>before y after. x # xs = before @ y # after \<and> f y = Inl e \<and> (\<forall>z \<in> set before. \<exists>w. f z = Inr w)"
        using Inl by (intro exI[of _ "[]"] exI[of _ x] exI[of _ xs]) simp
    qed
    with Inl show ?thesis by simp
  next
    case (Inr w)
    have "(\<exists>before y after. x # xs = before @ y # after \<and> f y = Inl e \<and> (\<forall>z \<in> set before. \<exists>w. f z = Inr w)) \<longleftrightarrow>
        (\<exists>before y after. xs = before @ y # after \<and> f y = Inl e \<and> (\<forall>z \<in> set before. \<exists>w. f z = Inr w))"
      (is "?l \<longleftrightarrow> ?r")
    proof
      assume ?l
      then obtain before y after where l: "x # xs = before @ y # after" "f y = Inl e"
        "\<forall>z \<in> set before. \<exists>w. f z = Inr w" by blast
      with Inr obtain before' where "before = x # before'" by (cases before) auto
      with l show ?r by (intro exI[of _ before'] exI[of _ y] exI[of _ after]) simp
    next
      assume ?r
      then obtain before y after where "xs = before @ y # after" "f y = Inl e"
        "\<forall>z \<in> set before. \<exists>w. f z = Inr w" by blast
      with Inr show ?l by (intro exI[of _ "x # before"] exI[of _ y] exI[of _ after]) auto
    qed
    with Inr Cons.IH show ?thesis by (cases "map_in_order f xs") auto
  qed
qed simp

text \<open>The score in closed form.\<close>

definition risk :: "int \<Rightarrow> int \<Rightarrow> string \<Rightarrow> int \<Rightarrow> int" where
  "risk amount chargebacks land age =
     min 100 (min (amount div 10000) 35 + min (chargebacks * 25) 50 +
              (if land \<in> low_risk_countries then 0 else 20) + (if age < 30 then 15 else 0))"

definition risk_of :: "transaction \<Rightarrow> int" where
  "risk_of t = risk (amount_cents t) (previous_chargebacks t) (country t) (account_age_days t)"

lemma score_transaction_eq:
  "score_transaction t = Inr s \<longleftrightarrow>
     validate_country_code (country t) = Inr () \<and>
     s = \<lparr>scored_id = transaction_id t, score = risk_of t, verdict = decision_for (risk_of t)\<rparr>"
  by (cases "validate_country_code (country t)")
    (auto simp: score_transaction_def risk_of_def risk_def Let_def min.commute)

lemma risk_mono:
  "a \<le> a' \<Longrightarrow> c \<le> c' \<Longrightarrow> g' \<le> g \<Longrightarrow> risk a c land g \<le> risk a' c' land g'"
  unfolding risk_def by (intro min.mono add_mono zdiv_mono1) auto

text \<open>Decisions are ordered by strictness.\<close>

fun strictness :: "decision \<Rightarrow> nat" where
  "strictness Approve = 0"
| "strictness Review = 1"
| "strictness Decline = 2"

instantiation decision :: linorder
begin

definition less_eq_decision :: "decision \<Rightarrow> decision \<Rightarrow> bool" where
  "less_eq_decision d d' \<longleftrightarrow> strictness d \<le> strictness d'"

definition less_decision :: "decision \<Rightarrow> decision \<Rightarrow> bool" where
  "less_decision d d' \<longleftrightarrow> strictness d < strictness d'"

lemma strictness_inject: "strictness d = strictness d' \<longleftrightarrow> d = d'"
  by (cases d; cases d') simp_all

instance
  by (standard; auto simp: less_eq_decision_def less_decision_def strictness_inject[symmetric])

end

lemma decision_mono: "mono decision_for"
  by (rule monoI) (simp add: decision_for_def less_eq_decision_def)

lemma decision_thresholds:
  "decision_for n = Decline \<longleftrightarrow> 70 \<le> n" "decision_for n = Review \<longleftrightarrow> 40 \<le> n \<and> n < 70"
  by (auto simp: decision_for_def)

lemma risk_bounds:
  assumes "0 \<le> a" and "0 \<le> c"
  shows "0 \<le> risk a c land g" and "risk a c land g \<le> 100"
    and "land \<in> low_risk_countries \<Longrightarrow> 70 \<le> risk a c land g \<Longrightarrow> 0 < c"
proof -
  define q where "q = a div 10000"
  have "0 \<le> q" using assms(1) by (simp add: q_def)
  then show "0 \<le> risk a c land g" using assms(2)
    by (simp add: risk_def flip: q_def)
  show "risk a c land g \<le> 100" by (simp add: risk_def)
  show "0 < c" if "land \<in> low_risk_countries" "70 \<le> risk a c land g"
  proof (rule ccontr)
    assume "\<not> 0 < c"
    then have "c = 0" using assms(2) by simp
    with that show False by (auto simp: risk_def min_def split: if_splits)
  qed
qed

subsection \<open>Properties\<close>

text \<open>
  The score of a valid transaction is between 0 and 100 and equals the sum of its four risk
  parts, cut at 100; the decision follows the thresholds 40 and 70, so a declined transaction
  from a low-risk country has previous chargebacks.
\<close>

lemma score_is_bounded:
  assumes "make_transaction txn amount land chargebacks age = Inr t"
    and "score_transaction t = Inr s"
  shows "0 \<le> score s \<and> score s \<le> 100 \<and> scored_id s = txn \<and>
         score s = min 100 (min (amount div 10000) 35 + min (chargebacks * 25) 50 +
                            (if land \<in> {''CA'', ''GB'', ''US''} then 0 else 20) + (if age < 30 then 15 else 0)) \<and>
         (verdict s = Decline \<longleftrightarrow> 70 \<le> score s) \<and> (verdict s = Review \<longleftrightarrow> 40 \<le> score s \<and> score s < 70) \<and>
         (verdict s = Decline \<and> land \<in> {''CA'', ''GB'', ''US''} \<longrightarrow> 0 < chargebacks)"
proof -
  from assms(1) have t: "t = \<lparr>transaction_id = txn, amount_cents = amount, country = land,
      previous_chargebacks = chargebacks, account_age_days = age\<rparr>"
    and nonneg: "0 \<le> amount" "0 \<le> chargebacks" by (auto simp: make_transaction_def split: if_splits)
  with assms(2) have s: "s = \<lparr>scored_id = txn, score = risk amount chargebacks land age,
      verdict = decision_for (risk amount chargebacks land age)\<rparr>"
    by (simp add: score_transaction_eq risk_of_def)
  show ?thesis unfolding low_risk_countries_def[symmetric] risk_def[symmetric]
    using risk_bounds[OF nonneg, of land age] by (simp add: s decision_thresholds)
qed

text \<open>
  The score is monotone in the risk: a transaction from the same country with at least the
  amount, at least the chargebacks and at most the account age never has a lower score nor a
  more lenient decision.
\<close>

lemma score_is_monotone:
  assumes "score_transaction t = Inr s" and "score_transaction u = Inr r"
    and "country t = country u" and "amount_cents t \<le> amount_cents u"
    and "previous_chargebacks t \<le> previous_chargebacks u"
    and "account_age_days u \<le> account_age_days t"
  shows "score s \<le> score r \<and> verdict s \<le> verdict r"
proof -
  have "risk_of t \<le> risk_of u" using assms(3-6) by (simp add: risk_of_def risk_mono)
  with assms(1,2) show ?thesis by (simp add: score_transaction_eq monoD[OF decision_mono])
qed

text \<open>
  A batch gives one score per transaction, in their order, exactly when every country code is
  valid; otherwise it raises the error of the first transaction whose code is not.
\<close>

lemma batch_scores_in_order:
  assumes "ts \<noteq> []"
  shows "(\<forall>scores. score_all ts = Inr scores \<longleftrightarrow> list_all2 (\<lambda>t s. score_transaction t = Inr s) ts scores) \<and>
         (\<forall>e. score_all ts = Inl e \<longleftrightarrow>
            (\<exists>before t after. ts = before @ t # after \<and> validate_country_code (country t) = Inl e \<and>
               (\<forall>u \<in> set before. validate_country_code (country u) = Inr ())))"
proof -
  have bad: "score_transaction t = Inl e \<longleftrightarrow> validate_country_code (country t) = Inl e" for t e
    by (auto simp: score_transaction_def Let_def split: sum.splits)
  have good: "(\<exists>s. score_transaction t = Inr s) \<longleftrightarrow> validate_country_code (country t) = Inr ()" for t
    by (auto simp: score_transaction_def Let_def split: sum.splits)
  show ?thesis using assms
    by (simp add: score_all_def map_in_order_Inr map_in_order_Inl bad good)
qed

definition risky :: transaction where
  "risky = \<lparr>transaction_id = ''t1'', amount_cents = 500000, country = ''FR'',
            previous_chargebacks = 1, account_age_days = 3\<rparr>"

definition riskier :: transaction where
  "riskier = risky\<lparr>amount_cents := 900000, previous_chargebacks := 4\<rparr>"

lemma risky_scores:
  "make_transaction ''t1'' 500000 ''FR'' 1 3 = Inr risky"
  "score_transaction risky = Inr \<lparr>scored_id = ''t1'', score = 95, verdict = Decline\<rparr>"
  "score_transaction riskier = Inr \<lparr>scored_id = ''t1'', score = 100, verdict = Decline\<rparr>"
  by (simp_all add: make_transaction_def risky_def riskier_def score_transaction_def
      validate_country_code_def is_alpha_def upper_changes_def low_risk_countries_def
      decision_for_def Let_def)

lemma score_is_bounded_witness:
  "0 \<le> (95 :: int) \<and> (95 :: int) \<le> 100 \<and>
   score \<lparr>scored_id = ''t1'', score = 95, verdict = Decline\<rparr> =
     min 100 (min (500000 div 10000) 35 + min (1 * 25) 50 + 20 + 15)"
  using score_is_bounded[OF risky_scores(1,2)] by simp

lemma score_is_monotone_witness:
  "score \<lparr>scored_id = ''t1'', score = 95, verdict = Decline\<rparr> \<le>
   score \<lparr>scored_id = ''t1'', score = 100, verdict = Decline\<rparr>"
  by (rule conjunct1[OF score_is_monotone[OF risky_scores(2,3)]]) (simp_all add: riskier_def risky_def)

lemma batch_scores_in_order_witness:
  "score_all [risky, riskier] =
     Inr [\<lparr>scored_id = ''t1'', score = 95, verdict = Decline\<rparr>,
          \<lparr>scored_id = ''t1'', score = 100, verdict = Decline\<rparr>]"
  using batch_scores_in_order[of "[risky, riskier]"] risky_scores(2,3) by simp

end
