(* ===== verification/Fraud_Batch.thy ===== *)
theory Fraud_Batch
  imports Fraud Machines
begin

section \<open>fraudscorebatch: a batch in a pool of processes\<close>

text \<open>
  Models the class \<open>FraudScoreBatch\<close> of \<^verbatim>\<open>fraudscorebatch/scoring.py\<close> with the process pool
  at work. \<open>executor.map\<close> submits one future per transaction; the processes take waiting
  futures, at most one each at a time, and the caller takes the results in the order of the
  transactions. The first exception it meets ends the iteration: the futures that no process
  has begun may be cancelled, and leaving the \<^verbatim>\<open>with\<close> block waits for the others. A process may
  also die, which breaks the pool: every future without a result gets \<open>BrokenProcessPool\<close>, a
  \<open>RuntimeError\<close>. The schedule decides which future is taken and ended when.
\<close>

subsection \<open>State and steps\<close>

record score_batch =
  max_workers :: "int option"

definition init_batch :: "int option \<Rightarrow> score_batch result" where
  "init_batch workers =
     (case workers of
        None \<Rightarrow> Inr \<lparr>max_workers = None\<rparr>
      | Some n \<Rightarrow>
          if n \<le> 0 then Inl (ValueError ''max_workers must be greater than zero'')
          else Inr \<lparr>max_workers = Some n\<rparr>)"

definition pool_broken :: exn where
  "pool_broken =
     RuntimeError (''A process in the process pool was terminated abruptly '' @
                   ''while the future was running or pending.'')"

datatype scoring =
    Waiting
  | Scoring
  | Scored "fraud_score result"
  | Dropped

record score_run =
  transactions :: "transaction list"
  processes :: nat
  futures :: "scoring list"
  broken :: bool
  scores :: "fraud_score list"
  raised :: "exn option"

text \<open>Without a limit the pool has as many processes as the machine has processors.\<close>

definition start_scoring :: "nat \<Rightarrow> score_batch \<Rightarrow> transaction list \<Rightarrow> score_run result" where
  "start_scoring cpus b ts =
     (if ts = [] then Inl (ValueError ''transactions must not be empty'')
      else Inr \<lparr>transactions = ts,
                processes = (case max_workers b of None \<Rightarrow> cpus | Some n \<Rightarrow> nat n),
                futures = map (\<lambda>_. Waiting) ts, broken = False, scores = [], raised = None\<rparr>)"

datatype score_event =
    Start_scoring nat
  | End_scoring nat
  | Next_score
  | Drop_future nat
  | Process_dies

definition scoring_now :: "score_run \<Rightarrow> nat" where
  "scoring_now r = length (filter (\<lambda>f. f = Scoring) (futures r))"

fun break_future :: "scoring \<Rightarrow> scoring" where
  "break_future Waiting = Scored (Inl pool_broken)"
| "break_future Scoring = Scored (Inl pool_broken)"
| "break_future f = f"

fun score_step :: "score_run \<Rightarrow> score_event \<Rightarrow> score_run option" where
  "score_step r (Start_scoring i) =
     (if i < length (futures r) \<and> futures r ! i = Waiting \<and> scoring_now r < processes r
      then Some (r\<lparr>futures := (futures r)[i := Scoring]\<rparr>) else None)"
| "score_step r (End_scoring i) =
     (if i < length (futures r) \<and> futures r ! i = Scoring
      then Some (r\<lparr>futures := (futures r)[i := Scored (score_transaction (transactions r ! i))]\<rparr>)
      else None)"
| "score_step r Next_score =
     (if raised r \<noteq> None \<or> length (futures r) \<le> length (scores r) then None
      else case futures r ! length (scores r) of
          Scored (Inr s) \<Rightarrow> Some (r\<lparr>scores := scores r @ [s]\<rparr>)
        | Scored (Inl e) \<Rightarrow> Some (r\<lparr>raised := Some e\<rparr>)
        | _ \<Rightarrow> None)"
| "score_step r (Drop_future i) =
     (if raised r \<noteq> None \<and> i < length (futures r) \<and> futures r ! i = Waiting
      then Some (r\<lparr>futures := (futures r)[i := Dropped]\<rparr>) else None)"
| "score_step r Process_dies =
     Some (r\<lparr>futures := map break_future (futures r), broken := True\<rparr>)"

text \<open>
  What \<open>score_all\<close> has returned: \<open>None\<close> while the iteration goes on or the pool is still at
  work.
\<close>

fun settled :: "scoring \<Rightarrow> bool" where
  "settled Waiting = False"
| "settled Scoring = False"
| "settled _ = True"

definition iterating :: "score_run \<Rightarrow> bool" where
  "iterating r \<longleftrightarrow> raised r = None \<and> length (scores r) < length (futures r)"

definition score_outcome :: "score_run \<Rightarrow> fraud_score list result option" where
  "score_outcome r =
     (if iterating r \<or> \<not> list_all settled (futures r) then None
      else Some (case raised r of Some e \<Rightarrow> Inl e | None \<Rightarrow> Inr (scores r)))"

subsection \<open>Invariant\<close>

fun future_ok :: "bool \<Rightarrow> transaction \<Rightarrow> scoring \<Rightarrow> bool" where
  "future_ok dead t (Scored x) \<longleftrightarrow> x = score_transaction t \<or> dead \<and> x = Inl pool_broken"
| "future_ok dead t f = True"

definition scoring_ok :: "transaction list \<Rightarrow> nat \<Rightarrow> score_run \<Rightarrow> bool" where
  "scoring_ok ts n r \<longleftrightarrow>
     transactions r = ts \<and> processes r = n \<and> scoring_now r \<le> n \<and>
     list_all2 (future_ok (broken r)) ts (futures r) \<and> length (scores r) \<le> length ts \<and>
     list_all2 (\<lambda>t s. score_transaction t = Inr s) (take (length (scores r)) ts) (scores r) \<and>
     (\<forall>e. raised r = Some e \<longrightarrow> length (scores r) < length ts \<and>
        (score_transaction (ts ! length (scores r)) = Inl e \<or> broken r \<and> e = pool_broken))"

lemma future_ok_break: "future_ok dead t f \<Longrightarrow> future_ok True t (break_future f)"
  by (cases f) auto

lemma scoring_ok_move:
  assumes ok: "scoring_ok ts n r" and i: "i < length (futures r)" and f: "future_ok (broken r) (ts ! i) f"
    and n: "f = Scoring \<Longrightarrow> futures r ! i = Scoring \<or> scoring_now r < n"
    and r': "r' = r\<lparr>futures := (futures r)[i := f]\<rparr>"
  shows "scoring_ok ts n r'"
proof -
  have "list_all2 (future_ok (broken r)) ts ((futures r)[i := f])"
    using ok f list_all2_update_cong[of "future_ok (broken r)" ts "futures r" "ts ! i" f i]
    by (simp add: scoring_ok_def)
  moreover have "scoring_now r' \<le> n"
    using count_update[OF i, of "\<lambda>f. f = Scoring" f] n ok
    by (auto simp: r' scoring_ok_def scoring_now_def split: if_splits)
  ultimately show ?thesis using ok by (simp add: r' scoring_ok_def)
qed

lemma scoring_ok_next:
  assumes ok: "scoring_ok ts n r" and k: "length (scores r) < length (futures r)"
    and f: "futures r ! length (scores r) = Scored x"
  shows "x = score_transaction (ts ! length (scores r)) \<or> broken r \<and> x = Inl pool_broken"
    and "length (scores r) < length ts"
proof -
  from ok have fs: "list_all2 (future_ok (broken r)) ts (futures r)" by (simp add: scoring_ok_def)
  with k show len: "length (scores r) < length ts" by (simp add: list_all2_lengthD)
  from list_all2_nthD[OF fs len] f
  show "x = score_transaction (ts ! length (scores r)) \<or> broken r \<and> x = Inl pool_broken" by simp
qed

lemma scoring_ok_step:
  assumes ok: "scoring_ok ts n r" and step: "score_step r e = Some r'"
  shows "scoring_ok ts n r'"
proof (cases e)
  case (Start_scoring i)
  with step scoring_ok_move[OF ok, of i Scoring] ok show ?thesis
    by (auto simp: scoring_ok_def split: if_splits)
next
  case (End_scoring i)
  with step scoring_ok_move[OF ok, of i "Scored (score_transaction (transactions r ! i))"] ok
  show ?thesis by (auto simp: scoring_ok_def split: if_splits)
next
  case Next_score
  with step obtain x where k: "length (scores r) < length (futures r)" "raised r = None"
    "futures r ! length (scores r) = Scored x" by (auto split: if_splits scoring.splits)
  note x = scoring_ok_next[OF ok k(1,3)]
  show ?thesis
  proof (cases x)
    case (Inl e)
    with Next_score step k have "r' = r\<lparr>raised := Some e\<rparr>" by simp
    with ok x Inl show ?thesis by (auto simp: scoring_ok_def scoring_now_def)
  next
    case (Inr s)
    with Next_score step k have r': "r' = r\<lparr>scores := scores r @ [s]\<rparr>" by simp
    from x Inr have "score_transaction (ts ! length (scores r)) = Inr s" by simp
    with ok x(2) k(2) show ?thesis
      by (auto simp: scoring_ok_def scoring_now_def r' take_Suc_conv_app_nth intro: list_all2_appendI)
  qed
next
  case (Drop_future i)
  with step scoring_ok_move[OF ok, of i Dropped] show ?thesis by (auto split: if_splits)
next
  case Process_dies
  with step have r': "r' = r\<lparr>futures := map break_future (futures r), broken := True\<rparr>" by simp
  have "break_future f \<noteq> Scoring" for f by (cases f) auto
  then have "scoring_now r' = 0" by (simp add: scoring_now_def r' filter_empty_conv)
  moreover have "list_all2 (future_ok True) ts (map break_future (futures r))"
    using ok by (auto simp: scoring_ok_def list_all2_map2 intro: list_all2_mono future_ok_break)
  ultimately show ?thesis using ok by (auto simp: scoring_ok_def r')
qed

definition scoring_start :: "nat \<Rightarrow> transaction list \<Rightarrow> nat \<Rightarrow> score_run \<Rightarrow> bool" where
  "scoring_start cpus ts n r \<longleftrightarrow>
     (\<exists>b. start_scoring cpus b ts = Inr r) \<and> processes r = n"

lemma scoring_ok_start: "scoring_start cpus ts n r \<Longrightarrow> scoring_ok ts n r"
  by (auto simp: scoring_start_def start_scoring_def scoring_ok_def scoring_now_def list_all2_map2
      list_all2_same filter_empty_conv split: if_splits)

interpretation scorings: invariant_machine score_step "scoring_start cpus ts n" "scoring_ok ts n"
  for cpus ts n
  by unfold_locales (auto intro: scoring_ok_start scoring_ok_step simp del: score_step.simps)

lemma broken_step: "score_step r e = Some r' \<Longrightarrow> broken r' = (broken r \<or> e = Process_dies)"
  by (cases e) (auto split: if_splits scoring.splits sum.splits)

lemma broken_runs: "runs score_step r es = Some r' \<Longrightarrow> broken r' = (broken r \<or> Process_dies \<in> set es)"
  by (induction es arbitrary: r) (auto dest!: broken_step split: option.splits simp del: score_step.simps)

subsection \<open>The outcome\<close>

lemma map_in_order_prefix:
  assumes "list_all2 (\<lambda>x y. f x = Inr y) (take k xs) ys" and "k < length xs" and "f (xs ! k) = Inl e"
  shows "map_in_order f xs = Inl e"
proof -
  have "xs = take k xs @ xs ! k # drop (Suc k) xs" using assms(2) by (simp add: id_take_nth_drop)
  moreover have "\<forall>y \<in> set (take k xs). \<exists>z. f y = Inr z"
  proof
    fix y
    assume "y \<in> set (take k xs)"
    then obtain i where "i < length (take k xs)" "y = take k xs ! i" by (auto simp: in_set_conv_nth)
    with list_all2_nthD[OF assms(1)] show "\<exists>z. f y = Inr z" by blast
  qed
  ultimately show ?thesis using assms(3) map_in_order_Inl by blast
qed

lemma outcome_of_ok:
  assumes ok: "scoring_ok ts n r" and "ts \<noteq> []" and "score_outcome r = Some res"
  shows "res = score_all ts \<or> broken r \<and> res = Inl pool_broken"
proof (cases "raised r")
  case None
  with assms(3) have "length (futures r) \<le> length (scores r)" and res: "res = Inr (scores r)"
    by (auto simp: score_outcome_def iterating_def split: if_splits)
  with ok have "length (scores r) = length ts" by (auto simp: scoring_ok_def dest: list_all2_lengthD)
  with ok have "map_in_order score_transaction ts = Inr (scores r)"
    by (simp add: scoring_ok_def map_in_order_Inr)
  with res assms(2) show ?thesis by (simp add: score_all_def)
next
  case (Some e)
  with assms(3) have res: "res = Inl e" by (auto simp: score_outcome_def split: if_splits)
  from ok Some map_in_order_prefix[of score_transaction "length (scores r)" ts "scores r" e] assms(2)
  show ?thesis by (auto simp: scoring_ok_def res score_all_def)
qed

subsection \<open>The batch comes to an end\<close>

fun future_left :: "scoring \<Rightarrow> nat" where
  "future_left Waiting = 2"
| "future_left Scoring = 1"
| "future_left _ = 0"

definition scoring_left :: "score_run \<Rightarrow> nat" where
  "scoring_left r =
     sum_list (map future_left (futures r)) + (length (futures r) - length (scores r)) +
     (if raised r = None then 1 else 0)"

fun pool_moves :: "score_event \<Rightarrow> bool" where
  "pool_moves Process_dies = False"
| "pool_moves _ = True"

lemma scoring_left_own:
  assumes "pool_moves e" and "score_step r e = Some r'"
  shows "scoring_left r' < scoring_left r"
proof (cases e)
  case (Start_scoring i)
  with assms parts_update[of i "futures r" future_left Scoring] show ?thesis
    by (auto simp: scoring_left_def split: if_splits)
next
  case (End_scoring i)
  with assms parts_update[of i "futures r" future_left "Scored (score_transaction (transactions r ! i))"]
  show ?thesis by (auto simp: scoring_left_def split: if_splits)
next
  case (Drop_future i)
  with assms parts_update[of i "futures r" future_left Dropped] show ?thesis
    by (auto simp: scoring_left_def split: if_splits)
qed (use assms in \<open>auto simp: scoring_left_def split: if_splits scoring.splits sum.splits\<close>)

lemma scoring_left_any:
  assumes "score_step r e = Some r'"
  shows "scoring_left r' \<le> scoring_left r"
proof (cases "pool_moves e")
  case True
  with scoring_left_own assms show ?thesis by (meson less_imp_le)
next
  case False
  then have "e = Process_dies" by (cases e) auto
  moreover have "future_left (break_future f) \<le> future_left f" for f by (cases f) auto
  ultimately show ?thesis using assms
    by (auto simp: scoring_left_def comp_def intro!: sum_list_mono)
qed

definition may_score :: "transaction list \<Rightarrow> nat \<Rightarrow> score_run \<Rightarrow> bool" where
  "may_score ts n r \<longleftrightarrow>
     0 < n \<and> scoring_ok ts n r \<and> (raised r = None \<longrightarrow> Dropped \<notin> set (futures r))"

lemma may_score_step:
  assumes "may_score ts n r" and "score_step r e = Some r'"
  shows "may_score ts n r'"
proof -
  have keep: "Dropped = break_future f \<longleftrightarrow> f = Dropped" for f by (cases f) auto
  have "Dropped \<notin> set (futures r')" if "raised r' = None"
    using assms that
    by (cases e) (auto simp: may_score_def keep dest!: set_update_subset_insert[THEN subsetD]
        split: if_splits scoring.splits sum.splits)
  with assms scoring_ok_step show ?thesis unfolding may_score_def by blast
qed

lemma scoring_progress:
  assumes may: "may_score ts n r" and "score_outcome r = None"
  shows "\<exists>e. pool_moves e \<and> score_step r e \<noteq> None"
proof -
  have own: ?thesis if "score_step r e \<noteq> None" "pool_moves e" for e using that by blast
  consider (busy) "Scoring \<in> set (futures r)" | (wait) "scoring_now r = 0" "Waiting \<in> set (futures r)"
    | (next_one) "iterating r" "list_all settled (futures r)"
  proof (cases "Scoring \<in> set (futures r) \<or> Waiting \<in> set (futures r)")
    case False
    then have "list_all settled (futures r)" unfolding list_all_iff
      by (metis settled.elims(3))
    with assms(2) show ?thesis using that(3) by (auto simp: score_outcome_def split: if_splits)
  qed (auto simp: scoring_now_def filter_empty_conv intro: that)
  then show ?thesis
  proof cases
    case busy
    then obtain i where "i < length (futures r)" "futures r ! i = Scoring" by (auto simp: in_set_conv_nth)
    then show ?thesis by (intro own[of "End_scoring i"]) simp_all
  next
    case wait
    then obtain i where "i < length (futures r)" "futures r ! i = Waiting" by (auto simp: in_set_conv_nth)
    with wait may show ?thesis
      by (intro own[of "Start_scoring i"]) (simp_all add: may_score_def scoring_ok_def)
  next
    case next_one
    then have k: "length (scores r) < length (futures r)" "raised r = None" by (simp_all add: iterating_def)
    from next_one(2) k(1) have "settled (futures r ! length (scores r))" by (simp add: list_all_length)
    moreover have "futures r ! length (scores r) \<noteq> Dropped"
      using may k by (auto simp: may_score_def in_set_conv_nth)
    ultimately obtain x where "futures r ! length (scores r) = Scored x"
      by (cases "futures r ! length (scores r)") auto
    with k show ?thesis by (intro own[of Next_score]) (auto split: sum.splits)
  qed
qed

interpretation scoring_ends: finishing_machine score_step "may_score ts n" "\<lambda>_. True" pool_moves
  "\<lambda>r. score_outcome r \<noteq> None" scoring_left for ts n
proof unfold_locales
  show "\<exists>e. pool_moves e \<and> score_step r e \<noteq> None" if "may_score ts n r" "\<not> score_outcome r \<noteq> None" for r
    using scoring_progress[of ts n r] that by simp
qed (auto intro: may_score_step scoring_left_own scoring_left_any simp del: score_step.simps)

lemma may_score_start:
  assumes "init_batch workers = Inr b" and "start_scoring cpus b ts = Inr r" and "0 < cpus"
  shows "may_score ts (processes r) r"
proof -
  from assms(2) have "scoring_start cpus ts (processes r) r" by (auto simp: scoring_start_def)
  moreover from assms have "0 < processes r"
    by (auto simp: init_batch_def start_scoring_def split: option.splits if_splits)
  ultimately show ?thesis using assms(2)
    by (auto simp: may_score_def scoring_ok_start start_scoring_def split: if_splits)
qed

subsection \<open>Properties\<close>

text \<open>
  C38. The pool changes nothing but the time: whatever the processes do in whatever order, what
  \<open>score_all\<close> returns or raises is what scoring the transactions one after another gives; only
  when a process has died it may raise \<open>BrokenProcessPool\<close> instead. At every moment at most
  \<open>max_workers\<close> transactions are being scored.
\<close>

theorem pool_scores_like_a_loop:
  assumes "init_batch workers = Inr b" and "start_scoring cpus b ts = Inr r0"
    and "runs score_step r0 schedule = Some r"
  shows "(\<forall>res. score_outcome r = Some res \<longrightarrow>
            res = score_all ts \<or> Process_dies \<in> set schedule \<and> res = Inl pool_broken) \<and>
         int (scoring_now r) \<le> (case workers of None \<Rightarrow> int cpus | Some n \<Rightarrow> n)"
proof -
  from assms(2) have start: "scoring_start cpus ts (processes r0) r0" by (auto simp: scoring_start_def)
  from scorings.invariant[OF this assms(3)] have ok: "scoring_ok ts (processes r0) r" .
  from assms(2) have ts: "ts \<noteq> []" and "\<not> broken r0" by (auto simp: start_scoring_def split: if_splits)
  with broken_runs[OF assms(3)] have dead: "broken r \<longleftrightarrow> Process_dies \<in> set schedule" by simp
  have "int (processes r0) = (case workers of None \<Rightarrow> int cpus | Some n \<Rightarrow> n)"
    using assms(1,2) by (auto simp: init_batch_def start_scoring_def split: option.splits if_splits)
  moreover have "scoring_now r \<le> processes r0" using ok by (simp add: scoring_ok_def)
  ultimately show ?thesis using outcome_of_ok[OF ok ts] dead by fastforce
qed

text \<open>
  A batch always ends: apart from dying processes, a schedule has at most three steps for each
  transaction and one more, the pool and the caller are never stuck before \<open>score_all\<close> has
  returned or raised, and from every state on they can bring it there.
\<close>

lemma scoring_always_ends:
  assumes "init_batch workers = Inr b" and "start_scoring cpus b ts = Inr r0" and "0 < cpus"
    and "runs score_step r0 schedule = Some r"
  shows "length (filter pool_moves schedule) \<le> 3 * length ts + 1 \<and>
         ((\<forall>e. pool_moves e \<longrightarrow> score_step r e = None) \<longrightarrow> score_outcome r \<noteq> None) \<and>
         (\<exists>rest q. list_all pool_moves rest \<and> runs score_step r rest = Some q \<and> score_outcome q \<noteq> None)"
proof -
  have "scoring_left r0 = 3 * length ts + 1"
    using assms(2) by (auto simp: start_scoring_def scoring_left_def comp_def sum_list_triv split: if_splits)
  with scoring_ends.comes_to_an_end[OF may_score_start[OF assms(1-3)] list_all_True assms(4)]
  show ?thesis by auto
qed

text \<open>Two transactions and one process; the second one is scored first.\<close>

definition score_schedule :: "score_event list" where
  "score_schedule =
     [Start_scoring 1, End_scoring 1, Start_scoring 0, End_scoring 0, Next_score, Next_score]"

definition fresh_scoring :: score_run where
  "fresh_scoring =
     \<lparr>transactions = [risky, riskier], processes = 1, futures = [Waiting, Waiting], broken = False,
      scores = [], raised = None\<rparr>"

definition scoring_end :: score_run where
  "scoring_end = the (runs score_step fresh_scoring score_schedule)"

lemma scoring_end_run:
  "init_batch (Some 1) = Inr \<lparr>max_workers = Some 1\<rparr>"
  "start_scoring 4 \<lparr>max_workers = Some 1\<rparr> [risky, riskier] = Inr fresh_scoring"
  "runs score_step fresh_scoring score_schedule = Some scoring_end"
  "score_outcome scoring_end = Some (Inr (map projr [score_transaction risky, score_transaction riskier]))"
  by (simp_all add: init_batch_def start_scoring_def fresh_scoring_def score_schedule_def scoring_end_def
      scoring_now_def score_outcome_def iterating_def risky_scores)

theorem pool_scores_like_a_loop_witness:
  "score_all [risky, riskier] = Inr (map projr [score_transaction risky, score_transaction riskier])"
proof -
  have "Process_dies \<notin> set score_schedule" by (simp add: score_schedule_def)
  with pool_scores_like_a_loop[OF scoring_end_run(1-3)] scoring_end_run(4) show ?thesis by metis
qed

lemma scoring_always_ends_witness: "length (filter pool_moves score_schedule) \<le> 3 * length [risky, riskier] + 1"
  by (rule conjunct1[OF scoring_always_ends[OF scoring_end_run(1,2) _ scoring_end_run(3)]]) simp

end
