(* ===== verification/Checks.thy ===== *)
theory Checks
  imports Machines
begin

section \<open>taskgroup: checkout checks that succeed or fail as one\<close>

text \<open>
  Models \<^verbatim>\<open>taskgroup/checks.py\<close> over \<open>asyncio.TaskGroup\<close>: one task per check; the first
  task that fails makes the group cancel the tasks that still run; the group waits for all of
  them and then raises the collected failures as one exception group. A cancelled task ends
  at its next await, but may also still return or fail. The checks are callables of the
  caller: their outcomes come with the events. A check that ends by \<open>CancelledError\<close> is
  cancelled, whoever has cancelled it; the exceptions that end the event loop itself
  (\<open>KeyboardInterrupt\<close>, \<open>SystemExit\<close>) do not come out of a task here. The task that runs the
  group may itself be cancelled while it waits: then the group cancels its tasks, and \<open>run\<close>
  ends by the cancellation unless a check has failed.

  The tasks are created one after the other in the body of the group, without an await in
  between, so no check starts before all calls \<open>check()\<close> have given their coroutines. Such a
  call may itself raise, which ends the body: no further task is created, the group cancels
  the tasks that have not started, and a task that is cancelled before its first step never
  runs its check.
\<close>

datatype 'v check_task =
    Created
  | Running
  | Returned 'v
  | Raised exn
  | Cancelled

datatype 'v run_result =
    Results "(string, 'v) dict"
  | Group_failed "exn list"
  | Run_cancelled
  | Run_ended exn

record 'v checks =
  to_create :: "string list"
  tasks :: "(string, 'v check_task) dict"
  aborting :: bool
  errors :: "exn list"
  body_error :: "exn option"
  caller_cancelled :: bool

definition init_checks :: "string list \<Rightarrow> string list result" where
  "init_checks ns =
     (if ns = [] then Inl (ValueError ''checks must not be empty'')
      else if '''' \<in> set ns then Inl (ValueError ''check names must not be empty'')
      else Inr ns)"

definition start_run :: "string list \<Rightarrow> 'v checks" where
  "start_run ns =
     \<lparr>to_create = ns, tasks = [], aborting = False, errors = [], body_error = None,
      caller_cancelled = False\<rparr>"

datatype 'v check_event =
    Check_created string
  | Call_raises string exn
  | Check_starts string
  | Check_returns string 'v
  | Check_raises string exn
  | Check_cancelled string
  | Caller_cancelled

definition set_task :: "string \<Rightarrow> 'v check_task \<Rightarrow> 'v checks \<Rightarrow> 'v checks" where
  "set_task n r s = s\<lparr>tasks := AList.update n r (tasks s)\<rparr>"

fun has_ended :: "'v check_task \<Rightarrow> bool" where
  "has_ended Created = False"
| "has_ended Running = False"
| "has_ended _ = True"

definition all_ended :: "'v checks \<Rightarrow> bool" where
  "all_ended s \<longleftrightarrow> to_create s = [] \<and> list_all (has_ended \<circ> snd) (tasks s)"

definition task_is :: "'v check_task \<Rightarrow> string \<Rightarrow> 'v checks \<Rightarrow> bool" where
  "task_is t n s \<longleftrightarrow> to_create s = [] \<and> map_of (tasks s) n = Some t"

definition check_step :: "'v checks \<Rightarrow> 'v check_event \<Rightarrow> 'v checks option" where
  "check_step s e =
     (case e of
        Check_created n \<Rightarrow>
          if to_create s \<noteq> [] \<and> n = hd (to_create s)
          then Some (set_task n Created (s\<lparr>to_create := tl (to_create s)\<rparr>)) else None
      | Call_raises n err \<Rightarrow>
          if to_create s \<noteq> [] \<and> n = hd (to_create s)
          then Some (s\<lparr>to_create := [], body_error := Some err, aborting := True\<rparr>) else None
      | Check_starts n \<Rightarrow>
          if task_is Created n s \<and> \<not> aborting s then Some (set_task n Running s) else None
      | Check_returns n v \<Rightarrow>
          if task_is Running n s then Some (set_task n (Returned v) s) else None
      | Check_raises n err \<Rightarrow>
          if task_is Running n s \<and> is_exception err
          then Some (set_task n (Raised err) (s\<lparr>aborting := True, errors := errors s @ [err]\<rparr>))
          else None
      | Check_cancelled n \<Rightarrow>
          if task_is Created n s \<or> task_is Running n s
          then Some (set_task n Cancelled s) else None
      | Caller_cancelled \<Rightarrow>
          if all_ended s \<or> to_create s \<noteq> [] then None
          else Some (s\<lparr>aborting := True, caller_cancelled := True\<rparr>))"

text \<open>
  The end of the \<^verbatim>\<open>async with\<close> block and the dictionary of the results. An exception that ended
  the body joins the group; \<open>CancelledError\<close> propagates alone, and so does what is not an
  \<open>Exception\<close>.
\<close>

fun results_of :: "(string, 'v check_task) dict \<Rightarrow> (string, 'v) dict option" where
  "results_of [] = Some []"
| "results_of ((n, Returned v) # ts) = map_option (\<lambda>d. (n, v) # d) (results_of ts)"
| "results_of ((n, _) # ts) = None"

fun body_result :: "exn list \<Rightarrow> exn \<Rightarrow> 'v run_result" where
  "body_result errs e =
     (if is_exception e then Group_failed (errs @ [e])
      else if e \<noteq> cancelled then Run_ended e
      else if errs = [] then Run_cancelled else Group_failed errs)"

definition run_outcome :: "'v checks \<Rightarrow> 'v run_result option" where
  "run_outcome s =
     (if \<not> all_ended s then None
      else case body_error s of
        Some e \<Rightarrow> Some (body_result (errors s) e)
      | None \<Rightarrow>
          if errors s \<noteq> [] then Some (Group_failed (errors s))
          else if caller_cancelled s then Some Run_cancelled
          else case results_of (tasks s) of
            Some d \<Rightarrow> Some (Results d)
          | None \<Rightarrow> Some Run_cancelled)"

subsection \<open>Invariant\<close>

fun raised_by :: "'v check_event \<Rightarrow> exn list" where
  "raised_by (Check_raises n e) = [e]"
| "raised_by _ = []"

fun body_raised :: "'v check_event \<Rightarrow> exn list" where
  "body_raised (Call_raises n e) = [e]"
| "body_raised _ = []"

definition check_errors :: "'v check_event list \<Rightarrow> exn list" where
  "check_errors es = concat (map raised_by es)"

definition body_errors :: "'v check_event list \<Rightarrow> exn list" where
  "body_errors es = concat (map body_raised es)"

lemma check_errors_append [simp]:
  "check_errors [] = []" "check_errors (es @ [e]) = check_errors es @ raised_by e"
  by (simp_all add: check_errors_def)

lemma body_errors_append [simp]:
  "body_errors [] = []" "body_errors (es @ [e]) = body_errors es @ body_raised e"
  by (simp_all add: body_errors_def)

fun starts_check :: "'v check_event \<Rightarrow> bool" where
  "starts_check (Check_starts n) = True"
| "starts_check _ = False"

fun task_from :: "'v check_event list \<Rightarrow> string \<Rightarrow> 'v check_task \<Rightarrow> bool" where
  "task_from es n Created = (Check_created n \<in> set es)"
| "task_from es n Running = (Check_starts n \<in> set es)"
| "task_from es n (Returned v) = (Check_starts n \<in> set es \<and> Check_returns n v \<in> set es)"
| "task_from es n (Raised e) = (Check_starts n \<in> set es \<and> Check_raises n e \<in> set es)"
| "task_from es n Cancelled = (Check_cancelled n \<in> set es)"

text \<open>Until the body is over no check has started; after a failed body none ever starts.\<close>

definition body_open :: "'v checks \<Rightarrow> bool" where
  "body_open s \<longleftrightarrow> to_create s \<noteq> [] \<or> body_error s \<noteq> None"

definition checks_from :: "'v checks \<Rightarrow> 'v check_event list \<Rightarrow> 'v checks \<Rightarrow> bool" where
  "checks_from s0 es s \<longleftrightarrow>
     (body_error s = None \<longrightarrow> keys_of (tasks s) @ to_create s = to_create s0) \<and>
     distinct (keys_of (tasks s) @ to_create s) \<and>
     (\<forall>n t. map_of (tasks s) n = Some t \<longrightarrow> task_from es n t) \<and>
     errors s = check_errors es \<and> (to_create s \<noteq> [] \<longrightarrow> body_error s = None) \<and>
     (case body_error s of None \<Rightarrow> [] | Some e \<Rightarrow> [e]) = body_errors es \<and>
     (body_open s \<longrightarrow> check_errors es = [] \<and> \<not> list_ex starts_check es) \<and>
     aborting s = (errors s \<noteq> [] \<or> caller_cancelled s \<or> body_error s \<noteq> None) \<and>
     caller_cancelled s = (Caller_cancelled \<in> set es)"

lemma task_from_mono: "task_from es n t \<Longrightarrow> task_from (es @ [e]) n t"
  by (cases t) auto

lemma checks_from_start: "distinct ns \<Longrightarrow> s0 = start_run ns \<Longrightarrow> checks_from s0 [] s0"
  by (auto simp: checks_from_def start_run_def)

lemma keys_set_task: "map_of d n = Some t \<Longrightarrow> keys_of (AList.update n r d) = keys_of d"
  by (auto simp: keys_of_update dest: map_of_Some_keys)

lemma task_fromD: "checks_from s0 es s \<Longrightarrow> map_of (tasks s) n = Some t \<Longrightarrow> task_from es n t"
  by (simp add: checks_from_def)

lemma no_start_in_body: "checks_from s0 es s \<Longrightarrow> body_open s \<Longrightarrow> Check_starts n \<notin> set es"
  by (auto simp: checks_from_def list_ex_iff)

lemma body_not_running:
  "checks_from s0 es s \<Longrightarrow> body_open s \<Longrightarrow> map_of (tasks s) n \<noteq> Some Running"
  using task_fromD[of s0 es s n Running] no_start_in_body[of s0 es s n] by auto

lemma aborting_iff:
  "checks_from s0 es s \<Longrightarrow> aborting s = (errors s \<noteq> [] \<or> caller_cancelled s \<or> body_error s \<noteq> None)"
  by (simp add: checks_from_def)

lemma checks_from_set:
  assumes "checks_from s0 es s" and "task_is t0 n s" and "task_from (es @ [e]) n r"
    and s': "s' = set_task n r (s\<lparr>aborting := a, errors := errors s @ raised_by e\<rparr>)"
    and "a = (errors s' \<noteq> [] \<or> caller_cancelled s \<or> body_error s \<noteq> None)"
    and "body_raised e = []" and "e \<noteq> Caller_cancelled"
    and "body_open s \<Longrightarrow> \<not> starts_check e \<and> raised_by e = []"
  shows "checks_from s0 (es @ [e]) s'"
proof -
  have keys: "keys_of (tasks s') = keys_of (tasks s)"
    using assms(2) s' by (simp add: task_is_def set_task_def keys_set_task)
  have "task_from (es @ [e]) m t" if "map_of (tasks s') m = Some t" for m t
    using that assms(1,3) s'
    by (auto simp: checks_from_def set_task_def split: if_splits intro: task_from_mono)
  moreover have "to_create s' = to_create s" "body_error s' = body_error s" "aborting s' = a"
      "caller_cancelled s' = caller_cancelled s" "errors s' = errors s @ raised_by e"
      "body_open s' = body_open s"
    using s' by (simp_all add: set_task_def body_open_def)
  ultimately show ?thesis using assms(1,5-8) keys unfolding checks_from_def
    by (intro conjI) (simp, simp, blast, simp, simp, simp, fastforce, simp, simp)
qed

lemma checks_from_created:
  assumes "checks_from s0 es s" and "to_create s = n # ns"
  shows "checks_from s0 (es @ [Check_created n]) (set_task n Created (s\<lparr>to_create := ns\<rparr>))"
proof -
  from assms have "n \<notin> set (keys_of (tasks s))" by (simp add: checks_from_def)
  then have "tasks (set_task n Created (s\<lparr>to_create := ns\<rparr>)) = tasks s @ [(n, Created)]"
    by (simp add: set_task_def update_new)
  moreover have "map_of (tasks (set_task n Created (s\<lparr>to_create := ns\<rparr>))) = (map_of (tasks s))(n \<mapsto> Created)"
    by (simp add: set_task_def)
  moreover have "body_error s = None" "check_errors es = []" "body_errors es = []"
    using assms by (simp_all add: checks_from_def body_open_def split: option.splits)
  moreover have "distinct (to_create s0)" "keys_of (tasks s) @ n # ns = to_create s0"
    using assms calculation(3) by (auto simp: checks_from_def simp flip: distinct_append)
  ultimately show ?thesis using assms
    by (simp add: checks_from_def body_open_def task_from_mono set_task_def)
qed

lemma checks_from_call_raises:
  assumes "checks_from s0 es s" and "to_create s \<noteq> []"
  shows "checks_from s0 (es @ [Call_raises n err])
    (s\<lparr>to_create := [], body_error := Some err, aborting := True\<rparr>)"
proof -
  have "body_error s = None" "check_errors es = []" "body_errors es = []"
    using assms by (simp_all add: checks_from_def body_open_def split: option.splits)
  with assms show ?thesis by (simp add: checks_from_def body_open_def task_from_mono)
qed

lemma checks_from_caller:
  assumes "checks_from s0 es s"
  shows "checks_from s0 (es @ [Caller_cancelled]) (s\<lparr>aborting := True, caller_cancelled := True\<rparr>)"
  using assms by (simp add: checks_from_def body_open_def task_from_mono)

lemma checks_from_step:
  assumes from_s: "checks_from s0 es s" and step: "check_step s e = Some s'"
  shows "checks_from s0 (es @ [e]) s'"
proof (cases e)
  case (Check_created n)
  with step show ?thesis
    by (cases "to_create s")
      (auto simp: check_step_def split: if_splits intro: checks_from_created[OF from_s])
next
  case (Call_raises n err)
  with step show ?thesis
    by (auto simp: check_step_def split: if_splits intro: checks_from_call_raises[OF from_s])
next
  case (Check_starts n)
  with step aborting_iff[OF from_s] show ?thesis
    by (intro checks_from_set[OF from_s, of Created n _ Running _ "aborting s"])
      (auto simp: check_step_def set_task_def task_is_def body_open_def split: if_splits)
next
  case (Check_returns n v)
  with step have "aborting s = (errors s \<noteq> [] \<or> caller_cancelled s \<or> body_error s \<noteq> None)"
      "task_is Running n s" "Check_starts n \<in> set es" "s' = set_task n (Returned v) s"
    using aborting_iff[OF from_s] task_fromD[OF from_s, of n Running]
    by (auto simp: check_step_def task_is_def split: if_splits)
  with Check_returns show ?thesis
    by (intro checks_from_set[OF from_s, of Running n _ "Returned v" _ "aborting s"])
      (auto simp: check_step_def set_task_def task_is_def split: if_splits)
next
  case (Check_raises n err)
  with step body_not_running[OF from_s, of n] task_fromD[OF from_s, of n Running] show ?thesis
    by (intro checks_from_set[OF from_s, of Running n _ "Raised err" _ True])
      (auto simp: check_step_def set_task_def task_is_def split: if_splits)
next
  case (Check_cancelled n)
  with step obtain t where "task_is t n s" "s' = set_task n Cancelled s"
    by (auto simp: check_step_def split: if_splits)
  with Check_cancelled aborting_iff[OF from_s] show ?thesis
    by (intro checks_from_set[OF from_s, of t n _ Cancelled _ "aborting s"])
      (auto simp: set_task_def)
next
  case Caller_cancelled
  with step show ?thesis
    by (auto simp: check_step_def split: if_splits intro: checks_from_caller[OF from_s])
qed

text \<open>What the schedule says about the end of a task is what the task keeps.\<close>

fun end_kept :: "(string, 'v check_task) dict \<Rightarrow> 'v check_event \<Rightarrow> bool" where
  "end_kept d (Check_returns n v) = (map_of d n = Some (Returned v))"
| "end_kept d (Check_raises n e) = (map_of d n = Some (Raised e))"
| "end_kept d (Check_cancelled n) = (map_of d n = Some Cancelled)"
| "end_kept d _ = True"

definition ends_kept :: "'v checks \<Rightarrow> 'v check_event list \<Rightarrow> 'v checks \<Rightarrow> bool" where
  "ends_kept s0 es s \<longleftrightarrow> checks_from s0 es s \<and> list_all (end_kept (tasks s)) es"

lemma end_kept_mono:
  assumes "\<And>n t. map_of d n = Some t \<Longrightarrow> has_ended t \<Longrightarrow> map_of d' n = Some t" and "end_kept d e"
  shows "end_kept d' e"
  using assms(2) by (cases e) (auto intro!: assms(1))

text \<open>A step replaces only what has not ended.\<close>

lemma check_step_keeps_ends:
  assumes "checks_from s0 es s" and "check_step s e = Some s'"
    and "map_of (tasks s) n = Some t" and "has_ended t"
  shows "map_of (tasks s') n = Some t"
proof (cases e)
  case (Check_created m)
  with assms(2) obtain ns where "to_create s = m # ns" "s' = set_task m Created (s\<lparr>to_create := ns\<rparr>)"
    by (cases "to_create s") (auto simp: check_step_def split: if_splits)
  moreover from this(1) assms(1) have "m \<notin> set (keys_of (tasks s))" by (simp add: checks_from_def)
  with assms(3) have "m \<noteq> n" by (auto dest: map_of_Some_keys)
  ultimately show ?thesis using assms(3) by (simp add: set_task_def)
qed (use assms in \<open>auto simp: check_step_def set_task_def task_is_def split: if_splits\<close>)

lemma ends_kept_step:
  assumes "ends_kept s0 es s" and "check_step s e = Some s'"
  shows "ends_kept s0 (es @ [e]) s'"
proof -
  from assms(1) have from_s: "checks_from s0 es s" by (simp add: ends_kept_def)
  have "end_kept (tasks s') x" if "end_kept (tasks s) x" for x
    using that by (rule end_kept_mono[rotated]) (rule check_step_keeps_ends[OF from_s assms(2)])
  with assms(1) have "list_all (end_kept (tasks s')) es" by (auto simp: ends_kept_def list_all_iff)
  moreover have "end_kept (tasks s') e"
    using assms(2) by (cases e) (auto simp: check_step_def set_task_def split: if_splits)
  ultimately show ?thesis using checks_from_step[OF from_s assms(2)] by (simp add: ends_kept_def)
qed

interpretation check_trace:
  traced_machine check_step "\<lambda>s. \<exists>ns. distinct ns \<and> s = start_run ns" ends_kept
  by unfold_locales (auto simp: ends_kept_def[of _ "[]"] intro: checks_from_start ends_kept_step)

lemma results_of_Some:
  "results_of ts = Some d \<Longrightarrow> keys_of d = keys_of ts \<and> (\<forall>(n, v) \<in> set d. (n, Returned v) \<in> set ts)"
  by (induction ts arbitrary: d rule: results_of.induct) auto

lemma results_of_None:
  "results_of ts = None \<Longrightarrow> \<exists>(n, t) \<in> set ts. \<forall>v. t \<noteq> Returned v"
  by (induction ts rule: results_of.induct) auto

lemma results_of_contains:
  "results_of ts = Some d \<Longrightarrow> (n, Returned v) \<in> set ts \<Longrightarrow> (n, v) \<in> set d"
  by (induction ts arbitrary: d rule: results_of.induct) auto

lemma results_of_all:
  "results_of ts = Some d \<Longrightarrow> (n, t) \<in> set ts \<Longrightarrow> \<exists>v. t = Returned v"
  by (induction ts arbitrary: d rule: results_of.induct) auto

lemma ended_run:
  assumes "checks_from s0 es s" and "run_outcome s = Some r"
  shows "all_ended s" and "body_error s = Some e \<Longrightarrow> r = body_result [] e \<and> errors s = []"
    and "body_error s = None \<Longrightarrow> to_create s0 = keys_of (tasks s) \<and> wf_dict (tasks s)"
proof -
  show ended: "all_ended s" using assms(2) by (auto simp: run_outcome_def split: if_splits)
  then show "body_error s = None \<Longrightarrow> to_create s0 = keys_of (tasks s) \<and> wf_dict (tasks s)"
    using assms(1) by (auto simp: checks_from_def all_ended_def)
  show "r = body_result [] e \<and> errors s = []" if "body_error s = Some e"
  proof -
    from that assms(1) have "errors s = []" by (simp add: checks_from_def body_open_def)
    with assms(2) that ended show ?thesis by (simp add: run_outcome_def)
  qed
qed

subsection \<open>A run comes to an end\<close>

fun own_check :: "'v check_event \<Rightarrow> bool" where
  "own_check Caller_cancelled = False"
| "own_check _ = True"

fun steps_left :: "'v check_task \<Rightarrow> unit list" where
  "steps_left Created = [(), ()]"
| "steps_left Running = [()]"
| "steps_left _ = []"

definition checks_left :: "'v checks \<Rightarrow> nat" where
  "checks_left s = 3 * length (to_create s) + length (concat (map (steps_left \<circ> snd) (tasks s)))"

definition named_checks :: "'v checks \<Rightarrow> bool" where
  "named_checks s \<longleftrightarrow> distinct (keys_of (tasks s) @ to_create s)"

lemma set_task_left:
  "map_of d n = Some t \<Longrightarrow>
   length (concat (map (steps_left \<circ> snd) (AList.update n r d))) + length (steps_left t) =
     length (concat (map (steps_left \<circ> snd) d)) + length (steps_left r)"
  by (induction d) auto

lemma task_moves_on:
  assumes "task_is t n s" and "length (steps_left r) < length (steps_left t)"
    and "tasks s' = AList.update n r (tasks s)" and "to_create s' = to_create s"
  shows "checks_left s' < checks_left s"
  using assms set_task_left[of "tasks s" n t r] by (simp add: task_is_def checks_left_def)

lemma own_check_left:
  assumes "named_checks s" and "own_check e" and step: "check_step s e = Some s'"
  shows "checks_left s' < checks_left s"
proof (cases e)
  case (Check_created n)
  with step obtain ns where ns: "to_create s = n # ns" "s' = set_task n Created (s\<lparr>to_create := ns\<rparr>)"
    by (cases "to_create s") (auto simp: check_step_def split: if_splits)
  with assms(1) have "AList.update n Created (tasks s) = tasks s @ [(n, Created)]"
    by (auto simp: named_checks_def intro: update_new)
  with ns show ?thesis by (simp add: checks_left_def set_task_def)
next
  case (Call_raises n err)
  with step show ?thesis by (auto simp: check_step_def checks_left_def split: if_splits)
next
  case (Check_starts n)
  with step show ?thesis
    by (intro task_moves_on[of Created n s Running]) (auto simp: check_step_def set_task_def split: if_splits)
next
  case (Check_returns n v)
  with step show ?thesis
    by (intro task_moves_on[of Running n s "Returned v"]) (auto simp: check_step_def set_task_def split: if_splits)
next
  case (Check_raises n err)
  with step show ?thesis
    by (intro task_moves_on[of Running n s "Raised err"]) (auto simp: check_step_def set_task_def split: if_splits)
next
  case (Check_cancelled n)
  with step obtain t where "task_is t n s" "t = Created \<or> t = Running" "s' = set_task n Cancelled s"
    by (auto simp: check_step_def split: if_splits)
  then show ?thesis by (intro task_moves_on[of t n s Cancelled]) (auto simp: set_task_def)
qed (use assms in simp)

lemma check_step_named:
  assumes "named_checks s" and "check_step s e = Some s'"
  shows "named_checks s'"
proof (cases e)
  case (Check_created n)
  with assms(2) obtain ns where ns: "to_create s = n # ns" "s' = set_task n Created (s\<lparr>to_create := ns\<rparr>)"
    by (cases "to_create s") (auto simp: check_step_def split: if_splits)
  with assms(1) have "AList.update n Created (tasks s) = tasks s @ [(n, Created)]"
    by (auto simp: named_checks_def intro: update_new)
  with ns assms(1) show ?thesis by (auto simp: named_checks_def set_task_def)
qed (use assms in \<open>auto simp: check_step_def named_checks_def set_task_def task_is_def keys_set_task
       split: if_splits\<close>)

lemma running_check_can_end:
  assumes "named_checks s" and "run_outcome s = None"
  shows "\<exists>e. own_check e \<and> check_step s e \<noteq> None"
proof (cases "to_create s")
  case Nil
  from assms(2) have "\<not> all_ended s" by (auto simp: run_outcome_def split: if_splits option.splits)
  with Nil obtain n t where n: "(n, t) \<in> set (tasks s)" "\<not> has_ended t"
    by (auto simp: all_ended_def list_all_iff)
  with assms(1) have "map_of (tasks s) n = Some t" by (simp add: named_checks_def)
  moreover from n(2) have "t = Created \<or> t = Running" by (cases t) simp_all
  ultimately show ?thesis using Nil
    by (intro exI[of _ "Check_cancelled n"]) (auto simp: check_step_def task_is_def)
next
  case (Cons n ns)
  then show ?thesis by (intro exI[of _ "Check_created n"]) (simp add: check_step_def)
qed

interpretation check_ends: finishing_machine check_step named_checks "\<lambda>_. True" own_check
  "\<lambda>s. run_outcome s \<noteq> None" checks_left
proof unfold_locales
  show "checks_left s' \<le> checks_left s" if "named_checks s" "check_step s e = Some s'"
    for s s' :: "'a checks" and e
  proof (cases "own_check e")
    case True
    from own_check_left[OF that(1) this that(2)] show ?thesis by simp
  qed (use that in \<open>cases e; auto simp: check_step_def checks_left_def split: if_splits\<close>)
  show "\<exists>e. own_check e \<and> check_step s e \<noteq> None"
    if "named_checks s" "\<not> run_outcome s \<noteq> None" for s :: "'a checks"
    using running_check_can_end[OF that(1)] that(2) by blast
qed (auto intro: check_step_named own_check_left)

subsection \<open>Properties\<close>

text \<open>The case in which nothing goes wrong, and the one in which somebody cancels.\<close>

fun cancels :: "'v check_event \<Rightarrow> bool" where
  "cancels Caller_cancelled = True"
| "cancels (Check_cancelled n) = True"
| "cancels _ = False"

text \<open>With the body over and no errors, the run ends by its tasks: all of them returned, or not.\<close>

lemma quiet_run:
  assumes tr: "ends_kept (start_run ns) schedule s" and out: "run_outcome s = Some r"
    and quiet: "check_errors schedule = []" "body_errors schedule = []"
  shows "map fst (tasks s) = ns" "wf_dict (tasks s)" "list_all (has_ended \<circ> snd) (tasks s)"
    "r = (if caller_cancelled s then Run_cancelled
          else case results_of (tasks s) of Some d \<Rightarrow> Results d | None \<Rightarrow> Run_cancelled)"
    "(n, t) \<in> set (tasks s) \<Longrightarrow> t \<noteq> Cancelled \<Longrightarrow> \<exists>v. t = Returned v"
proof -
  from tr have from_s: "checks_from (start_run ns) schedule s" by (simp add: ends_kept_def)
  from from_s quiet have e: "errors s = []" and none: "body_error s = None"
    by (auto simp: checks_from_def split: option.splits)
  show keys: "map fst (tasks s) = ns" "wf_dict (tasks s)"
    using ended_run(3)[OF from_s out none] by (simp_all add: start_run_def)
  show all: "list_all (has_ended \<circ> snd) (tasks s)" using ended_run(1)[OF from_s out] by (simp add: all_ended_def)
  show "r = (if caller_cancelled s then Run_cancelled
          else case results_of (tasks s) of Some d \<Rightarrow> Results d | None \<Rightarrow> Run_cancelled)"
    using out e none by (auto simp: run_outcome_def split: if_splits option.splits)
  assume nt: "(n, t) \<in> set (tasks s)" and "t \<noteq> Cancelled"
  from nt all have "has_ended t" by (auto simp: list_all_iff)
  from nt keys(2) have "map_of (tasks s) n = Some t" by simp
  from task_fromD[OF from_s this] have from_t: "task_from schedule n t" .
  have "t \<noteq> Raised x" for x
  proof
    assume "t = Raised x"
    with from_t have "Check_raises n x \<in> set schedule" by simp
    with quiet(1) show False by (auto simp: check_errors_def dest!: bspec)
  qed
  with \<open>has_ended t\<close> \<open>t \<noteq> Cancelled\<close> show "\<exists>v. t = Returned v" by (cases t) auto
qed

lemma undisturbed_run:
  assumes tr: "ends_kept (start_run ns) schedule s" and out: "run_outcome s = Some r"
    and quiet: "check_errors schedule = []" "body_errors schedule = []"
    and none: "\<not> list_ex cancels schedule"
  shows "\<exists>d. r = Results d \<and> map fst d = ns \<and>
             (\<forall>n v. (n, v) \<in> set d \<longleftrightarrow> Check_returns n v \<in> set schedule)"
proof -
  note run = quiet_run[OF tr out quiet]
  from tr have from_s: "checks_from (start_run ns) schedule s" by (simp add: ends_kept_def)
  from from_s none have caller: "\<not> caller_cancelled s" by (auto simp: checks_from_def list_ex_iff)
  have returned: "\<exists>v. t = Returned v" if nt: "(n, t) \<in> set (tasks s)" for n t
  proof (rule run(5)[OF nt])
    show "t \<noteq> Cancelled"
    proof
      assume "t = Cancelled"
      with nt run(2) have "map_of (tasks s) n = Some Cancelled" by simp
      from task_fromD[OF from_s this] none show False by (auto simp: list_ex_iff)
    qed
  qed
  then obtain d where d: "results_of (tasks s) = Some d" using results_of_None[of "tasks s"] by fastforce
  note res = results_of_Some[OF d]
  have "(n, v) \<in> set d \<longleftrightarrow> Check_returns n v \<in> set schedule" for n v
  proof
    assume "(n, v) \<in> set d"
    with res run(2) have "map_of (tasks s) n = Some (Returned v)" by fastforce
    from task_fromD[OF from_s this] show "Check_returns n v \<in> set schedule" by simp
  next
    assume "Check_returns n v \<in> set schedule"
    with tr have "map_of (tasks s) n = Some (Returned v)" by (force simp: ends_kept_def list_all_iff)
    from map_of_SomeD[OF this] show "(n, v) \<in> set d" by (rule results_of_contains[OF d])
  qed
  with run(1,4) caller d res show ?thesis by auto
qed

lemma cancelled_run:
  assumes tr: "ends_kept (start_run ns) schedule s" and out: "run_outcome s = Some r"
    and quiet: "check_errors schedule = []" "body_errors schedule = []"
    and some: "list_ex cancels schedule"
  shows "r = Run_cancelled"
proof (cases "caller_cancelled s")
  case False
  with tr have "Caller_cancelled \<notin> set schedule" by (simp add: ends_kept_def checks_from_def)
  moreover from some obtain e where e: "e \<in> set schedule" "cancels e" by (auto simp: list_ex_iff)
  ultimately obtain n where "Check_cancelled n \<in> set schedule" by (cases e) auto
  with tr have "map_of (tasks s) n = Some Cancelled" by (force simp: ends_kept_def list_all_iff)
  from map_of_SomeD[OF this] have "results_of (tasks s) = None"
    using results_of_Some[of "tasks s"] results_of_all[of "tasks s"] by (cases "results_of (tasks s)") auto
  with quiet_run(4)[OF tr out quiet] False show ?thesis by simp
qed (use quiet_run(4)[OF tr out quiet] in simp)

text \<open>
  C18. A run that ends succeeds or fails as one, and how it ends is determined: if a call
  \<open>check()\<close> itself has raised, no check has started at all and the run ends by that exception (in
  a group, if it is an \<open>Exception\<close>);
  otherwise, if any check has raised an exception, the remaining checks are cancelled and the
  run raises a group of exactly the raised exceptions in their order; otherwise, if its caller
  or a check was cancelled, it ends by that cancellation; otherwise it returns exactly what the
  checks returned, under their names and in the order of the checks.
\<close>

theorem checks_succeed_or_fail_together:
  assumes "init_checks checks = Inr ns" and "distinct ns"
    and "runs check_step (start_run ns) schedule = Some s" and "run_outcome s = Some r"
  shows "(body_errors schedule \<noteq> [] \<longrightarrow>
            r = body_result [] (hd (body_errors schedule)) \<and> \<not> list_ex starts_check schedule) \<and>
         (body_errors schedule = [] \<and> check_errors schedule \<noteq> [] \<longrightarrow>
            r = Group_failed (check_errors schedule) \<and> aborting s) \<and>
         (body_errors schedule = [] \<and> check_errors schedule = [] \<and> list_ex cancels schedule \<longrightarrow>
            r = Run_cancelled) \<and>
         (body_errors schedule = [] \<and> check_errors schedule = [] \<and> \<not> list_ex cancels schedule \<longrightarrow>
            (\<exists>d. r = Results d \<and> map fst d = checks \<and>
               (\<forall>n v. (n, v) \<in> set d \<longleftrightarrow> Check_returns n v \<in> set schedule)))"
proof -
  from assms(1) have ns: "checks = ns" by (auto simp: init_checks_def split: if_splits)
  have tr: "ends_kept (start_run ns) schedule s"
    by (rule check_trace.every_run[OF _ assms(3)]) (use assms(2) in blast)
  then have from_s: "checks_from (start_run ns) schedule s" by (simp add: ends_kept_def)
  have "r = Group_failed (check_errors schedule) \<and> aborting s" if "check_errors schedule \<noteq> []"
    using that from_s assms(4)
    by (auto simp: run_outcome_def checks_from_def body_open_def split: if_splits option.splits)
  moreover have "r = body_result [] (hd (body_errors schedule)) \<and> \<not> list_ex starts_check schedule"
    if "body_errors schedule \<noteq> []"
  proof -
    from that from_s obtain a where a: "body_error s = Some a" "body_errors schedule = [a]"
      by (cases "body_error s") (simp_all add: checks_from_def)
    from from_s a(1) have "\<not> list_ex starts_check schedule" by (simp add: checks_from_def body_open_def)
    with a ended_run(2)[OF from_s assms(4) a(1)] show ?thesis by simp
  qed
  moreover note undisturbed_run[OF tr assms(4)] cancelled_run[OF tr assms(4)] ns
  ultimately show ?thesis by blast
qed

text \<open>
  A run always ends: it takes at most three own steps for each check, no matter whether and
  when the caller is cancelled, \<open>run\<close> has an outcome as soon as none of them is possible any
  more, and from everywhere it can get there.
\<close>

lemma run_always_ends:
  fixes s :: "'v checks"
  assumes "init_checks checks = Inr ns" and "distinct ns"
    and "runs check_step (start_run ns) schedule = Some s"
  shows "length (filter own_check schedule) + checks_left s \<le> 3 * length checks \<and>
         ((\<forall>e. own_check e \<longrightarrow> check_step s e = None) \<longrightarrow> run_outcome s \<noteq> None) \<and>
         (\<exists>rest t r. runs check_step s rest = Some t \<and> run_outcome t = Some r)"
proof -
  from assms(1) have "checks = ns" by (auto simp: init_checks_def split: if_splits)
  moreover have "named_checks (start_run ns :: 'v checks)" using assms(2) by (simp add: named_checks_def start_run_def)
  moreover have "checks_left (start_run ns :: 'v checks) = 3 * length ns" by (simp add: checks_left_def start_run_def)
  moreover note check_ends.comes_to_an_end[OF calculation(2) list_all_True assms(3)]
  ultimately show ?thesis by auto
qed

definition checkout_names :: "string list" where
  "checkout_names = [''fraud'', ''stock'']"

definition both_created :: "int check_event list" where
  "both_created = map Check_created checkout_names"

definition all_pass :: "int check_event list" where
  "all_pass = both_created @
     [Check_starts ''fraud'', Check_starts ''stock'', Check_returns ''stock'' 3, Check_returns ''fraud'' 0]"

definition one_fails :: "int check_event list" where
  "one_fails = both_created @
     [Check_starts ''fraud'', Check_starts ''stock'', Check_raises ''fraud'' (UserError ''down''),
      Check_cancelled ''stock'']"

definition call_fails :: "int check_event list" where
  "call_fails = [Check_created ''fraud'', Call_raises ''stock'' (UserError ''no client''), Check_cancelled ''fraud'']"

definition passed_checks :: "int checks" where
  "passed_checks = the (runs check_step (start_run checkout_names) all_pass)"

definition failed_checks :: "int checks" where
  "failed_checks = the (runs check_step (start_run checkout_names) one_fails)"

definition broken_checks :: "int checks" where
  "broken_checks = the (runs check_step (start_run checkout_names) call_fails)"

lemma checks_run:
  "init_checks checkout_names = Inr checkout_names" "distinct checkout_names"
  "runs check_step (start_run checkout_names) all_pass = Some passed_checks"
  "run_outcome passed_checks = Some (Results [(''fraud'', 0), (''stock'', 3)])"
  "runs check_step (start_run checkout_names) one_fails = Some failed_checks"
  "run_outcome failed_checks = Some (Group_failed [UserError ''down''])"
  "runs check_step (start_run checkout_names) call_fails = Some broken_checks"
  "run_outcome broken_checks = Some (Group_failed [UserError ''no client''])"
  by (simp_all add: init_checks_def checkout_names_def start_run_def all_pass_def one_fails_def
      call_fails_def both_created_def passed_checks_def failed_checks_def broken_checks_def
      check_step_def set_task_def task_is_def run_outcome_def all_ended_def)

theorem checks_succeed_or_fail_together_witness:
  "Check_returns ''stock'' 3 \<in> set all_pass \<and> aborting failed_checks \<and>
   \<not> list_ex starts_check call_fails"
proof -
  have "check_errors one_fails \<noteq> []" "body_errors one_fails = []"
    by (simp_all add: one_fails_def check_errors_def body_errors_def both_created_def checkout_names_def)
  with checks_succeed_or_fail_together[OF checks_run(1,2,5,6)] have "aborting failed_checks" by blast
  moreover have "body_errors call_fails \<noteq> []" by (simp add: call_fails_def body_errors_def)
  with checks_succeed_or_fail_together[OF checks_run(1,2,7,8)] have "\<not> list_ex starts_check call_fails" by blast
  moreover have "check_errors all_pass = []" "body_errors all_pass = []" "\<not> list_ex cancels all_pass"
    by (simp_all add: all_pass_def check_errors_def body_errors_def both_created_def checkout_names_def)
  with checks_succeed_or_fail_together[OF checks_run(1,2,3,4)]
  have "\<forall>n v. (n, v) \<in> set [(''fraud'', 0), (''stock'', 3)] \<longleftrightarrow> Check_returns n v \<in> set all_pass" by simp
  from spec[OF spec[OF this, of "''stock''"], of 3] have "Check_returns ''stock'' 3 \<in> set all_pass" by simp
  ultimately show ?thesis by simp
qed

lemma run_always_ends_witness:
  "length (filter own_check one_fails) + checks_left failed_checks \<le> 3 * length checkout_names"
  by (rule conjunct1[OF run_always_ends[OF checks_run(1,2,5)]])

end
