(* ===== verification/Import_Events.thy ===== *)
theory Import_Events
  imports Machines
begin

section \<open>importjobevents: collecting events from worker processes\<close>

text \<open>
  Models \<^verbatim>\<open>importjobevents/events.py\<close>. A worker process runs one job and puts its events and
  then a finish marker into the shared queue; the collector takes messages until it has seen
  one marker per worker, and then looks at the exit codes. The queue keeps the order of each
  process's messages and mixes those of different processes in any way: the schedule decides
  which worker puts its next message. A worker may also be killed, with what it has not yet
  put; that such a worker may leave the queue itself locked or torn is not modelled.
\<close>

subsection \<open>Jobs and events\<close>

datatype import_stage =
    Started
  | Parsed
  | Validated
  | Stored
  | Failed

record import_job =
  job_id :: string
  file_name :: string
  row_count :: int
  should_fail_validation :: bool

definition make_import_job :: "string \<Rightarrow> string \<Rightarrow> int \<Rightarrow> bool \<Rightarrow> import_job result" where
  "make_import_job job file rows fails =
     (if job = '''' then Inl (ValueError ''job_id must not be empty'')
      else if file = '''' then Inl (ValueError ''file_name must not be empty'')
      else if rows < 0 then Inl (ValueError ''row_count must not be negative'')
      else Inr \<lparr>job_id = job, file_name = file, row_count = rows, should_fail_validation = fails\<rparr>)"

record import_event =
  event_job :: string
  event_stage :: import_stage
  detail :: string

text \<open>A import_stage is always a known one here: the type has no other values.\<close>

definition make_event :: "string \<Rightarrow> import_stage \<Rightarrow> string \<Rightarrow> import_event result" where
  "make_event job st det =
     (if job = '''' then Inl (ValueError ''job_id must not be empty'')
      else if det = '''' then Inl (ValueError ''detail must not be empty'')
      else Inr \<lparr>event_job = job, event_stage = st, detail = det\<rparr>)"

datatype message =
    Event import_event
  | Worker_finished string

subsection \<open>The worker\<close>

text \<open>
  The body of \<open>_run_import_job\<close>: it puts events until one of its statements raises. The
  result is what it has put and the exception that ended it, if any.
\<close>

fun put_events :: "import_event result list \<Rightarrow> import_event list \<times> exn option" where
  "put_events [] = ([], None)"
| "put_events (Inl e # rs) = ([], Some e)"
| "put_events (Inr ev # rs) = apfst (\<lambda>evs. ev # evs) (put_events rs)"

definition exn_text :: "exn \<Rightarrow> string" where
  "exn_text e = (case e of ValueError s \<Rightarrow> s | RuntimeError s \<Rightarrow> s | UserError s \<Rightarrow> s | _ \<Rightarrow> '''')"

definition try_block :: "import_job \<Rightarrow> import_event list \<times> exn option" where
  "try_block job =
     put_events
       ([make_event (job_id job) Started (''started importing '' @ file_name job),
         make_event (job_id job) Parsed (''parsed '' @ py_str_int (row_count job) @ '' rows'')] @
        (if should_fail_validation job
         then [Inl (ValueError (file_name job @ '' failed validation''))] else []) @
        [make_event (job_id job) Validated ''validated rows'',
         make_event (job_id job) Stored ''stored import rows''])"

text \<open>
  What the function puts, and the exception that leaves it: the handler's own \<open>put\<close> may raise,
  the \<^verbatim>\<open>finally\<close> block puts the marker in any case.
\<close>

definition run_import_job :: "import_job \<Rightarrow> message list \<times> exn option" where
  "run_import_job job =
     (case try_block job of
        (evs, None) \<Rightarrow> (map Event evs @ [Worker_finished (job_id job)], None)
      | (evs, Some e) \<Rightarrow>
          (case make_event (job_id job) Failed (exn_text e) of
             Inr ev \<Rightarrow> (map Event (evs @ [ev]) @ [Worker_finished (job_id job)], None)
           | Inl e' \<Rightarrow> (map Event evs @ [Worker_finished (job_id job)], Some e')))"

text \<open>The events of a job, spelled out.\<close>

definition job_events :: "import_job \<Rightarrow> import_event list" where
  "job_events job =
     [\<lparr>event_job = job_id job, event_stage = Started,
       detail = ''started importing '' @ file_name job\<rparr>,
      \<lparr>event_job = job_id job, event_stage = Parsed,
       detail = ''parsed '' @ py_str_int (row_count job) @ '' rows''\<rparr>] @
     (if should_fail_validation job
      then [\<lparr>event_job = job_id job, event_stage = Failed,
             detail = file_name job @ '' failed validation''\<rparr>]
      else [\<lparr>event_job = job_id job, event_stage = Validated, detail = ''validated rows''\<rparr>,
            \<lparr>event_job = job_id job, event_stage = Stored, detail = ''stored import rows''\<rparr>])"

lemma run_import_job_eq:
  "make_import_job i f n b = Inr job \<Longrightarrow>
   run_import_job job = (map Event (job_events job) @ [Worker_finished (job_id job)], None)"
  by (auto simp: make_import_job_def run_import_job_def try_block_def make_event_def job_events_def
      exn_text_def apfst_eq split: if_splits)

definition valid_jobs :: "import_job list \<Rightarrow> bool" where
  "valid_jobs jobs \<longleftrightarrow> (\<forall>job \<in> set jobs. \<exists>i f n b. make_import_job i f n b = Inr job)"

lemma valid_job_runs:
  "valid_jobs jobs \<Longrightarrow> job \<in> set jobs \<Longrightarrow>
   run_import_job job = (map Event (job_events job) @ [Worker_finished (job_id job)], None)"
  unfolding valid_jobs_def using run_import_job_eq by blast

lemma job_events_own: "ev \<in> set (job_events job) \<Longrightarrow> event_job ev = job_id job"
  by (auto simp: job_events_def split: if_splits)

subsection \<open>The collector\<close>

text \<open>
  \<open>to_put\<close> is what each worker has not put yet, \<open>end_codes\<close> the exit codes of workers that are
  left alone, \<open>exit_codes\<close> those of the processes that have ended. Messages carry the number of
  their worker, which the collector does not look at; \<open>taken\<close> is a history variable: the
  messages that the collector has taken.
\<close>

record collector =
  to_put :: "message list list"
  end_codes :: "int list"
  exit_codes :: "int option list"
  queue :: "(nat \<times> message) list"
  collected :: "import_event list"
  finished_workers :: nat
  taken :: "(nat \<times> message) list"

definition start_processes :: "import_job list \<Rightarrow> collector result" where
  "start_processes jobs =
     (if jobs = [] then Inl (ValueError ''jobs must not be empty'')
      else Inr \<lparr>to_put = map (fst \<circ> run_import_job) jobs,
                end_codes = map (\<lambda>j. if snd (run_import_job j) = None then 0 else 1) jobs,
                exit_codes = map (\<lambda>_. None) jobs, queue = [], collected = [],
                finished_workers = 0, taken = []\<rparr>)"

definition collecting :: "collector \<Rightarrow> bool" where
  "collecting c \<longleftrightarrow> finished_workers c < length (exit_codes c)"

text \<open>The body of the loop, for the message that \<open>get\<close> returns.\<close>

definition take_message :: "nat \<times> message \<Rightarrow> collector \<Rightarrow> collector" where
  "take_message x c =
     (case snd x of
        Event ev \<Rightarrow> c\<lparr>collected := collected c @ [ev], taken := taken c @ [x]\<rparr>
      | Worker_finished _ \<Rightarrow> c\<lparr>finished_workers := finished_workers c + 1, taken := taken c @ [x]\<rparr>)"

datatype collect_event =
    Put_message nat
  | Take_message
  | Process_exits nat
  | Process_killed nat int

text \<open>
  A worker puts its messages one by one and exits after the last one; the collector takes what
  is first in the queue. A worker may be killed: what it has put stays in the queue, the rest is
  lost.
\<close>

definition running :: "collector \<Rightarrow> nat \<Rightarrow> bool" where
  "running c i \<longleftrightarrow> i < length (exit_codes c) \<and> exit_codes c ! i = None"

fun collect_step :: "collector \<Rightarrow> collect_event \<Rightarrow> collector option" where
  "collect_step c (Put_message i) =
     (if \<not> running c i then None
      else case to_put c ! i of
          [] \<Rightarrow> None
        | m # ms \<Rightarrow> Some (c\<lparr>to_put := (to_put c)[i := ms], queue := queue c @ [(i, m)]\<rparr>))"
| "collect_step c Take_message =
     (if \<not> collecting c then None
      else case queue c of
          [] \<Rightarrow> None
        | x # q \<Rightarrow> Some (take_message x (c\<lparr>queue := q\<rparr>)))"
| "collect_step c (Process_exits i) =
     (if \<not> running c i \<or> to_put c ! i \<noteq> [] then None
      else Some (c\<lparr>exit_codes := (exit_codes c)[i := Some (end_codes c ! i)]\<rparr>))"
| "collect_step c (Process_killed i code) =
     (if \<not> running c i \<or> code = 0 then None
      else Some (c\<lparr>to_put := (to_put c)[i := []], exit_codes := (exit_codes c)[i := Some code]\<rparr>))"

text \<open>
  What \<open>collect\<close> returns: \<open>None\<close> while it still takes messages or joins a process; the first
  process, in the order of the jobs, with a non-zero exit code makes it raise.
\<close>

fun first_bad_exit :: "import_job list \<Rightarrow> int option list \<Rightarrow> exn option option" where
  "first_bad_exit (j # js) (None # cs) = None"
| "first_bad_exit (j # js) (Some code # cs) =
     (if code \<noteq> 0
      then Some (Some (RuntimeError (''ImportJob-'' @ job_id j @ '' exited with '' @ py_str_int code)))
      else first_bad_exit js cs)"
| "first_bad_exit _ _ = Some None"

definition collect_result :: "import_job list \<Rightarrow> collector \<Rightarrow> import_event list result option" where
  "collect_result jobs c =
     (if collecting c then None
      else case first_bad_exit jobs (exit_codes c) of
        None \<Rightarrow> None
      | Some (Some e) \<Rightarrow> Some (Inl e)
      | Some None \<Rightarrow> Some (Inr (collected c)))"

subsection \<open>Messages by worker\<close>

definition from_worker :: "nat \<Rightarrow> (nat \<times> message) list \<Rightarrow> message list" where
  "from_worker i xs = map snd (filter (\<lambda>x. fst x = i) xs)"

lemma from_worker_simps [simp]:
  "from_worker i [] = []"
  "from_worker i (xs @ ys) = from_worker i xs @ from_worker i ys"
  "from_worker i (x # xs) = (if fst x = i then [snd x] else []) @ from_worker i xs"
  by (simp_all add: from_worker_def)

fun is_marker :: "message \<Rightarrow> bool" where
  "is_marker (Worker_finished _) = True"
| "is_marker (Event _) = False"

definition markers :: "message list \<Rightarrow> nat" where
  "markers ms = length (filter is_marker ms)"

lemma markers_simps [simp]:
  "markers [] = 0" "markers (ms @ ms') = markers ms + markers ms'"
  "markers (m # ms) = (if is_marker m then 1 else 0) + markers ms"
  by (simp_all add: markers_def)

fun events_in :: "message list \<Rightarrow> import_event list" where
  "events_in [] = []"
| "events_in (Event ev # ms) = ev # events_in ms"
| "events_in (Worker_finished j # ms) = events_in ms"

lemma events_in_simps [simp]:
  "events_in (ms @ ms') = events_in ms @ events_in ms'" "events_in (map Event evs) = evs"
  "markers (map Event evs) = 0"
  by (induction ms rule: events_in.induct; simp) (induction evs; simp)+

lemma markers_by_worker:
  "list_all (\<lambda>x. fst x < n) xs \<Longrightarrow> markers (map snd xs) = (\<Sum>i<n. markers (from_worker i xs))"
proof (induction xs)
  case (Cons x xs)
  have "(\<Sum>i<n. markers (from_worker i (x # xs))) =
      (\<Sum>i<n. (if i = fst x then markers [snd x] else 0) + markers (from_worker i xs))"
    by (rule sum.cong) auto
  also have "\<dots> = markers [snd x] + (\<Sum>i<n. markers (from_worker i xs))"
    using Cons.prems by (simp add: sum.distrib sum.delta)
  finally show ?case using Cons by simp
qed simp

text \<open>The messages of a job hold one marker, the last one.\<close>

definition messages_of :: "import_job \<Rightarrow> message list" where
  "messages_of job = map Event (job_events job) @ [Worker_finished (job_id job)]"

lemma prefix_markers:
  assumes "sent @ lost = messages_of job"
  shows "markers sent = (if lost = [] then 1 else 0)"
proof (cases lost rule: rev_cases)
  case (snoc ms m)
  with assms have "sent @ ms = map Event (job_events job)" by (simp add: messages_of_def)
  then have "markers (sent @ ms) = 0" by simp
  with snoc show ?thesis by simp
qed (use assms in \<open>simp add: messages_of_def\<close>)

subsection \<open>Invariant\<close>

fun killed :: "int option \<Rightarrow> bool" where
  "killed (Some code) = (code \<noteq> 0)"
| "killed None = False"

definition sent :: "collector \<Rightarrow> nat \<Rightarrow> message list" where
  "sent c i = from_worker i (taken c @ queue c)"

text \<open>
  What worker \<open>i\<close> has sent and what it has not is together what its job produces, unless it
  was killed and the rest is lost.
\<close>

definition worker_ok :: "import_job list \<Rightarrow> collector \<Rightarrow> nat \<Rightarrow> bool" where
  "worker_ok jobs c i \<longleftrightarrow>
     (\<exists>lost. sent c i @ to_put c ! i @ lost = messages_of (jobs ! i) \<and>
        (lost \<noteq> [] \<longrightarrow> killed (exit_codes c ! i))) \<and>
     (exit_codes c ! i \<noteq> None \<longrightarrow> to_put c ! i = [])"

definition collector_ok :: "import_job list \<Rightarrow> collector \<Rightarrow> bool" where
  "collector_ok jobs c \<longleftrightarrow>
     length (to_put c) = length jobs \<and> length (exit_codes c) = length jobs \<and>
     end_codes c = map (\<lambda>_. 0) jobs \<and>
     list_all (\<lambda>x. fst x < length jobs) (taken c @ queue c) \<and>
     collected c = events_in (map snd (taken c)) \<and>
     finished_workers c = markers (map snd (taken c)) \<and>
     (\<forall>i < length jobs. worker_ok jobs c i)"

lemma taken_message:
  "queue c = x # q \<Longrightarrow> take_message x (c\<lparr>queue := q\<rparr>) =
     c\<lparr>queue := q, collected := collected c @ events_in [snd x],
       finished_workers := finished_workers c + markers [snd x], taken := taken c @ [x]\<rparr>"
  by (cases c; cases "snd x") (simp_all add: take_message_def)

lemma sent_put: "sent (c\<lparr>to_put := p, queue := queue c @ [(i, m)]\<rparr>) j = sent c j @ (if i = j then [m] else [])"
  by (simp add: sent_def)

lemma collector_ok_step:
  assumes ok: "collector_ok jobs c" and step: "collect_step c e = Some c'"
  shows "collector_ok jobs c'"
proof -
  have len: "length (to_put c) = length jobs" "length (exit_codes c) = length jobs"
    using ok by (simp_all add: collector_ok_def)
  have same: "worker_ok jobs c' j"
    if "j < length jobs" "to_put c' ! j = to_put c ! j" "exit_codes c' ! j = exit_codes c ! j"
      "sent c' j = sent c j" for j
    using ok that by (simp add: collector_ok_def worker_ok_def)
  show ?thesis
  proof (cases e)
    case (Put_message i)
    with step obtain m ms where i: "running c i" "to_put c ! i = m # ms"
      and c': "c' = c\<lparr>to_put := (to_put c)[i := ms], queue := queue c @ [(i, m)]\<rparr>"
      by (auto split: if_splits list.splits)
    have "worker_ok jobs c' j" if "j < length jobs" for j
    proof (cases "j = i")
      case True
      from ok that have "worker_ok jobs c j" by (simp add: collector_ok_def)
      with i True that show ?thesis
        unfolding worker_ok_def c' sent_put by (auto simp: len running_def)
    qed (use that same c' sent_put in simp)
    with ok i show ?thesis by (simp add: collector_ok_def c' running_def)
  next
    case Take_message
    with step obtain x q where q: "queue c = x # q" and c': "c' = take_message x (c\<lparr>queue := q\<rparr>)"
      by (auto split: if_splits list.splits)
    have "sent c' j = sent c j" for j by (simp add: c' taken_message[OF q] sent_def q)
    with same have "worker_ok jobs c' j" if "j < length jobs" for j
      using that by (simp add: c' taken_message[OF q])
    with ok show ?thesis by (simp add: collector_ok_def c' taken_message[OF q] q)
  next
    case (Process_exits i)
    with step have i: "running c i" "to_put c ! i = []"
      and c': "c' = c\<lparr>exit_codes := (exit_codes c)[i := Some (end_codes c ! i)]\<rparr>"
      by (auto split: if_splits)
    have "worker_ok jobs c' j" if "j < length jobs" for j
    proof (cases "j = i")
      case True
      from ok that have "worker_ok jobs c j" by (simp add: collector_ok_def)
      with i True that ok show ?thesis
        by (auto simp: worker_ok_def c' sent_def running_def len)
    qed (use that same c' in \<open>simp add: sent_def\<close>)
    with ok show ?thesis by (simp add: collector_ok_def c')
  next
    case (Process_killed i code)
    with step have i: "running c i" "code \<noteq> 0"
      and c': "c' = c\<lparr>to_put := (to_put c)[i := []], exit_codes := (exit_codes c)[i := Some code]\<rparr>"
      by (auto split: if_splits)
    have "worker_ok jobs c' j" if "j < length jobs" for j
    proof (cases "j = i")
      case True
      from ok that obtain lost where "sent c j @ to_put c ! j @ lost = messages_of (jobs ! j)"
        by (auto simp: collector_ok_def worker_ok_def)
      with i True that show ?thesis
        by (auto simp: worker_ok_def c' sent_def running_def len intro!: exI[of _ "to_put c ! j @ lost"])
    qed (use that same c' in \<open>simp add: sent_def\<close>)
    with ok show ?thesis by (simp add: collector_ok_def c')
  qed
qed

lemma collector_ok_start:
  assumes "valid_jobs jobs" and "start_processes jobs = Inr c"
  shows "collector_ok jobs c"
proof -
  from assms(2) have c: "c = \<lparr>to_put = map (fst \<circ> run_import_job) jobs,
      end_codes = map (\<lambda>j. if snd (run_import_job j) = None then 0 else 1) jobs,
      exit_codes = map (\<lambda>_. None) jobs, queue = [], collected = [], finished_workers = 0, taken = []\<rparr>"
    by (auto simp: start_processes_def split: if_splits)
  have "run_import_job j = (messages_of j, None)" if "j \<in> set jobs" for j
    using valid_job_runs[OF assms(1) that] by (simp add: messages_of_def)
  then show ?thesis by (auto simp: collector_ok_def worker_ok_def sent_def c)
qed

interpretation collectors: invariant_machine collect_step
  "\<lambda>c. valid_jobs jobs \<and> start_processes jobs = Inr c" "collector_ok jobs" for jobs
  by unfold_locales (auto intro: collector_ok_start collector_ok_step simp del: collect_step.simps)

subsection \<open>Markers\<close>

text \<open>
  Each worker accounts for at most one marker taken; when as many have been taken as there are
  workers, everything that was sent has been taken.
\<close>

lemma worker_markers:
  assumes ok: "collector_ok jobs c" and i: "i < length jobs"
  shows "markers (from_worker i (taken c)) \<le> 1"
    and "markers (from_worker i (taken c)) = 1 \<Longrightarrow> from_worker i (taken c) = messages_of (jobs ! i)"
    and "markers (from_worker i (taken c)) = 1 \<Longrightarrow> from_worker i (queue c) = []"
proof -
  from ok i have "worker_ok jobs c i" by (simp add: collector_ok_def)
  then obtain rest where rest: "from_worker i (taken c) @ rest = messages_of (jobs ! i)"
    "rest = [] \<Longrightarrow> from_worker i (queue c) = []"
    by (fastforce simp: worker_ok_def sent_def)
  from prefix_markers[OF rest(1)] rest
  show "markers (from_worker i (taken c)) \<le> 1"
    and "markers (from_worker i (taken c)) = 1 \<Longrightarrow> from_worker i (taken c) = messages_of (jobs ! i)"
    and "markers (from_worker i (taken c)) = 1 \<Longrightarrow> from_worker i (queue c) = []"
    by (cases "rest = []"; simp)+
qed

lemma finished_sum:
  "collector_ok jobs c \<Longrightarrow>
   finished_workers c = (\<Sum>i<length jobs. markers (from_worker i (taken c)))"
  by (simp add: collector_ok_def markers_by_worker)

lemma all_finished:
  assumes ok: "collector_ok jobs c" and "\<not> collecting c" and i: "i < length jobs"
  shows "from_worker i (taken c) = messages_of (jobs ! i)"
proof -
  have "markers (from_worker i (taken c)) = 1"
  proof (rule ccontr)
    assume "markers (from_worker i (taken c)) \<noteq> 1"
    with worker_markers(1)[OF ok i] have "markers (from_worker i (taken c)) < 1" by simp
    then have "(\<Sum>j<length jobs. markers (from_worker j (taken c))) < (\<Sum>j<length jobs. 1)"
      using i worker_markers(1)[OF ok] by (intro sum_strict_mono_ex1) auto
    with finished_sum[OF ok] assms(2) ok show False by (simp add: collecting_def collector_ok_def)
  qed
  then show ?thesis by (rule worker_markers(2)[OF ok i])
qed

lemma missing_marker:
  assumes ok: "collector_ok jobs c" and i: "i < length jobs" and "from_worker i (taken c) \<noteq> messages_of (jobs ! i)"
  shows "collecting c"
  using all_finished[OF ok _ i] assms(3) by blast

subsection \<open>Exit codes\<close>

lemma first_bad_exit_None:
  "length codes = length jobs \<Longrightarrow> first_bad_exit jobs codes = Some None \<longleftrightarrow> list_all ((=) (Some 0)) codes"
  by (induction jobs codes rule: first_bad_exit.induct) auto

lemma collected_result:
  assumes "collector_ok jobs c"
  shows "collect_result jobs c = Some (Inr evs) \<longleftrightarrow>
     \<not> collecting c \<and> list_all ((=) (Some 0)) (exit_codes c) \<and> evs = collected c"
  using assms first_bad_exit_None[of "exit_codes c" jobs]
  by (auto simp: collect_result_def collector_ok_def split: option.splits)

subsection \<open>Collecting comes to an end\<close>

text \<open>Workers that nobody kills put everything and exit with code zero.\<close>

fun peaceful :: "collect_event \<Rightarrow> bool" where
  "peaceful (Process_killed i code) = False"
| "peaceful _ = True"

definition collect_left :: "collector \<Rightarrow> nat" where
  "collect_left c =
     2 * sum_list (map length (to_put c)) + length (queue c) +
     length (filter (\<lambda>code. code = None) (exit_codes c))"

definition collects :: "import_job list \<Rightarrow> collector \<Rightarrow> bool" where
  "collects jobs c \<longleftrightarrow> collector_ok jobs c \<and> list_all (\<lambda>code. \<not> killed code) (exit_codes c)"

definition collected_all :: "import_job list \<Rightarrow> collector \<Rightarrow> bool" where
  "collected_all jobs c \<longleftrightarrow> collect_result jobs c = Some (Inr (collected c))"

lemma list_all_update: "list_all P xs \<Longrightarrow> P y \<Longrightarrow> list_all P (xs[i := y])"
  by (auto simp: list_all_iff dest: set_update_subset_insert[THEN subsetD])

lemma collects_step:
  assumes inv: "collects jobs c" and calm: "peaceful e" and step: "collect_step c e = Some c'"
  shows "collects jobs c'" and "collect_left c' < collect_left c"
proof -
  have ok: "collector_ok jobs c" and codes: "list_all (\<lambda>code. \<not> killed code) (exit_codes c)"
    using inv by (simp_all add: collects_def)
  have len: "length (to_put c) = length (exit_codes c)" "length (end_codes c) = length (exit_codes c)"
    "running c i \<Longrightarrow> end_codes c ! i = 0" for i
    using ok by (simp_all add: collector_ok_def running_def)
  have "list_all (\<lambda>code. \<not> killed code) (exit_codes c') \<and> collect_left c' < collect_left c"
  proof (cases e)
    case (Put_message i)
    with step obtain m ms where i: "running c i" "to_put c ! i = m # ms"
      and c': "c' = c\<lparr>to_put := (to_put c)[i := ms], queue := queue c @ [(i, m)]\<rparr>"
      by (auto split: if_splits list.splits)
    with parts_update[of i "to_put c" length ms] codes len(1) show ?thesis
      by (simp add: c' collect_left_def running_def)
  next
    case Take_message
    with step obtain x q where "queue c = x # q" "c' = take_message x (c\<lparr>queue := q\<rparr>)"
      by (auto split: if_splits list.splits)
    with codes taken_message[of c x q] show ?thesis by (simp add: collect_left_def)
  next
    case (Process_exits i)
    with step have i: "running c i" and c': "c' = c\<lparr>exit_codes := (exit_codes c)[i := Some (end_codes c ! i)]\<rparr>"
      by (auto split: if_splits)
    from i count_update[of i "exit_codes c" "\<lambda>code. code = None" "Some 0"]
    have "length (filter (\<lambda>code. code = None) ((exit_codes c)[i := Some 0])) <
        length (filter (\<lambda>code. code = None) (exit_codes c))" by (simp add: running_def)
    with codes show ?thesis by (simp add: c' len(3)[OF i] collect_left_def list_all_update)
  qed (use calm in simp)
  with collector_ok_step[OF ok step] show "collects jobs c'" "collect_left c' < collect_left c"
    by (simp_all add: collects_def)
qed

lemma collects_progress:
  assumes inv: "collects jobs c" and more: "\<not> collected_all jobs c"
  shows "\<exists>e. peaceful e \<and> collect_step c e \<noteq> None"
proof (rule ccontr)
  assume "\<nexists>e. peaceful e \<and> collect_step c e \<noteq> None"
  then have stuck: "peaceful e \<Longrightarrow> collect_step c e = None" for e by blast
  have ok: "collector_ok jobs c" and alive: "list_all (\<lambda>code. \<not> killed code) (exit_codes c)"
    using inv by (simp_all add: collects_def)
  have len: "length (exit_codes c) = length jobs" using ok by (simp add: collector_ok_def)
  have put: "to_put c ! i = []" if "i < length jobs" for i
  proof (cases "running c i")
    case True
    with stuck[of "Put_message i"] show ?thesis by (auto split: list.splits)
  next
    case False
    with ok that show ?thesis by (auto simp: collector_ok_def worker_ok_def running_def)
  qed
  have "sent c i = messages_of (jobs ! i)" if "i < length jobs" for i
    using ok alive put[OF that] that by (auto simp: collector_ok_def worker_ok_def list_all_length)
  moreover have "queue c = []" if "collecting c"
    using stuck[of Take_message] that by (auto split: list.splits)
  ultimately have "markers (from_worker i (taken c)) = 1" if "i < length jobs" "collecting c" for i
    using that by (simp add: sent_def messages_of_def)
  then have "finished_workers c = length jobs" if "collecting c"
    using that finished_sum[OF ok] by simp
  then have fin: "\<not> collecting c" using len by (auto simp: collecting_def)
  have "exit_codes c ! i = Some 0" if "i < length (exit_codes c)" for i
  proof -
    have "\<not> running c i" using stuck[of "Process_exits i"] put[of i] that len by auto
    with alive that show ?thesis by (cases "exit_codes c ! i") (auto simp: running_def list_all_length)
  qed
  then have "list_all ((=) (Some 0)) (exit_codes c)" by (simp add: list_all_length)
  with fin more collected_result[OF ok] show False by (simp add: collected_all_def)
qed

interpretation collecting_ends: finishing_machine collect_step "collects jobs" peaceful peaceful
  "collected_all jobs" collect_left for jobs
proof unfold_locales
  show "collect_left c' \<le> collect_left c"
    if "collects jobs c" "peaceful e" "collect_step c e = Some c'" for c e c'
    using collects_step(2)[OF that] by simp
qed (auto simp only: intro: collects_step collects_progress)

lemma collects_start:
  assumes "valid_jobs jobs" and "start_processes jobs = Inr c"
  shows "collects jobs c"
  using collector_ok_start[OF assms] assms(2)
  by (auto simp: collects_def start_processes_def list_all_iff split: if_splits)

subsection \<open>The events of one worker among all\<close>

lemma events_by_worker:
  "list_all (\<lambda>x. fst x < n) xs \<Longrightarrow>
   mset (events_in (map snd xs)) = (\<Sum>i<n. mset (events_in (from_worker i xs)))"
proof (induction xs)
  case (Cons x xs)
  have "(\<Sum>i<n. mset (events_in (from_worker i (x # xs)))) =
      (\<Sum>i<n. (if i = fst x then mset (events_in [snd x]) else {#}) + mset (events_in (from_worker i xs)))"
    by (rule sum.cong) auto
  also have "\<dots> = mset (events_in [snd x]) + (\<Sum>i<n. mset (events_in (from_worker i xs)))"
    using Cons.prems by (simp add: sum.distrib sum.delta)
  also have "\<dots> = mset (events_in [snd x]) + mset (events_in (map snd xs))"
    using Cons by simp
  also have "\<dots> = mset (events_in (map snd (x # xs)))" by (cases "snd x") simp_all
  finally show ?case by simp
qed simp

lemma events_filter:
  "(\<And>x ev. x \<in> set xs \<Longrightarrow> snd x = Event ev \<Longrightarrow> P ev \<longleftrightarrow> fst x = i) \<Longrightarrow>
   filter P (events_in (map snd xs)) = events_in (from_worker i xs)"
proof (induction xs)
  case (Cons x xs)
  from Cons.IH Cons.prems have IH: "filter P (events_in (map snd xs)) = events_in (from_worker i xs)"
    by (meson list.set_intros(2))
  with Cons.prems[of x] show ?case by (cases "snd x") auto
qed simp

lemma sum_over_list: "(\<Sum>i<length xs. f (xs ! i)) = sum_list (map f xs)"
  by (simp add: sum_list_sum_nth atLeast0LessThan)

lemma messages_events: "events_in (messages_of job) = job_events job"
  by (simp add: messages_of_def)

lemma job_filter:
  assumes ok: "collector_ok jobs c" and "\<not> collecting c" and dist: "distinct (map job_id jobs)"
    and i: "i < length jobs"
  shows "filter (\<lambda>ev. event_job ev = job_id (jobs ! i)) (collected c) = job_events (jobs ! i)"
proof -
  have own: "event_job ev = job_id (jobs ! i) \<longleftrightarrow> fst x = i" if x: "x \<in> set (taken c)" "snd x = Event ev" for x ev
  proof -
    have j: "fst x < length jobs" using ok x(1) by (auto simp: collector_ok_def list_all_iff)
    have "Event ev \<in> set (from_worker (fst x) (taken c))"
      using x by (force simp: from_worker_def)
    with all_finished[OF ok assms(2) j] have "ev \<in> set (job_events (jobs ! fst x))"
      by (auto simp: messages_of_def)
    then have "event_job ev = job_id (jobs ! fst x)" by (rule job_events_own)
    with dist i j nth_eq_iff_index_eq[of "map job_id jobs" "fst x" i] show ?thesis by auto
  qed
  have "collected c = events_in (map snd (taken c))" using ok by (simp add: collector_ok_def)
  with events_filter[of "taken c" "\<lambda>ev. event_job ev = job_id (jobs ! i)" i, OF own]
    all_finished[OF ok assms(2) i] show ?thesis by (simp add: messages_events)
qed

subsection \<open>Properties\<close>

text \<open>
  C15. When \<open>collect\<close> returns events, they are complete: under every interleaving of the workers,
  they are the events of all the jobs and no others, and if the jobs have different IDs, those
  with the ID of a job are exactly what that job produces, in its order.
\<close>

theorem events_are_complete:
  assumes "valid_jobs jobs" and "start_processes jobs = Inr c0"
    and "runs collect_step c0 schedule = Some c" and "collect_result jobs c = Some (Inr evs)"
  shows "mset evs = mset (concat (map job_events jobs)) \<and>
         (distinct (map job_id jobs) \<longrightarrow>
            (\<forall>job \<in> set jobs. filter (\<lambda>ev. event_job ev = job_id job) evs = job_events job))"
proof -
  from collectors.invariant[OF conjI[OF assms(1,2)] assms(3)] have ok: "collector_ok jobs c" .
  from assms(4) collected_result[OF ok] have evs: "evs = collected c" and fin: "\<not> collecting c" by auto
  have "mset evs = (\<Sum>i<length jobs. mset (events_in (from_worker i (taken c))))"
    using ok events_by_worker[of "length jobs" "taken c"] by (simp add: evs collector_ok_def)
  also have "\<dots> = (\<Sum>i<length jobs. mset (job_events (jobs ! i)))"
    using all_finished[OF ok fin] by (simp add: messages_events)
  also have "\<dots> = mset (concat (map job_events jobs))"
    using sum_over_list[of "\<lambda>j. mset (job_events j)" jobs] by (simp add: mset_concat comp_def)
  finally have "mset evs = mset (concat (map job_events jobs))" .
  moreover have "filter (\<lambda>ev. event_job ev = job_id job) evs = job_events job"
    if "distinct (map job_id jobs)" "job \<in> set jobs" for job
    using that job_filter[OF ok fin] by (auto simp: evs in_set_conv_nth)
  ultimately show ?thesis by blast
qed

text \<open>Part of what worker \<open>i\<close> had to send will never come.\<close>

definition cut_off :: "import_job list \<Rightarrow> nat \<Rightarrow> collector \<Rightarrow> bool" where
  "cut_off jobs i c \<longleftrightarrow>
     collector_ok jobs c \<and> i < length jobs \<and> to_put c ! i = [] \<and> sent c i \<noteq> messages_of (jobs ! i)"

lemma cut_off_step:
  assumes cut: "cut_off jobs i c" and step: "collect_step c e = Some c'"
  shows "cut_off jobs i c'"
proof -
  have ok: "collector_ok jobs c" and i: "i < length jobs" "to_put c ! i = []" 
      "length (to_put c) = length jobs" "length (exit_codes c) = length jobs"
    using cut by (simp_all add: cut_off_def collector_ok_def)
  have "to_put c' ! i = [] \<and> sent c' i = sent c i"
    using step i by (cases e)
      (auto simp: sent_put taken_message nth_list_update sent_def running_def split: if_splits list.splits)
  with collector_ok_step[OF ok step] cut show ?thesis by (simp add: cut_off_def)
qed

lemma cut_off_collecting:
  assumes "cut_off jobs i c"
  shows "collecting c"
proof -
  from assms have ok: "collector_ok jobs c" and i: "i < length jobs"
    and short: "sent c i \<noteq> messages_of (jobs ! i)" by (simp_all add: cut_off_def)
  from ok i obtain lost where "sent c i @ to_put c ! i @ lost = messages_of (jobs ! i)"
    by (auto simp: collector_ok_def worker_ok_def)
  with short have "from_worker i (taken c) \<noteq> messages_of (jobs ! i)" by (auto simp: sent_def)
  then show ?thesis by (rule missing_marker[OF ok i])
qed

lemma cut_off_runs: "cut_off jobs i c \<Longrightarrow> runs collect_step c es = Some c' \<Longrightarrow> cut_off jobs i c'"
  by (induction es arbitrary: c) (auto split: option.splits dest: cut_off_step simp del: collect_step.simps)

text \<open>
  C33. A worker that is killed before its finish marker has been sent makes \<open>collect\<close> wait for
  ever: whatever happens afterwards, the loop never ends, so the check of the exit codes that
  would raise \<open>RuntimeError\<close> is never reached.
\<close>

theorem killed_worker_blocks_collect:
  assumes "valid_jobs jobs" and "start_processes jobs = Inr c0"
    and "runs collect_step c0 before = Some c1" and "to_put c1 ! i \<noteq> []"
    and "collect_step c1 (Process_killed i code) = Some c2"
    and "runs collect_step c2 after = Some c"
  shows "collecting c \<and> collect_result jobs c = None"
proof -
  from collectors.invariant[OF conjI[OF assms(1,2)] assms(3)] have ok: "collector_ok jobs c1" .
  from assms(5) have i: "i < length jobs"
    and c2: "c2 = c1\<lparr>to_put := (to_put c1)[i := []], exit_codes := (exit_codes c1)[i := Some code]\<rparr>"
    using ok by (auto simp: running_def collector_ok_def split: if_splits)
  from ok i obtain lost where "sent c1 i @ to_put c1 ! i @ lost = messages_of (jobs ! i)"
    by (auto simp: collector_ok_def worker_ok_def)
  with assms(4) have "sent c1 i \<noteq> messages_of (jobs ! i)" by auto
  with collector_ok_step[OF ok assms(5)] i ok have "cut_off jobs i c2"
    by (simp add: cut_off_def c2 sent_def collector_ok_def)
  from cut_off_collecting[OF cut_off_runs[OF this assms(6)]]
  show ?thesis by (simp add: collect_result_def)
qed

text \<open>
  C34. If no worker is killed, \<open>collect\<close> returns: every schedule has at most two steps for each
  message and one for each process, when nothing more can happen all events have been returned,
  and this can be reached from everywhere.
\<close>

theorem collect_returns:
  assumes "valid_jobs jobs" and "start_processes jobs = Inr c0"
    and "list_all peaceful schedule" and "runs collect_step c0 schedule = Some c"
  shows "length schedule + collect_left c \<le> collect_left c0 \<and>
         ((\<forall>e. peaceful e \<longrightarrow> collect_step c e = None) \<longrightarrow> collect_result jobs c = Some (Inr (collected c))) \<and>
         (\<exists>rest d. list_all peaceful rest \<and> runs collect_step c rest = Some d \<and>
            collect_result jobs d = Some (Inr (collected d)))"
proof -
  have "filter peaceful schedule = schedule" using assms(3) by (simp add: list_all_iff filter_id_conv)
  with collecting_ends.comes_to_an_end[OF collects_start[OF assms(1,2)] assms(3,4)]
  show ?thesis by (auto simp: collected_all_def)
qed

definition good_job :: import_job where
  "good_job = \<lparr>job_id = ''j1'', file_name = ''a.csv'', row_count = 7, should_fail_validation = False\<rparr>"

definition bad_job :: import_job where
  "bad_job = \<lparr>job_id = ''j2'', file_name = ''b.csv'', row_count = 0, should_fail_validation = True\<rparr>"

definition two_jobs :: collector where
  "two_jobs = projr (start_processes [good_job, bad_job])"

definition mixed_schedule :: "collect_event list" where
  "mixed_schedule =
     [Put_message 0, Put_message 1, Put_message 1, Take_message, Put_message 0, Put_message 1,
      Put_message 0, Put_message 1, Process_exits 1, Take_message, Take_message, Take_message,
      Put_message 0, Put_message 0, Take_message, Take_message, Take_message, Take_message,
      Process_exits 0, Take_message]"

definition mixed_end :: collector where
  "mixed_end = the (runs collect_step two_jobs mixed_schedule)"

lemma jobs_made:
  "make_import_job ''j1'' ''a.csv'' 7 False = Inr good_job"
  "make_import_job ''j2'' ''b.csv'' 0 True = Inr bad_job"
  by (simp_all add: make_import_job_def good_job_def bad_job_def)

lemma jobs_valid: "valid_jobs [good_job, bad_job]" "valid_jobs [good_job]"
  using jobs_made unfolding valid_jobs_def by auto

lemma job_messages:
  "run_import_job good_job = (messages_of good_job, None)"
  "run_import_job bad_job = (messages_of bad_job, None)"
  using run_import_job_eq[OF jobs_made(1)] run_import_job_eq[OF jobs_made(2)]
  by (simp_all add: messages_of_def)

lemma job_events_simps:
  "messages_of good_job = map Event (job_events good_job) @ [Worker_finished ''j1'']"
  "messages_of bad_job = map Event (job_events bad_job) @ [Worker_finished ''j2'']"
  "job_events good_job =
     [\<lparr>event_job = ''j1'', event_stage = Started, detail = ''started importing a.csv''\<rparr>,
      \<lparr>event_job = ''j1'', event_stage = Parsed, detail = ''parsed '' @ py_str_int 7 @ '' rows''\<rparr>,
      \<lparr>event_job = ''j1'', event_stage = Validated, detail = ''validated rows''\<rparr>,
      \<lparr>event_job = ''j1'', event_stage = Stored, detail = ''stored import rows''\<rparr>]"
  "job_events bad_job =
     [\<lparr>event_job = ''j2'', event_stage = Started, detail = ''started importing b.csv''\<rparr>,
      \<lparr>event_job = ''j2'', event_stage = Parsed, detail = ''parsed '' @ py_str_int 0 @ '' rows''\<rparr>,
      \<lparr>event_job = ''j2'', event_stage = Failed, detail = ''b.csv failed validation''\<rparr>]"
  by (simp_all add: job_events_def messages_of_def good_job_def bad_job_def)

lemma mixed_run:
  "start_processes [good_job, bad_job] = Inr two_jobs"
  "runs collect_step two_jobs mixed_schedule = Some mixed_end"
  "collect_result [good_job, bad_job] mixed_end = Some (Inr (collected mixed_end))"
  by (simp_all add: two_jobs_def start_processes_def mixed_schedule_def mixed_end_def job_messages
      job_events_simps collecting_def collect_result_def running_def take_message_def)

theorem events_are_complete_witness:
  "mset (collected mixed_end) = mset (job_events good_job @ job_events bad_job)"
  using events_are_complete[OF jobs_valid(1) mixed_run] by simp

theorem collect_returns_witness:
  "length mixed_schedule + collect_left mixed_end \<le> collect_left two_jobs"
  by (rule conjunct1[OF collect_returns[OF jobs_valid(1) mixed_run(1) _ mixed_run(2)]])
    (simp add: mixed_schedule_def)

definition lone_worker :: collector where
  "lone_worker = projr (start_processes [good_job])"

definition killed_early :: collector where
  "killed_early = the (collect_step lone_worker (Process_killed 0 (-9)))"

lemma killed_run:
  "start_processes [good_job] = Inr lone_worker" "runs collect_step lone_worker [] = Some lone_worker"
  "to_put lone_worker ! 0 \<noteq> []"
  "collect_step lone_worker (Process_killed 0 (-9)) = Some killed_early"
  "runs collect_step killed_early [] = Some killed_early"
  by (simp_all add: lone_worker_def start_processes_def killed_early_def running_def job_messages
      job_events_simps)

theorem killed_worker_blocks_collect_witness:
  "collecting killed_early \<and> collect_result [good_job] killed_early = None"
  by (rule killed_worker_blocks_collect[OF jobs_valid(2) killed_run])

end
