(* ===== verification/Spec2Isabelle.thy ===== *)
theory Spec2Isabelle
  imports
    Inventory Webhook Leaderboard Feature_Flags Seat_Booking Review Tracker Startup
    Download_Pool Rate_Limiter Uploader Request_Context Payment_Status Cleanup Gate
    Bounded_Queue Connection_Pool Support_Queue Shipping_Queue Rollback Job_Queue Pipeline Pipeline_Close
    Breaker Retry Fraud_Batch Checks Import_Events
begin

text \<open>
  \<^bold>\<open>A verification of the package \<open>concurrencyexamples\<close>.\<close>

  The package (\<^verbatim>\<open>src/src/concurrencyexamples\<close>) holds small components that
  coordinate concurrent callers: objects behind a lock, objects with a condition variable,
  pools behind a semaphore, clients of the standard library's queues, worker loops, and batch
  runners. The components do not call each other; what they share is Python's \<^verbatim>\<open>threading\<close>,
  \<^verbatim>\<open>asyncio\<close>, \<^verbatim>\<open>queue\<close>, \<^verbatim>\<open>multiprocessing\<close> and \<^verbatim>\<open>concurrent.futures\<close>. The
  development has one theory for each way of sharing and one for each component on top.

  \<^bold>\<open>How a component is modelled.\<close> Its state is a \<open>record\<close> with the fields of the class,
  its data classes are records made by a \<open>make_\<dots>\<close> function that raises what
  \<^verbatim>\<open>__post_init__\<close> raises, and each method is a function on the state whose result is an
  exception or a value (\<open>exn + 'a\<close>). Concurrency is a step function: one step is one critical
  section of one caller (a block under a lock, one operation of a queue, what an asyncio task
  does between two awaits), and a schedule is any list of steps that can be run
  (\<open>Prelude.runs\<close>). A wait that cannot go on blocks its caller; it can time out if the caller
  gave a timeout, and where the waiting task can be cancelled or the waiting thread
  interrupted, that is a step as well. The properties speak about every schedule. Callables
  that a caller supplies (handlers, operations, stages, checks, tasks) are arguments, or
  outcomes in the schedule: they may return anything and raise anything, and where it
  matters they may call the component again (a rollback handler, a cleanup that stops its own
  worker, a job handler that awaits the stop of its queue).

  \<^bold>\<open>Shared theories.\<close>
  \<^item> \<open>Prelude\<close>: exceptions, results, \<^verbatim>\<open>repr\<close> and \<^verbatim>\<open>str\<close>, dictionaries with insertion order,
    runs, and the locales \<open>traced_machine\<close> and \<open>invariant_machine\<close>, which turn start and step
    lemmas into a statement about every run.
  \<^item> \<open>Machines\<close>: two further interfaces of machines. \<open>finishing_machine\<close> is kept by what promises
    to come to an end: its own steps use up a measure and one of them is possible until it has
    finished; so every schedule has a bounded number of them, a stuck schedule has finished,
    and the end can be reached from everywhere. \<open>refined_machine\<close> maps the runs of a machine to
    the runs of a simpler one.
  \<^item> \<open>Locked_Object\<close>: methods as sequences of field accesses under a lock; its machine
    interleaves the accesses of all callers, and its locale \<open>lock_protected\<close> shows that every
    interleaving has the replies and the state of the methods run one after another in the
    order in which they took the lock. The components under a lock are proved over it.
  \<^item> \<open>Monitor\<close>: condition variables; the locales \<open>condition_object\<close> and \<open>stable_condition\<close> show
    that a wait returns true only when its predicate held, and that no wake-up is lost.
  \<^item> \<open>Semaphores\<close>: permits, leases and waiters, with the locale \<open>semaphore_client\<close>.
  \<^item> \<open>Py_Queue\<close>: \<^verbatim>\<open>queue.Queue\<close>, \<^verbatim>\<open>LifoQueue\<close> and \<^verbatim>\<open>PriorityQueue\<close> with timeouts, the count of
    unfinished tasks and shutdown; the locale \<open>discipline\<close> is interpreted on the three
    orders.
  \<^item> \<open>Dispatch_Queue\<close>: the numbered priority queue that the support queue and the shipping
    queue have in common, with the locale \<open>numbered_client\<close>.

  \<^bold>\<open>Components and what is shown of them.\<close>
  \<^item> Under a lock: \<open>Inventory\<close> (\<^verbatim>\<open>inventoryreservation\<close>: stock is conserved and never
    oversold), \<open>Webhook\<close> (\<^verbatim>\<open>paymentwebhook\<close>: each payment event is applied once),
    \<open>Leaderboard\<close> (\<^verbatim>\<open>leaderboard\<close>: the maximum is kept, the ranking is right),
    \<open>Feature_Flags\<close> (\<^verbatim>\<open>featureflags\<close>: every read sees one snapshot, with the reentrant
    lock), \<open>Seat_Booking\<close> (\<^verbatim>\<open>asyncseatbooking\<close>: two dictionaries refine one map).
  \<^item> With a condition: \<open>Approval\<close> and \<open>Review\<close> (\<^verbatim>\<open>batchapproval\<close> and \<^verbatim>\<open>asyncreviewbatch\<close>, which
    keep one contract, the locale \<open>approval_class\<close>: waiters are released exactly when everybody
    has approved), \<open>Tracker\<close> (\<^verbatim>\<open>requesttracker\<close>: draining waits for exactly the handlers inside; shutdown is final),
    \<open>Startup\<close> (\<^verbatim>\<open>servicestartup\<close>), \<open>Payment_Status\<close> (\<^verbatim>\<open>asyncpaymentstatus\<close>: the first result
    wins and reaches every waiter), \<open>Cleanup\<close> (\<^verbatim>\<open>scheduledcleanup\<close>: one worker, a prompt
    stop, also from inside of the cleanup; a thread that cannot be created), \<open>Gate\<close> (\<^verbatim>\<open>barrierdeployment\<close>: nobody passes early, nobody is stranded).
  \<^item> Behind a semaphore: \<open>Download_Pool\<close>, \<open>Rate_Limiter\<close>, \<open>Uploader\<close> (\<^verbatim>\<open>downloadpool\<close>,
    \<^verbatim>\<open>ratelimiter\<close>, \<^verbatim>\<open>asyncbatchuploader\<close>: the caps hold and permits are conserved; every download
    ends unless one waits for a second slot while it holds its own, in a nested call of \<open>run\<close>,
    where all slots can be locked up for ever; the uploader also
    with several calls at once that share its semaphore, where the results of a call depend
    neither on the schedule nor on the other calls, and all calls end).
  \<^item> Per caller: \<open>Request_Context\<close> (\<^verbatim>\<open>threadlocalrequest\<close> and \<^verbatim>\<open>asynccontextrequest\<close>), with the
    locale \<open>per_caller\<close>.
  \<^item> Over queues: \<open>Bounded_Queue\<close>, \<open>Connection_Pool\<close>, \<open>Support_Queue\<close>, \<open>Shipping_Queue\<close>,
    \<open>Rollback\<close> (\<^verbatim>\<open>boundedqueue\<close>, \<^verbatim>\<open>connectionpool\<close>, \<^verbatim>\<open>supportqueue\<close>, \<^verbatim>\<open>asyncshippingqueue\<close>,
    \<^verbatim>\<open>deploymentrollback\<close>: order of delivery, nothing lost, nothing twice). Checkouts of one
    connection at a time are always served. The rollback is a function, as one thread runs it,
    and a machine with a stack of open calls for each thread, where handlers may register and
    drain again; an undisturbed drain of the machine is the function, and every count that a
    drain returns is exact.
  \<^item> Workers: \<open>Job_Queue\<close> (\<^verbatim>\<open>asyncjobqueue\<close>: a stop drains everything, and returns if
    it is not cancelled, no handler awaits it and none raises more than an \<open>Exception\<close>; a cancelled
    stop strands the queue, and a stop awaited by a handler locks it up), \<open>Pipeline\<close> (\<^verbatim>\<open>documentpipeline\<close>: if no stage raises more
    than an \<open>Exception\<close>, a closed pipeline has processed every document as the composition of the
    stages does, in order, and closing terminates), \<open>Pipeline_Close\<close> (its method \<open>close\<close> with any number of callers, who join the
    workers one by one with or without a deadline: what they are told is true),
    \<open>Import_Events\<close> (\<^verbatim>\<open>importjobevents\<close>: worker processes and their shared queue; the collected
    events are complete, collecting ends unless a worker is killed).
  \<^item> Calls and batches: \<open>Breaker\<close> (\<^verbatim>\<open>circuitbreaker\<close>: the class refines an automaton with three
    states, also under overlapping calls), \<open>Retry\<close> (\<^verbatim>\<open>retryexecutor\<close>: the results depend
    neither on the schedule nor on the order of their collection), \<open>Fraud\<close> and
    \<open>Fraud_Batch\<close> (\<^verbatim>\<open>fraudscorebatch\<close>: the scoring function; the process pool, which gives what
    a loop would give), \<open>Checks\<close> (\<^verbatim>\<open>taskgroup\<close>: all results, or a group of the raised
    exceptions, or no check at all if one cannot be created; a run ends, also when its caller
    is cancelled).

  \<^bold>\<open>History variables.\<close> Logs of replies, accepted and handled jobs and the like are fields
  that no method reads; they let a property speak about what has happened. They are marked as
  such in their theories.

  \<^bold>\<open>Termination and fuel.\<close> No definition uses fuel: a schedule is a finite list, the loops of
  \<open>Rollback.drain\<close> and \<open>Retry.retry_loop\<close> terminate by the length of the stack and by the
  number of attempts left, and the endless worker loops are step functions. Where a
  component promises to come to an end (a stop, a close, a batch, a collection), it is an
  interpretation of \<open>finishing_machine\<close>: its own steps are bounded in every schedule, it is
  never stuck before the end, and the end can be reached.

  \<^bold>\<open>Limits of the model.\<close>
  \<^item> Time is the order of events. A timeout has a sign (negative ones are rejected, zero ones
    do not wait) and expires when the schedule says so; clocks give integers. The rounding of
    floats is not modelled.
  \<^item> Between two steps the interpreter may do anything that keeps critical sections atomic; how
    \<^verbatim>\<open>threading\<close> and \<^verbatim>\<open>asyncio\<close> provide their locks, conditions and queues is taken from their
    documentation. The pools of \<^verbatim>\<open>concurrent.futures\<close> and the pickling of
    \<^verbatim>\<open>multiprocessing\<close> appear as the interleavings and outcomes that they allow.
  \<^item> A signal interrupts a thread where it waits, and a callable while it runs. That it may also
    strike between two instructions of a method (after \<open>acquire\<close> and before the \<^verbatim>\<open>try\<close>), as
    Python allows in principle, is outside; so is a waiter of the barrier that is interrupted,
    and a caller of a thread pool that is interrupted while it collects.
  \<^item> The callables of the caller may call back where a theory says so: handlers of the job queue
    and of the rollback, the cleanup, downloads, and stages that submit. Outside are a stage that
    closes its own pipeline, an upload that awaits a call of its own uploader as far as the end
    of the calls is concerned, and a clock of the breaker that raises.
  \<^item> Strings hold characters below 256.
  \<^item> The \<^verbatim>\<open>__init__\<close> modules only re-export names and are not modelled; nor are the tests.

  \<^bold>\<open>Open ends.\<close> A refinement of \<open>Py_Queue\<close> and of the semaphores to the level of single
  accesses under their lock, as \<open>Locked_Object\<close> has it for the lock-protected objects; the
  order in which waiting callers are served, and with it freedom from starvation of a single
  waiter.
\<close>

end
